(* ===== verification/Prelude.thy ===== *)
theory Prelude
  imports Main "HOL-Library.Word"
begin

text \<open>
  Shared vocabulary of the development: the fixed-width integers of the C code, byte
  buffers as lists of bytes, the reading and writing of such buffers, and the generic
  facts about words and lists the components share.

  A C buffer is a list of bytes, \<open>buf[i]\<close> is \<open>buf ! i\<close>, and a store
  \<open>buf[i] = x\<close> is the list update \<open>buf[i := x]\<close>. Where the C code masks an index
  (\<open>b[off & MASK]\<close>) the model masks it in the same way.
\<close>

unbundle bit_operations_syntax

type_synonym u8 = "8 word"
type_synonym u16 = "16 word"
type_synonym u32 = "32 word"
type_synonym u64 = "64 word"
type_synonym bytes = "u8 list"

text \<open>Facts that turn comparisons and sums of words into facts about natural numbers.\<close>

named_theorems word_nat

lemmas [word_nat] = word_less_nat_alt word_le_nat_alt unat_word_ariths

lemma unat_plus_noof:
  fixes a b :: "'a::len word"
  assumes "unat a + unat b < 2 ^ LENGTH('a)"
  shows "unat (a + b) = unat a + unat b"
  using assms by (simp add: unat_word_ariths)

lemma unat_minus_noof:
  fixes a b :: "'a::len word"
  assumes "b \<le> a"
  shows "unat (a - b) = unat a - unat b"
  using assms by (simp add: unat_sub)

lemma unat_of_nat_u32 [simp]: "n < 4294967296 \<Longrightarrow> unat (of_nat n :: u32) = n"
  by (simp add: unat_of_nat)

lemma of_nat_less_u32 [simp]:
  "m < 4294967296 \<Longrightarrow> n < 4294967296 \<Longrightarrow> (of_nat m :: u32) < of_nat n \<longleftrightarrow> m < n"
  by (simp add: word_less_nat_alt)

lemma of_nat_le_u32 [simp]:
  "m < 4294967296 \<Longrightarrow> n < 4294967296 \<Longrightarrow> (of_nat m :: u32) \<le> of_nat n \<longleftrightarrow> m \<le> n"
  by (simp add: word_le_nat_alt)

subsection \<open>Exclusive or of buffers\<close>

definition xor_bytes :: "bytes \<Rightarrow> bytes \<Rightarrow> bytes" where
  "xor_bytes xs ys = map2 (XOR) xs ys"

lemma length_xor_bytes [simp]: "length (xor_bytes xs ys) = min (length xs) (length ys)"
  by (simp add: xor_bytes_def)

lemma nth_xor_bytes [simp]:
  "i < length xs \<Longrightarrow> i < length ys \<Longrightarrow> xor_bytes xs ys ! i = xs ! i XOR ys ! i"
  by (simp add: xor_bytes_def)

subsection \<open>Big-endian numbers in a buffer\<close>

definition be16 :: "u8 \<Rightarrow> u8 \<Rightarrow> u32" where
  "be16 hi lo = push_bit 8 (ucast hi) OR ucast lo"

lemma or_ucast_disjoint:
  "push_bit 8 (ucast (hi :: u8) :: u32) OR ucast (lo :: u8) = push_bit 8 (ucast hi) + ucast lo"
proof -
  have "push_bit 8 (ucast hi :: u32) AND ucast lo = 0"
    by (rule bit_eqI) (auto simp: bit_simps dest: bit_imp_le_length)
  then show ?thesis by (simp add: disjunctive_add_eq_or)
qed

lemma unat_ucast_u8 [simp]: "unat (ucast (b :: u8) :: u32) = unat b"
  by (simp add: unsigned_ucast_eq take_bit_nat_eq_self_iff)
    (rule less_trans [OF unsigned_less], simp)

lemma unat_be16: "unat (be16 hi lo) = 256 * unat hi + unat lo"
proof -
  have h: "unat hi < 256" and l: "unat lo < 256"
    using unsigned_less [of hi] unsigned_less [of lo] by simp_all
  have "unat (push_bit 8 (ucast hi) :: u32) = 256 * unat hi"
    using h by (simp add: push_bit_eq_mult unat_word_ariths)
  with h l show ?thesis
    by (simp add: be16_def or_ucast_disjoint unat_word_ariths)
qed

lemma unat_be16_less: "unat (be16 hi lo) < 65536"
proof -
  have "unat hi < 256" and "unat lo < 256"
    using unsigned_less [of hi] unsigned_less [of lo] by simp_all
  then show ?thesis by (simp add: unat_be16)
qed


text \<open>The number a whole buffer holds, and the bytes of a number, most significant first.\<close>

definition be_word :: "bytes \<Rightarrow> 'a::len word" where
  "be_word bs = foldl (\<lambda>w b. push_bit 8 w OR ucast b) 0 bs"

definition be_bytes :: "nat \<Rightarrow> 'a::len word \<Rightarrow> bytes" where
  "be_bytes n w = map (\<lambda>i. ucast (drop_bit (8 * (n - 1 - i)) w)) [0..<n]"

lemma be_word_snoc: "be_word (bs @ [b]) = push_bit 8 (be_word bs) OR ucast b"
  by (simp add: be_word_def)

lemma u8_bit_bound: "bit (b :: u8) n \<Longrightarrow> n < 8"
  using bit_imp_le_length [of b n] by simp

lemma bit_be_word:
  "bit (be_word bs :: 'a::len word) n \<longleftrightarrow>
     n < LENGTH('a) \<and> n div 8 < length bs \<and> bit (bs ! (length bs - 1 - n div 8)) (n mod 8)"
proof (induction bs arbitrary: n rule: rev_induct)
  case Nil
  then show ?case by (simp add: be_word_def)
next
  case (snoc b bs)
  show ?case
  proof (cases "n < 8")
    case True
    then show ?thesis
      by (auto simp: be_word_snoc bit_simps nth_append)
  next
    case False
    then obtain m where m: "n = m + 8" by (metis add.commute le_Suc_ex not_less)
    have d: "(m + 8) div 8 = Suc (m div 8)" by simp
    have "\<not> bit b n" using False u8_bit_bound by blast
    then show ?thesis
      unfolding be_word_snoc by (auto simp: m d bit_simps snoc nth_append)
  qed
qed

lemma length_be_bytes [simp]: "length (be_bytes n w) = n"
  by (simp add: be_bytes_def)

lemma be_bytes_be_word:
  assumes "8 * length bs \<le> LENGTH('a)"
  shows "be_bytes (length bs) (be_word bs :: 'a::len word) = bs"
proof (rule nth_equalityI)
  fix i assume "i < length (be_bytes (length bs) (be_word bs :: 'a word))"
  then have i: "i < length bs" by simp
  show "be_bytes (length bs) (be_word bs :: 'a word) ! i = bs ! i"
  proof (rule bit_eqI)
    fix n
    assume "possible_bit TYPE(8 word) n"
    then have n: "n < 8" by (simp add: possible_bit_def)
    let ?k = "8 * (length bs - 1 - i) + n"
    have d: "?k div 8 = length bs - 1 - i" "?k mod 8 = n" using n by auto
    have k: "?k < LENGTH('a)" using i n assms by auto
    have e: "be_bytes (length bs) (be_word bs :: 'a word) ! i
        = ucast (drop_bit (8 * (length bs - 1 - i)) (be_word bs :: 'a word))"
      using i by (simp add: be_bytes_def)
    have "bit (be_bytes (length bs) (be_word bs :: 'a word) ! i) n \<longleftrightarrow> bit (be_word bs :: 'a word) ?k"
      using n unfolding e by (simp add: bit_ucast_iff bit_drop_bit_eq)
    also have "\<dots> \<longleftrightarrow> bit (bs ! i) n"
      using k d i by (auto simp: bit_be_word)
    finally show "bit (be_bytes (length bs) (be_word bs :: 'a word) ! i) n \<longleftrightarrow> bit (bs ! i) n" .
  qed
qed simp

lemma be_word_be_bytes:
  assumes "8 * n = LENGTH('a)"
  shows "be_word (be_bytes n w) = (w :: 'a::len word)"
proof (rule bit_eqI)
  fix k
  assume "possible_bit TYPE('a word) k"
  then have k: "k < LENGTH('a)" by (simp add: possible_bit_def)
  then have "k div 8 < n" using assms by auto
  moreover have "8 * (n - 1 - (n - 1 - k div 8)) + k mod 8 = k"
    using calculation by auto
  ultimately show "bit (be_word (be_bytes n w) :: 'a word) k \<longleftrightarrow> bit w k"
    using k by (simp add: bit_be_word) (simp add: be_bytes_def bit_ucast_iff bit_drop_bit_eq)
qed

end
