(* ===== verification/GF128.thy ===== *)
theory GF128
  imports Prelude
begin

text \<open>
  Arithmetic in the field GF(2^128) of AES-GCM (\<open>helpers.h\<close>, \<open>gf128_mul_step\<close> to
  \<open>gf128_halve_to_h\<close>).

  The first part translates the byte-wise code. The second part is the reference: the
  elements as 128-bit words in the bit order of NIST SP 800-38D (the most significant bit is
  the coefficient of x^0), a type \<open>gf128\<close> of its own that is shown to be a commutative ring,
  so that sums, products and powers of the library apply to it. The third part shows that the
  byte-wise code computes the ring's product and powers, and that
  \<open>gf128_halve_to_h\<close> undoes the doubling the TLS libraries store.
\<close>

section \<open>The code\<close>

text \<open>
  The unrolled loop of \<open>gf128_mul_step\<close> over the 16 bytes of \<open>v\<close> and \<open>z\<close>, from byte 0 up;
  \<open>prev\<close> is the byte of \<open>v\<close> before the current one. Returns the new \<open>v\<close>, the new \<open>z\<close> and the
  last byte of the old \<open>v\<close>.
\<close>

fun gf128_step_loop :: "u8 \<Rightarrow> u8 \<Rightarrow> bytes \<Rightarrow> bytes \<Rightarrow> bytes \<times> bytes \<times> u8" where
  "gf128_step_loop m prev (cur # vs) (z # zs) =
     (let (vs', zs', lst) = gf128_step_loop m cur vs zs
      in ((drop_bit 1 cur OR push_bit 7 prev) # vs', (z XOR (cur AND m)) # zs', lst))"
| "gf128_step_loop m prev _ _ = ([], [], prev)"

definition gf128_mul_step :: "bytes \<Rightarrow> bytes \<Rightarrow> bytes \<Rightarrow> nat \<Rightarrow> bytes \<times> bytes" where
  "gf128_mul_step a v z i =
     (let m = - (drop_bit (7 - i mod 8) (a ! (i div 8 mod 16)) AND 1);
          (v', z', prev) = gf128_step_loop m 0 v z;
          v'' = (if prev AND 1 \<noteq> 0 then v'[0 := v' ! 0 XOR 0xe1] else v')
      in (v'', z'))"

definition gf128_mul :: "bytes \<Rightarrow> bytes \<Rightarrow> bytes" where
  "gf128_mul a b =
     snd (fold (\<lambda>i (v, z). gf128_mul_step a v z i) [0..<128] (b, replicate 16 0))"

text \<open>The multiplicative identity, \<open>result[0] = 0x80\<close> after a zero fill.\<close>

definition gf128_identity :: bytes where
  "gf128_identity = (replicate 16 0)[0 := 0x80]"

fun gf128_h_power_loop :: "nat \<Rightarrow> u32 \<Rightarrow> bytes \<Rightarrow> bytes \<Rightarrow> bytes" where
  "gf128_h_power_loop 0 pw base result = result"
| "gf128_h_power_loop (Suc n) pw base result =
     (if 0 < pw
      then let result' = (if pw AND 1 \<noteq> 0 then gf128_mul result base else result);
               base' = gf128_mul base base
           in gf128_h_power_loop n (drop_bit 1 pw) base' result'
      else result)"

definition gf128_h_power :: "bytes \<Rightarrow> u32 \<Rightarrow> bytes" where
  "gf128_h_power h pw = gf128_h_power_loop 11 pw h gf128_identity"

definition gf128_h_power_table :: "bytes list \<Rightarrow> u32 \<Rightarrow> bytes" where
  "gf128_h_power_table h_powers pw =
     fold (\<lambda>i result. if 0 < pw \<and> pw AND push_bit i 1 \<noteq> 0
                      then gf128_mul result (h_powers ! i) else result)
       [0..<11] gf128_identity"

text \<open>
  The \<open>_ws\<close> variants run the same loops in buffers of the caller: they take the old contents
  of the workspace and return the new ones beside the result.
\<close>

definition gf128_mul_ws :: "bytes \<Rightarrow> bytes \<Rightarrow> bytes \<Rightarrow> bytes \<Rightarrow> bytes \<times> bytes \<times> bytes" where
  "gf128_mul_ws a b ws_v ws_z =
     (let ws_z0 = replicate 16 0; ws_v0 = b;
          (ws_v', ws_z') = fold (\<lambda>i (v, z). gf128_mul_step a v z i) [0..<128] (ws_v0, ws_z0)
      in (ws_z', ws_v', ws_z'))"

fun gf128_h_power_ws_loop ::
  "nat \<Rightarrow> u32 \<Rightarrow> bytes \<Rightarrow> bytes \<Rightarrow> bytes \<Rightarrow> bytes \<Rightarrow> bytes \<Rightarrow> bytes" where
  "gf128_h_power_ws_loop 0 pw result ws_base ws_tmp ws_v ws_z = result"
| "gf128_h_power_ws_loop (Suc n) pw result ws_base ws_tmp ws_v ws_z =
     (if 0 < pw
      then let (result1, ws_tmp1, ws_v1, ws_z1) =
                 (if pw AND 1 \<noteq> 0
                  then let (t, v, z) = gf128_mul_ws result ws_base ws_v ws_z in (t, t, v, z)
                  else (result, ws_tmp, ws_v, ws_z));
               (t, v, z) = gf128_mul_ws ws_base ws_base ws_v1 ws_z1
           in gf128_h_power_ws_loop n (drop_bit 1 pw) result1 t t v z
      else result)"

definition gf128_h_power_ws ::
  "bytes \<Rightarrow> u32 \<Rightarrow> bytes \<Rightarrow> bytes \<Rightarrow> bytes \<Rightarrow> bytes \<Rightarrow> bytes" where
  "gf128_h_power_ws h pw ws_base ws_tmp ws_v ws_z =
     gf128_h_power_ws_loop 11 pw gf128_identity h ws_tmp ws_v ws_z"

definition gf128_h_power_table_ws ::
  "bytes list \<Rightarrow> u32 \<Rightarrow> bytes \<Rightarrow> bytes \<Rightarrow> bytes" where
  "gf128_h_power_table_ws h_powers pw ws_v ws_z =
     fst (fold (\<lambda>i (result, v, z).
                  if 0 < pw \<and> pw AND push_bit i 1 \<noteq> 0
                  then gf128_mul_ws result (h_powers ! i) v z
                  else (result, v, z))
            [0..<11] (gf128_identity, ws_v, ws_z))"

text \<open>
  \<open>lo\<close> and \<open>hi\<close> are the two 64-bit lanes of the doubled value; the result is the big-endian
  GHASH string, the bytes of \<open>hi\<close> from the most significant down and then those of \<open>lo\<close>.
\<close>

definition gf128_halve_to_h :: "u64 \<Rightarrow> u64 \<Rightarrow> bytes" where
  "gf128_halve_to_h lo hi =
     (let reduced = lo AND 1;
          hi1 = (if reduced \<noteq> 0 then hi XOR 0xC200000000000000 else hi);
          lo1 = (if reduced \<noteq> 0 then lo XOR 1 else lo);
          lo2 = drop_bit 1 lo1 OR push_bit 63 hi1;
          hi2 = drop_bit 1 hi1 OR push_bit 63 reduced
      in map (\<lambda>i. ucast (drop_bit (56 - 8 * i) hi2)) [0..<8] @
         map (\<lambda>i. ucast (drop_bit (56 - 8 * i) lo2)) [0..<8])"

section \<open>The ring GF(2^128)\<close>

datatype gf128 = GF (gf_bits: "128 word")

lemma gf128_eqI: "gf_bits a = gf_bits b \<Longrightarrow> a = b"
  by (cases a; cases b) simp

text \<open>Coefficient of x^i: bit \<open>127 - i\<close> of the word.\<close>

definition gf_coeff :: "gf128 \<Rightarrow> nat \<Rightarrow> bool" where
  "gf_coeff a i \<longleftrightarrow> bit (gf_bits a) (127 - i)"

instantiation gf128 :: ab_group_add
begin

definition zero_gf128 :: gf128 where "0 = GF 0"
definition plus_gf128 :: "gf128 \<Rightarrow> gf128 \<Rightarrow> gf128" where "a + b = GF (gf_bits a XOR gf_bits b)"
definition uminus_gf128 :: "gf128 \<Rightarrow> gf128" where "- a = (a :: gf128)"
definition minus_gf128 :: "gf128 \<Rightarrow> gf128 \<Rightarrow> gf128" where "a - b = GF (gf_bits a XOR gf_bits b)"

instance
  by standard
    (auto intro!: gf128_eqI simp: zero_gf128_def plus_gf128_def uminus_gf128_def
      minus_gf128_def ac_simps)

end

lemma gf_bits_0 [simp]: "gf_bits 0 = 0"
  by (simp add: zero_gf128_def)

lemma gf_bits_plus [simp]: "gf_bits (a + b) = gf_bits a XOR gf_bits b"
  by (simp add: plus_gf128_def)

lemma gf_self_add [simp]: "a + a = (0 :: gf128)"
  by (rule gf128_eqI) simp

lemma gf_coeff_plus: "gf_coeff (a + b) i \<longleftrightarrow> gf_coeff a i \<noteq> gf_coeff b i"
  by (auto simp: gf_coeff_def bit_simps)

text \<open>Multiplication by x: a shift to the right, reduced by R = 0xe1 0^120.\<close>

definition gf_x :: "gf128 \<Rightarrow> gf128" where
  "gf_x a = GF (drop_bit 1 (gf_bits a) XOR (if bit (gf_bits a) 0 then push_bit 120 0xe1 else 0))"

lemma gf_x_0 [simp]: "gf_x 0 = 0"
  by (rule gf128_eqI) (simp add: gf_x_def)

lemma gf_x_plus: "gf_x (a + b) = gf_x a + gf_x b"
  by (rule gf128_eqI, rule bit_eqI) (auto simp: gf_x_def bit_simps)

lemma gf_xn_0 [simp]: "(gf_x ^^ n) 0 = 0"
  by (induction n) auto

lemma gf_xn_plus: "(gf_x ^^ n) (a + b) = (gf_x ^^ n) a + (gf_x ^^ n) b"
  by (induction n) (auto simp: gf_x_plus)

lemma gf_x_sum: "gf_x (sum f A) = sum (\<lambda>i. gf_x (f i)) A"
  by (induction A rule: infinite_finite_induct) (auto simp: gf_x_plus)

text \<open>The product of SP 800-38D, algorithm 1: the sum of the x^i b over the bits of a.\<close>

definition gf_term :: "gf128 \<Rightarrow> gf128 \<Rightarrow> nat \<Rightarrow> gf128" where
  "gf_term a b i = (if gf_coeff a i then (gf_x ^^ i) b else 0)"

lemma gf_term_plus1: "gf_term (a + b) c i = gf_term a c i + gf_term b c i"
  by (auto simp: gf_term_def gf_coeff_plus)

lemma gf_term_plus2: "gf_term a (b + c) i = gf_term a b i + gf_term a c i"
  by (auto simp: gf_term_def gf_xn_plus)

lemma gf_term_x: "gf_term a (gf_x b) i = gf_x (gf_term a b i)"
  by (auto simp: gf_term_def funpow_swap1)

definition gf_mult :: "gf128 \<Rightarrow> gf128 \<Rightarrow> gf128" where
  "gf_mult a b = (\<Sum>i<128. gf_term a b i)"

lemma gf_mult_plus1: "gf_mult (a + b) c = gf_mult a c + gf_mult b c"
  by (simp add: gf_mult_def gf_term_plus1 sum.distrib)

lemma gf_mult_plus2: "gf_mult a (b + c) = gf_mult a b + gf_mult a c"
  by (simp add: gf_mult_def gf_term_plus2 sum.distrib)

lemma gf_mult_x: "gf_mult a (gf_x b) = gf_x (gf_mult a b)"
  by (simp add: gf_mult_def gf_term_x gf_x_sum)

lemma gf_mult_0 [simp]: "gf_mult a 0 = 0"
  by (simp add: gf_mult_def gf_term_def cong: if_cong)

lemma gf_mult_term: "gf_mult a (gf_term c b i) = gf_term c (gf_mult a b) i"
proof -
  have "gf_mult a ((gf_x ^^ n) b) = (gf_x ^^ n) (gf_mult a b)" for n
    by (induction n) (auto simp: gf_mult_x)
  then show ?thesis by (simp add: gf_term_def)
qed

lemma gf_mult_sum: "gf_mult a (sum f A) = sum (\<lambda>i. gf_mult a (f i)) A"
  by (induction A rule: infinite_finite_induct) (auto simp: gf_mult_plus2)

text \<open>The action of a product on a product; commutativity and associativity follow.\<close>

lemma gf_mult_left_commute: "gf_mult a (gf_mult c b) = gf_mult c (gf_mult a b)"
proof -
  have "gf_mult a (gf_mult c b) = (\<Sum>i<128. gf_mult a (gf_term c b i))"
    by (simp add: gf_mult_def [of c b] gf_mult_sum)
  also have "\<dots> = gf_mult c (gf_mult a b)"
    by (simp add: gf_mult_term gf_mult_def [of c])
  finally show ?thesis .
qed

definition gf_one :: gf128 where "gf_one = GF (push_bit 127 1)"

lemma gf_xn_one: "n < 128 \<Longrightarrow> (gf_x ^^ n) gf_one = GF (push_bit (127 - n) 1)"
proof (induction n)
  case 0
  then show ?case by (simp add: gf_one_def)
next
  case (Suc n)
  then have "(gf_x ^^ Suc n) gf_one = gf_x (GF (push_bit (127 - n) 1))" by simp
  also have "\<dots> = GF (push_bit (127 - Suc n) 1)"
    using Suc.prems by (intro gf128_eqI bit_eqI) (auto simp: gf_x_def bit_simps)
  finally show ?case .
qed

lemma gf_mult_one_upto:
  "n \<le> 128 \<Longrightarrow> bit (gf_bits (\<Sum>i<n. gf_term a gf_one i)) k \<longleftrightarrow> k < 128 \<and> 127 < k + n \<and> bit (gf_bits a) k"
proof (induction n)
  case 0
  then show ?case by auto
next
  case (Suc n)
  then have t: "gf_term a gf_one n = (if bit (gf_bits a) (127 - n) then GF (push_bit (127 - n) 1) else 0)"
    by (simp add: gf_term_def gf_xn_one gf_coeff_def)
  have "127 < k + Suc n \<longleftrightarrow> 127 < k + n \<or> k = 127 - n" using Suc.prems by auto
  moreover have "\<not> 127 < (127 - n) + n" using Suc.prems by auto
  ultimately show ?case using Suc by (auto simp: t bit_simps)
qed

lemma gf_mult_one: "gf_mult a gf_one = a"
  by (intro gf128_eqI bit_eqI) (auto simp: gf_mult_def gf_mult_one_upto)

lemma gf_mult_commute: "gf_mult a b = gf_mult b a"
  using gf_mult_left_commute [of a b gf_one] by (simp add: gf_mult_one)

lemma gf_mult_assoc: "gf_mult (gf_mult a b) c = gf_mult a (gf_mult b c)"
  by (metis gf_mult_commute gf_mult_left_commute)

instantiation gf128 :: comm_ring_1
begin

definition one_gf128 :: gf128 where "1 = gf_one"
definition times_gf128 :: "gf128 \<Rightarrow> gf128 \<Rightarrow> gf128" where "a * b = gf_mult a b"

instance
proof
  show "(0 :: gf128) \<noteq> 1"
    by (simp add: one_gf128_def gf_one_def zero_gf128_def)
  show "1 * a = (a :: gf128)" for a
    by (simp add: one_gf128_def times_gf128_def gf_mult_commute [of gf_one] gf_mult_one)
  show "a * b * c = a * (b * c)" for a b c :: gf128
    by (simp add: times_gf128_def gf_mult_assoc)
  show "a * b = b * a" for a b :: gf128
    by (simp add: times_gf128_def gf_mult_commute [of a])
  show "(a + b) * c = a * c + b * c" for a b c :: gf128
    by (simp add: times_gf128_def gf_mult_plus1)
qed

end

section \<open>The code computes in the ring\<close>

text \<open>The element a 16-byte buffer holds, and its buffer.\<close>

definition gf_of :: "bytes \<Rightarrow> gf128" where
  "gf_of bs = GF (be_word bs)"

definition gf_bytes :: "gf128 \<Rightarrow> bytes" where
  "gf_bytes a = be_bytes 16 (gf_bits a)"

lemma gf_bytes_gf_of: "length bs = 16 \<Longrightarrow> gf_bytes (gf_of bs) = bs"
  using be_bytes_be_word [of bs, where 'a = 128] by (simp add: gf_bytes_def gf_of_def)

lemma gf_of_gf_bytes [simp]: "gf_of (gf_bytes a) = a"
  by (rule gf128_eqI) (simp add: gf_bytes_def gf_of_def be_word_be_bytes)

lemma length_gf_bytes [simp]: "length (gf_bytes a) = 16"
  by (simp add: gf_bytes_def)

lemma bit_gf_of:
  "length bs = 16 \<Longrightarrow> bit (gf_bits (gf_of bs)) n \<longleftrightarrow> n < 128 \<and> bit (bs ! (15 - n div 8)) (n mod 8)"
  by (auto simp: gf_of_def bit_be_word)

lemma gf_of_zero: "gf_of (replicate 16 0) = 0"
  by (rule gf128_eqI, rule bit_eqI) (simp add: bit_gf_of)

lemma bit_0x80: "bit (0x80 :: u8) m \<longleftrightarrow> m = 7"
proof -
  have e: "(0x80 :: u8) = push_bit 7 1" by (simp add: push_bit_eq_mult)
  show ?thesis unfolding e by (simp only: bit_push_bit_iff bit_1_iff possible_bit_def) auto
qed

lemma bit_gf_one: "bit (gf_bits gf_one) n \<longleftrightarrow> n = 127"
  by (simp only: gf_one_def gf128.sel bit_push_bit_iff bit_1_iff possible_bit_def) auto

lemma gf_of_identity: "gf_of gf128_identity = 1"
proof (rule gf128_eqI, rule bit_eqI)
  fix n
  assume "possible_bit TYPE(128 word) n"
  then have n: "n < 128" by (simp add: possible_bit_def)
  have i: "gf128_identity ! (15 - n div 8) = (if n div 8 = 15 then 0x80 else 0)"
    using n by (auto simp: gf128_identity_def nth_list_update)
  have "bit (gf_bits (gf_of gf128_identity)) n \<longleftrightarrow> bit (gf128_identity ! (15 - n div 8)) (n mod 8)"
    using n by (simp add: bit_gf_of gf128_identity_def)
  also have "\<dots> \<longleftrightarrow> n div 8 = 15 \<and> n mod 8 = 7"
    unfolding i by (simp add: bit_0x80 del: bit_numeral_word_iff)
  also have "\<dots> \<longleftrightarrow> n = 127" using n by presburger
  also have "\<dots> \<longleftrightarrow> bit (gf_bits 1) n"
    by (simp add: one_gf128_def bit_gf_one)
  finally show "bit (gf_bits (gf_of gf128_identity)) n \<longleftrightarrow> bit (gf_bits 1) n" .
qed

lemma gf_of_xor:
  assumes "length xs = 16" "length ys = 16"
  shows "gf_of (xor_bytes xs ys) = gf_of xs + gf_of ys"
  using assms by (intro gf128_eqI bit_eqI) (auto simp: bit_gf_of bit_simps)

lemma gf128_step_loop_spec:
  assumes "length zs = length vs" and "gf128_step_loop m prev vs zs = (vs', zs', lst)"
  shows "length vs' = length vs \<and> length zs' = length vs
    \<and> (\<forall>j < length vs. vs' ! j = (drop_bit 1 (vs ! j) OR push_bit 7 (if j = 0 then prev else vs ! (j - 1)))
         \<and> zs' ! j = (zs ! j XOR (vs ! j AND m)))
    \<and> lst = (if vs = [] then prev else last vs)"
  using assms
proof (induction m prev vs zs arbitrary: vs' zs' lst rule: gf128_step_loop.induct)
  case (1 m prev cur vs z zs)
  obtain vs1 zs1 l1 where r: "gf128_step_loop m cur vs zs = (vs1, zs1, l1)"
    by (cases "gf128_step_loop m cur vs zs") auto
  from "1.prems" r have e: "vs' = (drop_bit 1 cur OR push_bit 7 prev) # vs1"
      "zs' = (z XOR (cur AND m)) # zs1" "lst = l1"
    by auto
  have ih: "length vs1 = length vs \<and> length zs1 = length vs
    \<and> (\<forall>j < length vs. vs1 ! j = (drop_bit 1 (vs ! j) OR push_bit 7 (if j = 0 then cur else vs ! (j - 1)))
         \<and> zs1 ! j = (zs ! j XOR (vs ! j AND m)))
    \<and> l1 = (if vs = [] then cur else last vs)"
    using "1.IH" [OF _ r] "1.prems"(1) by simp
  show ?case
  proof (intro conjI allI impI)
    fix j assume j: "j < length (cur # vs)"
    show "vs' ! j = (drop_bit 1 ((cur # vs) ! j) OR
            push_bit 7 (if j = 0 then prev else (cur # vs) ! (j - 1)))"
    proof (cases j)
      case (Suc k)
      with ih j show ?thesis by (cases k) (simp_all add: e)
    qed (simp add: e)
    show "zs' ! j = ((z # zs) ! j XOR ((cur # vs) ! j AND m))"
      using ih j by (cases j) (simp_all add: e)
  qed (simp_all add: e ih)
qed auto

lemma gf128_mul_step_spec:
  assumes "length v = 16" "length z = 16" "gf128_mul_step a v z i = (v', z')"
    and "length a = 16" "i < 128"
  shows "length v' = 16" "length z' = 16"
    and "gf_of v' = gf_x (gf_of v)"
    and "gf_of z' = gf_of z + (if gf_coeff (gf_of a) i then gf_of v else 0)"
proof -
  define m :: u8 where "m = - (drop_bit (7 - i mod 8) (a ! (i div 8 mod 16)) AND 1)"
  obtain vs zs lst where r: "gf128_step_loop m 0 v z = (vs, zs, lst)"
    by (cases "gf128_step_loop m 0 v z") auto
  have lv: "length vs = 16" and lz: "length zs = 16"
    and vj: "\<And>j. j < 16 \<Longrightarrow> vs ! j = (drop_bit 1 (v ! j) OR push_bit 7 (if j = 0 then 0 else v ! (j - 1)))"
    and zj: "\<And>j. j < 16 \<Longrightarrow> zs ! j = (z ! j XOR (v ! j AND m))"
    and lst: "lst = v ! 15"
    using gf128_step_loop_spec [OF _ r] assms(1,2) by (auto simp: last_conv_nth)
  have e: "v' = (if lst AND 1 \<noteq> 0 then vs[0 := vs ! 0 XOR 0xe1] else vs)" "z' = zs"
    using assms(3) r by (auto simp: gf128_mul_step_def m_def)
  show "length v' = 16" and "length z' = 16" by (simp_all add: e lv lz)
  have coeff: "gf_coeff (gf_of a) i \<longleftrightarrow> bit (a ! (i div 8)) (7 - i mod 8)"
  proof -
    define q r where "q = i div 8" and "r = i mod 8"
    have "i = 8 * q + r" "r < 8" "q < 16" using assms(5) by (auto simp: q_def r_def)
    moreover define t where "t = 7 - r"
    ultimately have t: "t < 8" "7 - r = t" and "127 - i = 8 * (15 - q) + t" by simp_all
    then have "(127 - i) div 8 = 15 - q" "(127 - i) mod 8 = t" by simp_all
    then have "(127 - i) div 8 = 15 - i div 8" "(127 - i) mod 8 = 7 - i mod 8"
      by (simp_all add: q_def t(2) [unfolded r_def])
    then show ?thesis using assms(4,5) by (auto simp: gf_coeff_def bit_gf_of)
  qed
  have m: "bit m k \<longleftrightarrow> k < 8 \<and> gf_coeff (gf_of a) i" for k
  proof -
    have "m = (if bit (a ! (i div 8)) (7 - i mod 8) then -1 else 0)"
      using assms(5) by (simp add: m_def and_one_eq bit_iff_odd_drop_bit odd_iff_mod_2_eq_one)
    then show ?thesis by (auto simp: coeff)
  qed
  show "gf_of z' = gf_of z + (if gf_coeff (gf_of a) i then gf_of v else 0)"
  proof (rule gf128_eqI, rule bit_eqI)
    fix n
    assume "possible_bit TYPE(128 word) n"
    then have n: "n < 128" by (simp add: possible_bit_def)
    have "bit (gf_bits (gf_of z')) n \<longleftrightarrow> bit (zs ! (15 - n div 8)) (n mod 8)"
      using n by (simp add: e bit_gf_of lz)
    also have "\<dots> \<longleftrightarrow> bit (z ! (15 - n div 8)) (n mod 8)
        \<noteq> (bit (v ! (15 - n div 8)) (n mod 8) \<and> gf_coeff (gf_of a) i)"
      by (simp only: zj [OF diff_le_self [THEN le_less_trans, of 15 16]] bit_xor_iff bit_and_iff m) auto
    also have "\<dots> \<longleftrightarrow> bit (gf_bits (gf_of z + (if gf_coeff (gf_of a) i then gf_of v else 0))) n"
      using n by (simp add: bit_gf_of assms bit_xor_iff)
    finally show "bit (gf_bits (gf_of z')) n \<longleftrightarrow>
      bit (gf_bits (gf_of z + (if gf_coeff (gf_of a) i then gf_of v else 0))) n" .
  qed
  have odd: "lst AND 1 \<noteq> 0 \<longleftrightarrow> bit (v ! 15) 0"
    by (simp add: lst and_one_eq bit_0 odd_iff_mod_2_eq_one)
  show "gf_of v' = gf_x (gf_of v)"
  proof (rule gf128_eqI, rule bit_eqI)
    fix n
    assume "possible_bit TYPE(128 word) n"
    then have n: "n < 128" by (simp add: possible_bit_def)
    define j k where "j = 15 - n div 8" and "k = n mod 8"
    have j: "j < 16" and k: "k < 8" and njk: "n = 8 * (15 - j) + k"
      using n by (auto simp: j_def k_def)
    have r120: "bit (push_bit 120 0xe1 :: 128 word) n \<longleftrightarrow> j = 0 \<and> bit (0xe1 :: u8) k"
    proof -
      have "(push_bit 120 0xe1 :: 128 word) = push_bit 120 (ucast (0xe1 :: u8))" by simp
      then have "bit (push_bit 120 0xe1 :: 128 word) n \<longleftrightarrow> 120 \<le> n \<and> bit (0xe1 :: u8) (n - 120)"
        using n by (simp only: bit_push_bit_iff bit_ucast_iff possible_bit_def)
          (auto simp del: bit_numeral_word_iff)
      also have "\<dots> \<longleftrightarrow> j = 0 \<and> bit (0xe1 :: u8) k"
        using j k by (cases "j = 0") (auto simp: njk simp del: bit_numeral_word_iff)
      finally show ?thesis .
    qed
    have "bit (gf_bits (gf_of v')) n \<longleftrightarrow> bit (v' ! j) k"
      using n \<open>length v' = 16\<close> by (simp add: bit_gf_of j_def k_def)
    also have "\<dots> \<longleftrightarrow> bit (vs ! j) k \<noteq> (j = 0 \<and> bit (v ! 15) 0 \<and> bit (0xe1 :: u8) k)"
      using j lv by (auto simp: e odd nth_list_update bit_xor_iff)
    also have "bit (vs ! j) k \<longleftrightarrow> (if k < 7 then bit (v ! j) (k + 1) else j \<noteq> 0 \<and> bit (v ! (j - 1)) 0)"
      using j k u8_bit_bound [of "v ! j" "k + 1"] by (auto simp: vj bit_or_iff bit_drop_bit_eq bit_push_bit_iff)
    also have "\<dots> \<longleftrightarrow> bit (drop_bit 1 (gf_bits (gf_of v))) n"
    proof (cases "k < 7")
      case True
      then have "(n + 1) div 8 = 15 - j" "(n + 1) mod 8 = k + 1" using j by (simp_all add: njk)
      moreover have "n + 1 < 128" using True j by (simp add: njk)
      ultimately show ?thesis using True j assms(1) by (auto simp: bit_drop_bit_eq bit_gf_of)
    next
      case False
      then have d: "n + 1 = 8 * (16 - j)" using j k njk by simp
      then have "(n + 1) div 8 = 16 - j" "(n + 1) mod 8 = 0" by simp_all
      moreover have "n + 1 < 128 \<longleftrightarrow> j \<noteq> 0" using d j by auto
      moreover have "j \<noteq> 0 \<Longrightarrow> 15 - (16 - j) = j - 1" using j by simp
      ultimately show ?thesis using False j assms(1) by (auto simp: bit_drop_bit_eq bit_gf_of)
    qed
    finally show "bit (gf_bits (gf_of v')) n \<longleftrightarrow> bit (gf_bits (gf_x (gf_of v))) n"
      using r120 n assms(1) by (auto simp: gf_x_def bit_xor_iff bit_gf_of)
  qed
qed

text \<open>The 128 steps: the workspace \<open>v\<close> holds x^n b, \<open>z\<close> the first n terms of the product.\<close>

lemma gf128_mul_steps_spec:
  assumes "length a = 16" "length b = 16" "n \<le> 128"
    and "fold (\<lambda>i (v, z). gf128_mul_step a v z i) [0..<n] (b, replicate 16 0) = (v', z')"
  shows "length v' = 16 \<and> length z' = 16 \<and> gf_of v' = (gf_x ^^ n) (gf_of b)
    \<and> gf_of z' = (\<Sum>i<n. gf_term (gf_of a) (gf_of b) i)"
  using assms(3,4)
proof (induction n arbitrary: v' z')
  case 0
  then show ?case using assms(2) by (auto simp: gf_of_zero)
next
  case (Suc n)
  obtain v z where vz: "fold (\<lambda>i (v, z). gf128_mul_step a v z i) [0..<n] (b, replicate 16 0) = (v, z)"
    by (cases "fold (\<lambda>i (v, z). gf128_mul_step a v z i) [0..<n] (b, replicate 16 0)") auto
  with Suc.prems have s: "gf128_mul_step a v z n = (v', z')" by simp
  from Suc.IH [OF _ vz] Suc.prems(1) have ih: "length v = 16" "length z = 16"
      "gf_of v = (gf_x ^^ n) (gf_of b)" "gf_of z = (\<Sum>i<n. gf_term (gf_of a) (gf_of b) i)"
    by auto
  note step = gf128_mul_step_spec [OF ih(1,2) s assms(1)]
  show ?case using step ih Suc.prems(1) by (auto simp: gf_term_def)
qed

lemma gf128_mul_spec:
  assumes "length a = 16" "length b = 16"
  shows "length (gf128_mul a b) = 16" and "gf_of (gf128_mul a b) = gf_of a * gf_of b"
proof -
  obtain v' z' where r: "fold (\<lambda>i (v, z). gf128_mul_step a v z i) [0..<128] (b, replicate 16 0) = (v', z')"
    by (cases "fold (\<lambda>i (v, z). gf128_mul_step a v z i) [0..<128] (b, replicate 16 0)") auto
  have e: "gf128_mul a b = z'" unfolding gf128_mul_def r by simp
  show "length (gf128_mul a b) = 16" and "gf_of (gf128_mul a b) = gf_of a * gf_of b"
    using gf128_mul_steps_spec [OF assms _ r] by (simp_all add: e times_gf128_def gf_mult_def)
qed

lemma length_gf128_identity [simp]: "length gf128_identity = 16"
  by (simp add: gf128_identity_def)

text \<open>Square and multiply: the invariant is \<open>result * base ^ pw\<close>.\<close>

lemma unat_drop_bit1: "unat (drop_bit (Suc 0) (x :: u32)) = unat x div 2"
  by (simp add: drop_bit_Suc unat_div_distrib)

lemma and1_odd: "(x :: u32) AND 1 \<noteq> 0 \<longleftrightarrow> odd (unat x)"
proof -
  have "odd (unat x) \<longleftrightarrow> bit x 0" by (simp only: bit_0 [symmetric] bit_unsigned_iff) simp
  then show ?thesis by (simp add: and_one_eq bit_0 odd_iff_mod_2_eq_one)
qed

lemma gf128_h_power_loop_spec:
  assumes "unat pw < 2 ^ n" "length base = 16" "length result = 16"
  shows "length (gf128_h_power_loop n pw base result) = 16
    \<and> gf_of (gf128_h_power_loop n pw base result) = gf_of result * gf_of base ^ unat pw"
  using assms
proof (induction n arbitrary: pw base result)
  case 0
  then have "pw = 0" by (simp add: unat_eq_0)
  then show ?case using "0.prems" by simp
next
  case (Suc n)
  show ?case
  proof (cases "0 < pw")
    case False
    then have "pw = 0" by (simp add: word_gt_0)
    then show ?thesis using Suc.prems by simp
  next
    case True
    let ?r = "if pw AND 1 \<noteq> 0 then gf128_mul result base else result"
    let ?b = "gf128_mul base base"
    have r: "length ?r = 16"
        "gf_of ?r = gf_of result * (if odd (unat pw) then gf_of base else 1)"
      and b: "length ?b = 16" "gf_of ?b = gf_of base * gf_of base"
      using Suc.prems by (auto simp: gf128_mul_spec and1_odd)
    have "unat (drop_bit 1 pw) < 2 ^ n"
      using Suc.prems(1) by (simp add: unat_drop_bit1 less_mult_imp_div_less mult.commute)
    from Suc.IH [OF this b(1) r(1)] have ih:
      "length (gf128_h_power_loop n (drop_bit 1 pw) ?b ?r) = 16"
      "gf_of (gf128_h_power_loop n (drop_bit 1 pw) ?b ?r) = gf_of ?r * gf_of ?b ^ (unat pw div 2)"
      by (simp_all add: unat_drop_bit1)
    have "gf_of base ^ unat pw
        = (if odd (unat pw) then gf_of base else 1) * (gf_of base * gf_of base) ^ (unat pw div 2)"
      by (simp add: power_mult [symmetric] power2_eq_square [symmetric] flip: power_Suc)
    with ih True show ?thesis by (simp add: Let_def r b mult.assoc)
  qed
qed

text \<open>The table variant multiplies the table entries of the set bits of the power.\<close>

definition gf_table_ok :: "bytes \<Rightarrow> bytes list \<Rightarrow> bool" where
  "gf_table_ok h hp \<longleftrightarrow> length hp = 11
     \<and> (\<forall>i < 11. length (hp ! i) = 16 \<and> gf_of (hp ! i) = gf_of h ^ (2 ^ i))"

lemma and_push_bit_1: "(x :: u32) AND push_bit i 1 \<noteq> 0 \<longleftrightarrow> bit x i"
  by (simp add: push_bit_eq_mult and_exp_eq_0_iff_not_bit)

lemma gf128_table_loop_spec:
  assumes "gf_table_ok h hp" "n \<le> 11"
    and "r = fold (\<lambda>i result. if 0 < pw \<and> pw AND push_bit i 1 \<noteq> 0
                      then gf128_mul result (hp ! i) else result) [0..<n] gf128_identity"
  shows "length r = 16 \<and> gf_of r = gf_of h ^ unat (take_bit n pw)"
  using assms(2,3)
proof (induction n arbitrary: r)
  case 0
  then show ?case by (simp add: gf_of_identity)
next
  case (Suc n)
  let ?r = "fold (\<lambda>i result. if 0 < pw \<and> pw AND push_bit i 1 \<noteq> 0
                      then gf128_mul result (hp ! i) else result) [0..<n] gf128_identity"
  have ih: "length ?r = 16" "gf_of ?r = gf_of h ^ unat (take_bit n pw)"
    using Suc.IH [of ?r] Suc.prems(1) by auto
  have h: "length (hp ! n) = 16" "gf_of (hp ! n) = gf_of h ^ (2 ^ n)"
    using assms(1) Suc.prems(1) by (auto simp: gf_table_ok_def)
  have t: "unat (take_bit (Suc n) pw) = unat (take_bit n pw) + (if bit pw n then 2 ^ n else 0)"
    by (simp add: unsigned_take_bit_eq take_bit_Suc_from_most bit_unsigned_iff)
  have "bit pw n \<Longrightarrow> 0 < pw" by (auto simp: word_gt_0)
  then have "r = (if bit pw n then gf128_mul ?r (hp ! n) else ?r)"
    using Suc.prems(2) by (auto simp: and_exp_eq_0_iff_not_bit)
  then show ?case using ih h by (simp add: t gf128_mul_spec power_add)
qed

lemma gf128_mul_ws_result: "fst (gf128_mul_ws a b v z) = gf128_mul a b"
  by (simp add: gf128_mul_ws_def gf128_mul_def case_prod_beta Let_def)

lemma gf128_h_power_ws_loop_eq:
  "gf128_h_power_ws_loop n pw result b t v z = gf128_h_power_loop n pw b result"
proof (induction n arbitrary: pw result b t v z)
  case (Suc n)
  show ?case
    by (cases "pw AND 1 = 0") (simp_all add: Let_def Suc case_prod_beta gf128_mul_ws_result)
qed simp

lemma gf128_h_power_table_ws_loop_eq:
  "fst (fold (\<lambda>i (result, v, z). if P i then gf128_mul_ws result (hp ! i) v z else (result, v, z)) is s)
   = fold (\<lambda>i result. if P i then gf128_mul result (hp ! i) else result) is (fst s)"
  by (induction "is" arbitrary: s) (auto simp: gf128_mul_ws_result)

text \<open>Two 64-bit lanes, high and low, as one element.\<close>

definition gf_of_lanes :: "u64 \<Rightarrow> u64 \<Rightarrow> gf128" where
  "gf_of_lanes lo hi = GF (push_bit 64 (ucast hi) OR ucast lo)"

lemma bit_gf_of_lanes:
  "bit (gf_bits (gf_of_lanes lo hi)) n \<longleftrightarrow> n < 128 \<and> (if n < 64 then bit lo n else bit hi (n - 64))"
  using bit_imp_le_length [of lo n] bit_imp_le_length [of hi "n - 64"]
  by (auto simp: gf_of_lanes_def bit_simps)

lemma gf_of_two_lanes: "gf_of (be_bytes 8 hi @ be_bytes 8 lo) = gf_of_lanes lo hi"
proof (rule gf128_eqI, rule bit_eqI)
  fix n
  assume "possible_bit TYPE(128 word) n"
  then have n: "n < 128" by (simp add: possible_bit_def)
  define q k where "q = n div 8" and "k = n mod 8"
  have qk: "n = 8 * q + k" "k < 8" "q < 16" using n by (auto simp: q_def k_def)
  have b: "bit (be_bytes 8 w ! i) k \<longleftrightarrow> bit w (8 * (7 - i) + k)" if "i < 8" for i and w :: u64
    using that qk(2) by (simp add: be_bytes_def bit_ucast_iff bit_drop_bit_eq)
  have "bit (gf_bits (gf_of (be_bytes 8 hi @ be_bytes 8 lo))) n
      \<longleftrightarrow> bit ((be_bytes 8 hi @ be_bytes 8 lo) ! (15 - q)) k"
    using n by (simp add: bit_gf_of q_def k_def)
  also have "\<dots> \<longleftrightarrow> (if q < 8 then bit lo n else bit hi (n - 64))"
    using qk by (auto simp: nth_append b algebra_simps)
  finally show "bit (gf_bits (gf_of (be_bytes 8 hi @ be_bytes 8 lo))) n
      \<longleftrightarrow> bit (gf_bits (gf_of_lanes lo hi)) n"
    using n qk by (auto simp: bit_gf_of_lanes)
qed

lemma bit_0xC2: "bit (0xC200000000000000 :: u64) n \<longleftrightarrow> n = 63 \<or> n = 62 \<or> n = 57"
proof -
  have e: "(0xC200000000000000 :: u64) = push_bit 63 1 OR push_bit 62 1 OR push_bit 57 1" by simp
  show ?thesis unfolding e by (simp only: bit_or_iff bit_push_bit_iff bit_1_iff possible_bit_def) auto
qed

lemma bit_R: "bit (push_bit 120 0xe1 :: 128 word) n \<longleftrightarrow> n = 127 \<or> n = 126 \<or> n = 125 \<or> n = 120"
proof -
  have e: "(push_bit 120 0xe1 :: 128 word)
      = push_bit 127 1 OR push_bit 126 1 OR push_bit 125 1 OR push_bit 120 1" by simp
  show ?thesis unfolding e by (simp only: bit_or_iff bit_push_bit_iff bit_1_iff possible_bit_def) auto
qed

lemma bit_gf_x:
  "bit (gf_bits (gf_x a)) n \<longleftrightarrow> bit (gf_bits a) (Suc n)
     \<noteq> (bit (gf_bits a) 0 \<and> bit (push_bit 120 0xe1 :: 128 word) n)"
  by (cases "bit (gf_bits a) 0")
    (simp_all only: gf_x_def gf128.sel bit_xor_iff if_True if_False bit_drop_bit_eq o_apply
      plus_1_eq_Suc bit_0_eq bot_apply bot_bool_def simp_thms)

text \<open>Halving is multiplication by x: the doubling shifted the other way.\<close>

lemma gf_of_halve: "gf_of (gf128_halve_to_h lo hi) = gf_x (gf_of_lanes lo hi)"
proof -
  define hi1 lo1 where "hi1 = (if bit lo 0 then hi XOR 0xC200000000000000 else hi)"
    and "lo1 = (if bit lo 0 then lo XOR 1 else lo)"
  define hi2 lo2 where "hi2 = (drop_bit 1 hi1 OR push_bit 63 (lo AND 1))"
    and "lo2 = (drop_bit 1 lo1 OR push_bit 63 hi1)"
  have red: "lo AND 1 \<noteq> 0 \<longleftrightarrow> bit lo 0"
    by (simp add: and_one_eq bit_0 odd_iff_mod_2_eq_one)
  have e: "gf128_halve_to_h lo hi = be_bytes 8 hi2 @ be_bytes 8 lo2"
    by (simp only: gf128_halve_to_h_def be_bytes_def Let_def red hi1_def lo1_def hi2_def lo2_def)
      (simp add: diff_mult_distrib2)
  have h1: "bit hi1 n \<longleftrightarrow> bit hi n \<noteq> (bit lo 0 \<and> (n = 63 \<or> n = 62 \<or> n = 57))" for n
    by (auto simp: hi1_def bit_xor_iff bit_0xC2 simp del: bit_numeral_word_iff)
  have l1: "bit lo1 (Suc n) \<longleftrightarrow> bit lo (Suc n)" for n
    by (auto simp: lo1_def bit_xor_iff bit_1_iff)
  have h2: "bit hi2 n \<longleftrightarrow> n < 64 \<and> (if n = 63 then bit lo 0 else bit hi1 (Suc n))" for n
    using bit_imp_le_length [of hi1 "Suc n"]
    by (auto simp: hi2_def bit_or_iff bit_drop_bit_eq bit_push_bit_iff bit_and_iff bit_1_iff)
  have l2: "bit lo2 n \<longleftrightarrow> n < 64 \<and> (if n = 63 then bit hi1 0 else bit lo (Suc n))" for n
    using bit_imp_le_length [of lo "Suc n"]
    by (auto simp: lo2_def bit_or_iff bit_drop_bit_eq bit_push_bit_iff l1)
  show ?thesis
    unfolding e gf_of_two_lanes
  proof (rule gf128_eqI, rule bit_eqI)
    fix n
    assume "possible_bit TYPE(128 word) n"
    then have n: "n < 128" by (simp add: possible_bit_def)
    have "bit (gf_bits (gf_x (gf_of_lanes lo hi))) n \<longleftrightarrow>
        (Suc n < 128 \<and> (if Suc n < 64 then bit lo (Suc n) else bit hi (Suc n - 64)))
        \<noteq> (bit lo 0 \<and> (n = 127 \<or> n = 126 \<or> n = 125 \<or> n = 120))"
      unfolding bit_gf_x bit_R bit_gf_of_lanes by simp
    also have "\<dots> \<longleftrightarrow> bit (gf_bits (gf_of_lanes lo2 hi2)) n"
    proof (cases "n < 64")
      case True
      then show ?thesis by (cases "n = 63") (simp_all add: bit_gf_of_lanes l2 h1)
    next
      case False
      then obtain m where m: "n = m + 64" "m < 64" using n by (metis add_less_cancel_right
          le_add_diff_inverse2 linorder_not_less numeral_Bit0)
      then show ?thesis
        by (cases "m = 63"; cases "m = 62"; cases "m = 61"; cases "m = 56")
          (simp_all add: bit_gf_of_lanes h2 h1)
    qed
    finally show "bit (gf_bits (gf_of_lanes lo2 hi2)) n \<longleftrightarrow> bit (gf_bits (gf_x (gf_of_lanes lo hi))) n" ..
  qed
qed

text \<open>
  The doubled value Go's \<open>gcmAesInit\<close> and OpenSSL's AVX-512 path store, as the comment of
  \<open>gf128_halve_to_h\<close> gives it: (low lane, high lane) of
  \<open>(bswap128(H) << 1) ^ (MSB ? POLY : 0)\<close>.
\<close>

definition gf_double_lanes :: "bytes \<Rightarrow> u64 \<times> u64" where
  "gf_double_lanes h =
     (let w = be_word h :: 128 word;
          v = push_bit 1 w XOR (if bit w 127 then push_bit 120 0xC2 OR 1 else 0)
      in (ucast v, ucast (drop_bit 64 v)))"

lemma gf_of_lanes_split: "gf_of_lanes (ucast v) (ucast (drop_bit 64 v)) = GF v"
proof (rule gf128_eqI, rule bit_eqI)
  fix n
  assume "possible_bit TYPE(128 word) n"
  then have n: "n < 128" by (simp add: possible_bit_def)
  show "bit (gf_bits (gf_of_lanes (ucast v) (ucast (drop_bit 64 v)))) n \<longleftrightarrow> bit (gf_bits (GF v)) n"
    using n by (auto simp: bit_gf_of_lanes bit_ucast_iff bit_drop_bit_eq)
qed

lemma bit_poly: "bit (push_bit 120 0xC2 OR 1 :: 128 word) n
    \<longleftrightarrow> n = 127 \<or> n = 126 \<or> n = 121 \<or> n = 0"
proof -
  have e: "(push_bit 120 0xC2 OR 1 :: 128 word)
      = push_bit 127 1 OR push_bit 126 1 OR push_bit 121 1 OR push_bit 0 1" by simp
  show ?thesis unfolding e by (simp only: bit_or_iff bit_push_bit_iff bit_1_iff possible_bit_def) auto
qed

lemma gf_x_double:
  "gf_x (GF (push_bit 1 w XOR (if bit w 127 then push_bit 120 0xC2 OR 1 else 0))) = GF w"
proof (rule gf128_eqI, rule bit_eqI)
  fix n
  assume "possible_bit TYPE(128 word) n"
  then have n: "n < 128" by (simp add: possible_bit_def)
  let ?v = "push_bit 1 w XOR (if bit w 127 then push_bit 120 0xC2 OR 1 else 0)"
  have v: "bit ?v k \<longleftrightarrow> (0 < k \<and> k < 128 \<and> bit w (k - 1))
      \<noteq> (bit w 127 \<and> (k = 127 \<or> k = 126 \<or> k = 121 \<or> k = 0))" for k
    using bit_poly [of k] by (cases "bit w 127")
      (simp_all only: bit_xor_iff if_True if_False bit_push_bit_iff possible_bit_def bit_0_eq
        bot_apply bot_bool_def simp_thms, auto)
  show "bit (gf_bits (gf_x (GF ?v))) n \<longleftrightarrow> bit (gf_bits (GF w)) n"
    unfolding bit_gf_x gf128.sel bit_R v using n by (cases "n = 127") auto
qed

section \<open>Properties\<close>

text \<open>
  C14: \<open>gf128_mul\<close> is multiplication in GF(2^128): on two 16-byte buffers it returns the buffer
  of the product of the elements they hold, in the commutative ring of NIST SP 800-38D.
\<close>

theorem gf128_mul_correct:
  assumes "length a = 16" and "length b = 16"
  shows "gf128_mul a b = gf_bytes (gf_of a * gf_of b)"
  using gf128_mul_spec [OF assms] gf_bytes_gf_of by metis

theorem gf128_mul_correct_witness:
  "gf128_mul gf128_identity (replicate 16 0x53) = replicate 16 0x53"
  using gf128_mul_correct [of gf128_identity "replicate 16 0x53"]
  by (simp add: gf_of_identity gf_bytes_gf_of)

text \<open>
  \<open>gf128_h_power\<close> returns H^power for every power below 2^11, by square and multiply; the
  11 rounds of its loop are enough for the 1153 blocks of the longest TLS record.
\<close>

theorem gf128_h_power_correct:
  assumes "length h = 16" and "unat pw < 2048"
  shows "gf128_h_power h pw = gf_bytes (gf_of h ^ unat pw)"
proof -
  have "length (gf128_h_power h pw) = 16" "gf_of (gf128_h_power h pw) = gf_of h ^ unat pw"
    using gf128_h_power_loop_spec [of pw 11 h gf128_identity] assms
    by (simp_all add: gf128_h_power_def gf_of_identity)
  then show ?thesis using gf_bytes_gf_of by metis
qed

theorem gf128_h_power_correct_witness:
  "gf128_h_power gf128_identity 1153 = gf128_identity"
  using gf128_h_power_correct [of gf128_identity 1153]
  by (simp add: gf_of_identity gf_bytes_gf_of [of gf128_identity, unfolded gf_of_identity])

text \<open>
  with a table that holds H^(2^i) for i = 0..10, \<open>gf128_h_power_table\<close> returns the same
  power as \<open>gf128_h_power\<close>.
\<close>

theorem gf128_h_power_table_correct:
  assumes "length h = 16" and "gf_table_ok h h_powers" and "unat pw < 2048"
  shows "gf128_h_power_table h_powers pw = gf128_h_power h pw"
proof -
  have "unat (take_bit 11 pw) = unat pw"
    using assms(3) by (simp add: unsigned_take_bit_eq take_bit_nat_eq_self)
  then have "length (gf128_h_power_table h_powers pw) = 16"
      "gf_of (gf128_h_power_table h_powers pw) = gf_of h ^ unat pw"
    using gf128_table_loop_spec [OF assms(2) _ refl, of 11 pw]
    by (simp_all add: gf128_h_power_table_def)
  moreover have "length (gf128_h_power h pw) = 16" "gf_of (gf128_h_power h pw) = gf_of h ^ unat pw"
    using gf128_h_power_loop_spec [of pw 11 h gf128_identity] assms
    by (simp_all add: gf128_h_power_def gf_of_identity)
  ultimately show ?thesis using gf_bytes_gf_of by metis
qed

theorem gf128_h_power_table_correct_witness:
  "gf128_h_power_table (replicate 11 gf128_identity) 5 = gf128_h_power gf128_identity 5"
  by (rule gf128_h_power_table_correct) (auto simp: gf_table_ok_def gf_of_identity)

text \<open>
  the workspace variants compute what the stack variants compute, whatever their buffers
  held before.
\<close>

theorem gf128_ws_variants:
  "fst (gf128_mul_ws a b v z) = gf128_mul a b
   \<and> gf128_h_power_ws h pw t1 t2 v z = gf128_h_power h pw
   \<and> gf128_h_power_table_ws hp pw v z = gf128_h_power_table hp pw"
  by (simp add: gf128_mul_ws_result gf128_h_power_ws_def gf128_h_power_ws_loop_eq
      gf128_h_power_def gf128_h_power_table_ws_def gf128_h_power_table_def
      gf128_h_power_table_ws_loop_eq)

lemma gf128_halve_double:
  assumes "length h = 16" and "gf_double_lanes h = (lo, hi)"
  shows "gf128_halve_to_h lo hi = h"
proof -
  let ?w = "be_word h :: 128 word"
  let ?v = "push_bit 1 ?w XOR (if bit ?w 127 then push_bit 120 0xC2 OR 1 else 0)"
  have "lo = ucast ?v" "hi = ucast (drop_bit 64 ?v)"
    using assms(2) unfolding gf_double_lanes_def Let_def prod.inject by (metis, metis)
  then have "gf_of (gf128_halve_to_h lo hi) = gf_of h"
    by (simp only: gf_of_halve gf_of_lanes_split gf_x_double) (simp only: gf_of_def)
  moreover have "length (gf128_halve_to_h lo hi) = 16"
    by (simp add: gf128_halve_to_h_def Let_def)
  ultimately show ?thesis using assms(1) gf_bytes_gf_of by metis
qed

text \<open>
  \<open>gf128_halve_to_h\<close> recovers H from the doubled value the TLS libraries keep: applied to
  the lanes of the doubling of any H it returns H.
\<close>

theorem gf128_halve_roundtrip:
  assumes "length h = 16" and "gf_double_lanes h = (lo, hi)"
  shows "gf128_halve_to_h lo hi = h"
  using gf128_halve_double [OF assms] .

theorem gf128_halve_roundtrip_witness:
  "gf128_halve_to_h 0x0101010101010101 0xC301010101010101 = 0x80 # replicate 14 0x80 @ [0x80]"
  by (rule gf128_halve_roundtrip) code_simp+

end
