(* ===== verification/Text_Match.thy ===== *)
theory Text_Match
  imports Prelude
begin

text \<open>
  The text matching of \<open>helpers.h\<close>: the \<open>Host:\<close> header, host comparison in 8-byte chunks, the
  clamp of a secret's length, and the two placeholder prefixes (\<open>kl::\<close> in plaintext and its
  HPACK Huffman code).
\<close>

definition MAX_DATA_SIZE :: nat where "MAX_DATA_SIZE = 256"
definition MAX_HOST_LEN :: nat where "MAX_HOST_LEN = 64"
definition SECRET_MAX_LEN :: nat where "SECRET_MAX_LEN = 128"
definition SECRET_KEY_LEN :: nat where "SECRET_KEY_LEN = 8"

section \<open>The Host header\<close>

text \<open>The bytes of ''Host: ''.\<close>

definition host_marker :: bytes where
  "host_marker = [0x48, 0x6F, 0x73, 0x74, 0x3A, 0x20]"

text \<open>
  The counters and offsets of the two loops stay below 512, far from the wrap-around of
  \<open>__u32\<close>, so they are natural numbers. First loop, from offset \<open>i\<close> with \<open>n\<close> rounds left:
  \<open>host_start\<close>, 0 when there is none.
\<close>

fun find_host_start :: "nat \<Rightarrow> nat \<Rightarrow> bytes \<Rightarrow> nat \<Rightarrow> nat" where
  "find_host_start 0 i data data_len = 0"
| "find_host_start (Suc n) i data data_len =
     (if i + 6 > data_len then 0
      else if data ! i = 0x48 \<and> data ! (i + 1) = 0x6F \<and> data ! (i + 2) = 0x73
            \<and> data ! (i + 3) = 0x74 \<and> data ! (i + 4) = 0x3A \<and> data ! (i + 5) = 0x20
           then i + 6
      else find_host_start n (i + 1) data data_len)"

text \<open>Second loop, at index \<open>j\<close>: the number of bytes copied and the new \<open>host_out\<close>.\<close>

fun copy_host :: "nat \<Rightarrow> nat \<Rightarrow> bytes \<Rightarrow> nat \<Rightarrow> nat \<Rightarrow> nat \<Rightarrow> bytes \<Rightarrow> nat \<times> bytes" where
  "copy_host 0 j data data_len host_start host_max_len host_out = (j, host_out)"
| "copy_host (Suc n) j data data_len host_start host_max_len host_out =
     (if j \<ge> host_max_len then (j, host_out)
      else let idx = host_start + j in
        if idx \<ge> data_len then (j, host_out)
        else let c = data ! idx in
          if c = 0x0D \<or> c = 0x0A \<or> c = 0x3A then (j, host_out)
          else copy_host n (j + 1) data data_len host_start host_max_len (host_out[j := c]))"

definition parse_http_host :: "bytes \<Rightarrow> u32 \<Rightarrow> bytes \<Rightarrow> u32 \<Rightarrow> nat \<times> bytes" where
  "parse_http_host data data_len0 host_out host_max_len =
     (let data_len = (if unat data_len0 > MAX_DATA_SIZE then MAX_DATA_SIZE else unat data_len0);
          host_start = find_host_start MAX_DATA_SIZE 0 data data_len
      in if host_start = 0 then (0, host_out)
         else copy_host MAX_HOST_LEN 0 data data_len host_start (unat host_max_len) host_out)"

section \<open>Hosts, lengths and prefixes\<close>

text \<open>\<open>__builtin_memcpy(&va, a + i, 8)\<close> on a little-endian machine.\<close>

definition load_u64 :: "bytes \<Rightarrow> nat \<Rightarrow> u64" where
  "load_u64 b i = be_word (rev (take 8 (drop i b)))"

fun hosts_match_loop :: "nat \<Rightarrow> nat \<Rightarrow> bytes \<Rightarrow> bytes \<Rightarrow> bool" where
  "hosts_match_loop 0 i a b = True"
| "hosts_match_loop (Suc n) i a b =
     (if load_u64 a i \<noteq> load_u64 b i then False else hosts_match_loop n (i + 8) a b)"

definition hosts_match :: "bytes \<Rightarrow> bytes \<Rightarrow> bool" where
  "hosts_match a b = hosts_match_loop (MAX_HOST_LEN div 8) 0 a b"

definition clamp_write_len :: "u32 \<Rightarrow> u32" where
  "clamp_write_len val_len = ((val_len - 1) AND (of_nat SECRET_MAX_LEN - 1)) + 1"

text \<open>\<open>kl::\<close> at offset \<open>i\<close> of a buffer, in plaintext and in HPACK Huffman code.\<close>

definition is_kloak_prefix :: "bytes \<Rightarrow> bool" where
  "is_kloak_prefix buf \<longleftrightarrow> buf ! 0 = 0x6B \<and> buf ! 1 = 0x6C \<and> buf ! 2 = 0x3A \<and> buf ! 3 = 0x3A"

definition is_kloak_prefix_huffman :: "bytes \<Rightarrow> bool" where
  "is_kloak_prefix_huffman buf \<longleftrightarrow> buf ! 0 = 0xEB \<and> buf ! 1 = 0x45 \<and> buf ! 2 = 0xCB"

section \<open>Lemmas\<close>

lemma load_u64_eq_iff:
  assumes "i + 8 \<le> length a" "i + 8 \<le> length b"
  shows "load_u64 a i = load_u64 b i \<longleftrightarrow> take 8 (drop i a) = take 8 (drop i b)"
proof
  assume e: "load_u64 a i = load_u64 b i"
  have "be_bytes 8 (load_u64 c i) = rev (take 8 (drop i c))" if "i + 8 \<le> length c" for c
  proof -
    have "length (rev (take 8 (drop i c))) = 8" using that by simp
    then show ?thesis
      using be_bytes_be_word [of "rev (take 8 (drop i c))", where 'a = 64] by (simp add: load_u64_def)
  qed
  with e assms show "take 8 (drop i a) = take 8 (drop i b)" by (metis rev_rev_ident)
qed (simp add: load_u64_def)

lemma hosts_match_loop_iff:
  assumes "i + 8 * n \<le> length a" "i + 8 * n \<le> length b"
  shows "hosts_match_loop n i a b \<longleftrightarrow> take (8 * n) (drop i a) = take (8 * n) (drop i b)"
  using assms
proof (induction n arbitrary: i)
  case (Suc n)
  have t: "take (8 * Suc n) (drop i c) = take 8 (drop i c) @ take (8 * n) (drop (i + 8) c)" for c :: bytes
    using take_add [of 8 "8 * n" "drop i c"] by (simp add: add.commute)
  show ?case
    using Suc.prems unfolding t
    by (subst append_eq_append_conv) (auto simp: Suc.IH load_u64_eq_iff)
qed simp

lemma hosts_match_iff:
  assumes "64 \<le> length a" "64 \<le> length b"
  shows "hosts_match a b \<longleftrightarrow> take 64 a = take 64 b"
  using hosts_match_loop_iff [of 0 8 a b] assms by (simp add: hosts_match_def MAX_HOST_LEN_def)

text \<open>A host as the code stores it: its bytes, none of them zero, then zeros up to 64.\<close>

definition pad_host :: "bytes \<Rightarrow> bytes" where
  "pad_host h = h @ replicate (MAX_HOST_LEN - length h) 0"

definition host_ok :: "bytes \<Rightarrow> bool" where
  "host_ok h \<longleftrightarrow> length h \<le> MAX_HOST_LEN \<and> 0 \<notin> set h"

lemma length_pad_host: "host_ok h \<Longrightarrow> length (pad_host h) = 64"
  by (simp add: pad_host_def host_ok_def MAX_HOST_LEN_def)

lemma pad_host_inject:
  assumes "host_ok h" "host_ok k" "pad_host h = pad_host k"
  shows "h = k"
proof -
  have "takeWhile (\<lambda>c. c \<noteq> 0) (pad_host g) = g" if "host_ok g" for g
  proof -
    have "\<forall>c \<in> set g. c \<noteq> 0" using that by (auto simp: host_ok_def)
    then show ?thesis by (simp add: pad_host_def takeWhile_append2 takeWhile_replicate)
  qed
  with assms show ?thesis by metis
qed

lemma clamp_write_len_unat: "unat (clamp_write_len v) = unat ((v - 1) AND 127) + 1"
proof -
  have "(v - 1) AND 127 \<le> 127" by (rule word_and_le1)
  then have "unat ((v - 1) AND 127) \<le> 127" by (simp add: word_le_nat_alt)
  then show ?thesis
    by (simp add: clamp_write_len_def SECRET_MAX_LEN_def unat_plus_noof)
qed

lemma clamp_write_len_bounds: "1 \<le> unat (clamp_write_len v) \<and> unat (clamp_write_len v) \<le> 128"
proof -
  have "(v - 1) AND 127 \<le> 127" by (rule word_and_le1)
  then show ?thesis by (simp add: clamp_write_len_unat word_le_nat_alt)
qed

lemma and_127_id: "unat (x :: u32) < 128 \<Longrightarrow> x AND 127 = x"
proof -
  assume "unat x < 128"
  then have "unat (take_bit 7 x) = unat x"
    by (simp add: unsigned_take_bit_eq take_bit_nat_eq_self)
  moreover have "x AND 127 = take_bit 7 x" by (simp add: take_bit_eq_mask mask_numeral)
  ultimately show ?thesis by (simp only: word_unat_eq_iff)
qed

lemma clamp_write_len_id:
  assumes "1 \<le> unat v" "unat v \<le> 128"
  shows "clamp_write_len v = v"
proof -
  have "1 \<le> v" using assms(1) by (simp add: word_le_nat_alt)
  then have "unat (v - 1) = unat v - 1" by (simp add: unat_minus_noof)
  then have "(v - 1) AND 127 = v - 1" using assms by (intro and_127_id) simp
  then show ?thesis by (simp add: clamp_write_len_def SECRET_MAX_LEN_def)
qed

definition marker_at :: "bytes \<Rightarrow> nat \<Rightarrow> bool" where
  "marker_at data m \<longleftrightarrow> take 6 (drop m data) = host_marker"

lemma marker_at_nth:
  assumes "m + 6 \<le> length data"
  shows "marker_at data m \<longleftrightarrow> data ! m = 0x48 \<and> data ! (m + 1) = 0x6F \<and> data ! (m + 2) = 0x73
    \<and> data ! (m + 3) = 0x74 \<and> data ! (m + 4) = 0x3A \<and> data ! (m + 5) = 0x20"
proof -
  have l: "length (take 6 (drop m data)) = length host_marker"
    using assms by (simp add: host_marker_def)
  have "marker_at data m \<longleftrightarrow> (\<forall>t < 6. data ! (m + t) = host_marker ! t)"
    using assms by (simp add: marker_at_def list_eq_iff_nth_eq [of "take 6 (drop m data)"] l)
      (simp add: host_marker_def)
  then show ?thesis
    by (simp add: host_marker_def All_less_Suc numeral_eq_Suc) blast
qed

lemma find_host_start_at:
  assumes "k \<le> p" "p < k + n" "p + 6 \<le> data_len" "data_len \<le> length data"
    and "marker_at data p" "\<And>m. k \<le> m \<Longrightarrow> m < p \<Longrightarrow> \<not> marker_at data m"
  shows "find_host_start n k data data_len = p + 6"
  using assms(1,2,6)
proof (induction n arbitrary: k)
  case (Suc n)
  have "marker_at data k \<longleftrightarrow> data ! k = 0x48 \<and> data ! (k + 1) = 0x6F \<and> data ! (k + 2) = 0x73
    \<and> data ! (k + 3) = 0x74 \<and> data ! (k + 4) = 0x3A \<and> data ! (k + 5) = 0x20"
    using Suc.prems(1) assms(3,4) by (intro marker_at_nth) simp
  moreover have "k \<noteq> p \<Longrightarrow> find_host_start n (k + 1) data data_len = p + 6"
    using Suc.prems by (intro Suc.IH) auto
  ultimately show ?case using Suc.prems assms(3,5) by (cases "k = p") auto
qed simp

lemma copy_host_spec:
  assumes "j \<le> length h" "length h \<le> j + n" "length h \<le> mx" "s + length h < data_len"
    and "data_len \<le> length data" "length h \<le> length out"
    and "take (length h) (drop s data) = h" "data ! (s + length h) \<in> {0x0D, 0x0A, 0x3A}"
    and "\<forall>c \<in> set h. c \<notin> {0x0D, 0x0A, 0x3A}" "take j out = take j h"
  shows "copy_host n j data data_len s mx out = (length h, h @ drop (length h) out)"
  using assms(1,2,6,10)
proof (induction n arbitrary: j out)
  case 0
  then show ?case by (metis add.right_neutral append_take_drop_id copy_host.simps(1) le_antisym order_refl take_all)
next
  case (Suc n)
  show ?case
  proof (cases "j = length h")
    case True
    then have "h @ drop (length h) out = out"
      using Suc.prems(4) by (metis append_take_drop_id order_refl take_all)
    then show ?thesis
      using True assms(4,8) by auto
  next
    case False
    then have j: "j < length h" using Suc.prems(1) by simp
    have d: "data ! (s + j) = h ! j"
      using j assms(4,5,7) by (metis (no_types) add_leD1 less_imp_le_nat nth_drop nth_take order_trans)
    then have c: "data ! (s + j) \<notin> {0x0D, 0x0A, 0x3A}" using assms(9) j by (metis nth_mem)
    have "copy_host n (j + 1) data data_len s mx (out[j := h ! j])
        = (length h, h @ drop (length h) (out[j := h ! j]))"
    proof (rule Suc.IH)
      show "take (j + 1) (out[j := h ! j]) = take (j + 1) h"
        using Suc.prems(3,4) j by (simp add: take_Suc_conv_app_nth)
    qed (use j Suc.prems in auto)
    then show ?thesis
      using c j assms(3,4) by (simp add: Let_def d)
  qed
qed

section \<open>Properties\<close>

text \<open>
  \<open>hosts_match\<close> on two stored hosts (zero-padded to 64 bytes, no zero byte inside) is
  equality of the hosts: the comparison in 8-byte chunks skips no byte, and no host compares
  equal to a longer one that starts with it.
\<close>

theorem hosts_match_equality:
  assumes "host_ok h" and "host_ok k"
  shows "hosts_match (pad_host h) (pad_host k) \<longleftrightarrow> h = k"
  using hosts_match_iff [of "pad_host h" "pad_host k"] assms pad_host_inject
  by (auto simp: length_pad_host)

theorem hosts_match_equality_witness:
  "\<not> hosts_match (pad_host [0x61, 0x2E, 0x62]) (pad_host [0x61, 0x2E, 0x62, 0x63])"
  using hosts_match_equality [of "[0x61, 0x2E, 0x62]" "[0x61, 0x2E, 0x62, 0x63]"]
  by (simp add: host_ok_def MAX_HOST_LEN_def)

text \<open>
  \<open>clamp_write_len\<close> returns a length in 1..128 for every argument, and every valid secret
  length unchanged; 0 becomes a full-length patch.
\<close>

theorem clamp_write_len_range:
  "1 \<le> unat (clamp_write_len v) \<and> unat (clamp_write_len v) \<le> SECRET_MAX_LEN
   \<and> (1 \<le> unat v \<and> unat v \<le> SECRET_MAX_LEN \<longrightarrow> clamp_write_len v = v)
   \<and> (v = 0 \<longrightarrow> unat (clamp_write_len v) = SECRET_MAX_LEN)"
proof -
  have "unat (clamp_write_len 0) = 128"
    by (simp add: clamp_write_len_unat)
  then show ?thesis
    using clamp_write_len_bounds [of v] clamp_write_len_id [of v] by (auto simp: SECRET_MAX_LEN_def)
qed

theorem clamp_write_len_range_witness: "clamp_write_len 42 = 42 \<and> unat (clamp_write_len 0) = 128"
  using clamp_write_len_range [of 42] clamp_write_len_range [of 0] by (simp add: SECRET_MAX_LEN_def)

text \<open>
  a header line \<open>Host: h\<close> ended by CR, LF or a port's colon yields exactly \<open>h\<close>, copied to the
  front of the output buffer, when it is the first \<open>Host: \<close> of the first 256 bytes.
\<close>

theorem parse_http_host_finds:
  assumes "data = pre @ host_marker @ h @ stop # post"
    and "length pre + length h + 7 \<le> 256" "length data < 2 ^ 32"
    and "\<forall>m < length pre. \<not> marker_at data m"
    and "stop \<in> {0x0D, 0x0A, 0x3A}" "\<forall>c \<in> set h. c \<notin> {0x0D, 0x0A, 0x3A}"
    and "length h \<le> MAX_HOST_LEN" "length h \<le> unat host_max_len" "length h \<le> length host_out"
  shows "parse_http_host data (of_nat (length data)) host_out host_max_len
    = (length h, h @ drop (length h) host_out)"
proof -
  define L where "L = min (length data) 256"
  have lm: "length host_marker = 6" by (simp add: host_marker_def)
  have L: "length pre + length h + 7 \<le> L" "L \<le> length data"
    using assms(1,2) by (auto simp: L_def lm)
  have m: "marker_at data (length pre)"
    by (simp add: marker_at_def assms(1) lm)
  have f: "find_host_start MAX_DATA_SIZE 0 data L = length pre + 6"
    using assms(2,4) L m by (intro find_host_start_at) (auto simp: MAX_DATA_SIZE_def)
  have "copy_host MAX_HOST_LEN 0 data L (length pre + 6) (unat host_max_len) host_out
      = (length h, h @ drop (length h) host_out)"
    using assms L by (intro copy_host_spec) (auto simp: lm nth_append MAX_HOST_LEN_def)
  moreover have "(if unat (of_nat (length data) :: u32) > MAX_DATA_SIZE then MAX_DATA_SIZE
      else unat (of_nat (length data) :: u32)) = L"
    using assms(3) by (auto simp: L_def MAX_DATA_SIZE_def)
  ultimately show ?thesis
    by (simp add: parse_http_host_def f Let_def)
qed

theorem parse_http_host_finds_witness:
  "parse_http_host ([0x0A] @ host_marker @ [0x61, 0x62] @ 0x3A # [0x31]) 11 (replicate 64 0) 64
   = (length [0x61 :: u8, 0x62], [0x61, 0x62] @ replicate 62 0)"
  using parse_http_host_finds [of "[0x0A] @ host_marker @ [0x61, 0x62] @ 0x3A # [0x31]"
      "[0x0A]" "[0x61, 0x62]" "0x3A" "[0x31]" 64 "replicate 64 0"]
  by (simp add: host_marker_def marker_at_def MAX_HOST_LEN_def)

end
