(* ===== verification/TLS_Record.thy ===== *)
theory TLS_Record
  imports Prelude
begin

text \<open>
  TLS record framing (\<open>helpers.h\<close>): the classification of a 5-byte record header and the match
  of a record's length against the length of the staged plaintext.
\<close>

definition TLS_CT_CHANGE_CIPHER_SPEC :: u8 where "TLS_CT_CHANGE_CIPHER_SPEC = 0x14"
definition TLS_CT_ALERT :: u8 where "TLS_CT_ALERT = 0x15"
definition TLS_CT_HANDSHAKE :: u8 where "TLS_CT_HANDSHAKE = 0x16"
definition TLS_CT_APPLICATION_DATA :: u8 where "TLS_CT_APPLICATION_DATA = 0x17"
definition TLS_MAX_RECORD_LEN :: u32 where "TLS_MAX_RECORD_LEN = 16384 + 2048"
definition TLS_APPDATA_MIN_RECORD_LEN :: u32 where "TLS_APPDATA_MIN_RECORD_LEN = 17"
definition TLS_NONCE_UNKNOWN :: u32 where "TLS_NONCE_UNKNOWN = 0xFF"

lemmas tls_consts = TLS_CT_CHANGE_CIPHER_SPEC_def TLS_CT_ALERT_def TLS_CT_HANDSHAKE_def
  TLS_CT_APPLICATION_DATA_def TLS_MAX_RECORD_LEN_def TLS_APPDATA_MIN_RECORD_LEN_def
  TLS_NONCE_UNKNOWN_def

datatype rec_kind = TLS_REC_INVALID | TLS_REC_SKIPPABLE | TLS_REC_APPDATA

datatype cipher_type = KLOAK_CIPHER_UNKNOWN | KLOAK_CIPHER_AES_GCM

definition is_aes_gcm :: "cipher_type \<Rightarrow> bool" where
  "is_aes_gcm c \<longleftrightarrow> c = KLOAK_CIPHER_AES_GCM"

text \<open>Returns the kind and the new \<open>*rec_len\<close>, which an invalid header leaves as it was.\<close>

definition tls_record_hdr_kind :: "bytes \<Rightarrow> u32 \<Rightarrow> rec_kind \<times> u32" where
  "tls_record_hdr_kind hdr rec_len =
     (if hdr ! 1 \<noteq> 0x03 \<or> hdr ! 2 > 0x03 then (TLS_REC_INVALID, rec_len)
      else let len = be16 (hdr ! 3) (hdr ! 4) in
        if len > TLS_MAX_RECORD_LEN then (TLS_REC_INVALID, rec_len)
        else if hdr ! 0 = TLS_CT_APPLICATION_DATA then
          (if len < TLS_APPDATA_MIN_RECORD_LEN then (TLS_REC_INVALID, rec_len)
           else (TLS_REC_APPDATA, len))
        else if hdr ! 0 = TLS_CT_CHANGE_CIPHER_SPEC then
          (if len \<noteq> 1 then (TLS_REC_INVALID, rec_len) else (TLS_REC_SKIPPABLE, len))
        else if hdr ! 0 = TLS_CT_ALERT then
          (if len < 2 then (TLS_REC_INVALID, rec_len) else (TLS_REC_SKIPPABLE, len))
        else if hdr ! 0 = TLS_CT_HANDSHAKE then
          (if len < 4 then (TLS_REC_INVALID, rec_len) else (TLS_REC_SKIPPABLE, len))
        else (TLS_REC_INVALID, rec_len))"

text \<open>Returns the match and the new \<open>*out_nonce\<close>.\<close>

definition tls_appdata_reclen_match :: "u32 \<Rightarrow> u32 \<Rightarrow> u32 \<Rightarrow> u32 \<Rightarrow> bool \<times> u32" where
  "tls_appdata_reclen_match rec_len pt_len nonce_len out_nonce =
     (if pt_len = 0 then (False, out_nonce)
      else if nonce_len \<noteq> 8 \<and> rec_len = pt_len + 17 then (True, 0)
      else if nonce_len \<noteq> 0 \<and> rec_len = pt_len + 24 then (True, 8)
      else (False, out_nonce))"

section \<open>Lemmas\<close>

lemma tls_hdr_appdataD:
  assumes "tls_record_hdr_kind hdr r = (TLS_REC_APPDATA, len)"
  shows "hdr ! 0 = 0x17" "hdr ! 1 = 3" "hdr ! 2 \<le> 3" "len = be16 (hdr ! 3) (hdr ! 4)"
    and "17 \<le> len" "len \<le> 18432"
  using assms
  by (auto simp: tls_record_hdr_kind_def tls_consts Let_def linorder_not_less split: if_splits)

lemma tls_hdr_skippableD:
  assumes "tls_record_hdr_kind hdr r = (TLS_REC_SKIPPABLE, len)"
  shows "hdr ! 0 = 0x14 \<and> len = 1 \<or> hdr ! 0 = 0x15 \<and> 2 \<le> len \<or> hdr ! 0 = 0x16 \<and> 4 \<le> len"
    and "hdr ! 1 = 3" "hdr ! 2 \<le> 3" "len = be16 (hdr ! 3) (hdr ! 4)" "len \<le> 18432"
  using assms
  by (auto simp: tls_record_hdr_kind_def tls_consts Let_def linorder_not_less split: if_splits)

text \<open>The header a TLS stack writes for a record of \<open>n\<close> body bytes.\<close>

definition tls_hdr :: "u8 \<Rightarrow> u8 \<Rightarrow> nat \<Rightarrow> bytes" where
  "tls_hdr ty minor n = [ty, 3, minor, of_nat (n div 256), of_nat (n mod 256)]"

lemma be16_of_nat:
  assumes "n < 65536"
  shows "be16 (of_nat (n div 256)) (of_nat (n mod 256)) = of_nat n"
proof (rule word_unat_eq_iff [THEN iffD2])
  have "unat (of_nat (n div 256) :: u8) = n div 256" "unat (of_nat (n mod 256) :: u8) = n mod 256"
    using assms by (simp_all add: unat_of_nat)
  then show "unat (be16 (of_nat (n div 256)) (of_nat (n mod 256))) = unat (of_nat n :: u32)"
    using assms by (simp add: unat_be16)
qed

section \<open>Properties\<close>

text \<open>
  The classification is exact on the headers a TLS stack writes: application data of a legal
  length is \<open>APPDATA\<close>, a one-byte ChangeCipherSpec, an alert of at least two and a handshake
  record of at least four bytes are \<open>SKIPPABLE\<close>, with the body's length, and a header of
  another length, type or version is no record boundary.
\<close>

theorem tls_record_hdr_kind_exact:
  assumes "n < 65536" and "minor \<le> 3"
  shows "tls_record_hdr_kind (tls_hdr ty minor n) r =
    (if n \<le> 18432 \<and> ty = 0x17 \<and> 17 \<le> n then (TLS_REC_APPDATA, of_nat n)
     else if n \<le> 18432 \<and> (ty = 0x14 \<and> n = 1 \<or> ty = 0x15 \<and> 2 \<le> n \<or> ty = 0x16 \<and> 4 \<le> n)
     then (TLS_REC_SKIPPABLE, of_nat n) else (TLS_REC_INVALID, r))
   \<and> (v \<noteq> 3 \<longrightarrow> tls_record_hdr_kind ((tls_hdr ty minor n)[1 := v]) r = (TLS_REC_INVALID, r))
   \<and> (3 < minor' \<longrightarrow> tls_record_hdr_kind (tls_hdr ty minor' n) r = (TLS_REC_INVALID, r))"
proof -
  have u: "unat (of_nat n :: u32) = n" using assms(1) by simp
  have c: "(18432 < (of_nat n :: u32)) = (18432 < n)" "((of_nat n :: u32) < 17) = (n < 17)"
    "((of_nat n :: u32) < 2) = (n < 2)" "((of_nat n :: u32) < 4) = (n < 4)"
    unfolding word_less_nat_alt u by simp_all
  have e: "((of_nat n :: u32) = 1) = (n = 1)"
    unfolding word_unat_eq_iff u by simp
  show ?thesis
    using assms(2)
    by (auto simp: tls_record_hdr_kind_def tls_hdr_def be16_of_nat [OF assms(1)] tls_consts c e Let_def)
qed

theorem tls_record_hdr_kind_exact_witness:
  "tls_record_hdr_kind (tls_hdr 0x17 3 300) 0 = (TLS_REC_APPDATA, 300)"
  using tls_record_hdr_kind_exact [of 300 3 "0x17" 0 3 3] by simp

text \<open>
  a length match fixes the layout: it is decided for a nonce length of 0 or 8 that agrees
  with the known one, and then the ciphertext left after nonce and tag is the plaintext (plus
  the inner type byte of TLS 1.3), so the later subtraction of nonce and tag does not underflow.
\<close>

theorem tls_appdata_reclen_match_layout:
  assumes "tls_appdata_reclen_match rec_len pt_len nonce_len out = (True, n)"
    and "unat pt_len \<le> 16384"
  shows "(n = 0 \<or> n = 8) \<and> (nonce_len = 0 \<or> nonce_len = 8 \<longrightarrow> n = nonce_len)
    \<and> pt_len \<noteq> 0 \<and> 16 + n \<le> rec_len
    \<and> unat (rec_len - 16 - n) = unat pt_len + (if n = 0 then 1 else 0)"
proof -
  have p: "unat (pt_len + 17) = unat pt_len + 17" "unat (pt_len + 24) = unat pt_len + 24"
    using assms(2) by (simp_all add: unat_plus_noof)
  have c: "n = 0 \<and> nonce_len \<noteq> 8 \<and> rec_len = pt_len + 17
      \<or> n = 8 \<and> nonce_len \<noteq> 0 \<and> rec_len = pt_len + 24" and nz: "pt_len \<noteq> 0"
    using assms(1) by (auto simp: tls_appdata_reclen_match_def split: if_splits)
  from c show ?thesis
  proof
    assume a: "n = 0 \<and> nonce_len \<noteq> 8 \<and> rec_len = pt_len + 17"
    then have "rec_len - 16 - n = pt_len + 1" by simp
    moreover have "unat (1 + pt_len) = unat pt_len + 1" using assms(2) by (simp add: unat_plus_noof)
    ultimately show ?thesis using a nz p by (simp add: word_le_nat_alt)
  next
    assume a: "n = 8 \<and> nonce_len \<noteq> 0 \<and> rec_len = pt_len + 24"
    then have "rec_len - 16 - n = pt_len" by simp
    then show ?thesis using a nz p by (simp add: word_le_nat_alt)
  qed
qed

theorem tls_appdata_reclen_match_layout_witness:
  "tls_appdata_reclen_match 124 100 TLS_NONCE_UNKNOWN 0 = (True, 8)
   \<and> unat ((124 :: u32) - 16 - 8) = unat (100 :: u32) + (if (8 :: u32) = 0 then 1 else 0)"
proof -
  have "tls_appdata_reclen_match 124 100 TLS_NONCE_UNKNOWN 0 = (True, 8)"
    by (simp add: tls_appdata_reclen_match_def tls_consts)
  with tls_appdata_reclen_match_layout [OF this] show ?thesis by simp
qed

end
