(* ===== verification/SNI_Parse.thy ===== *)
theory SNI_Parse
  imports Text_Match TLS_Record
begin

text \<open>
  The ClientHello parser of the SNI check (\<open>tls_parse_sni\<close> of \<open>helpers.h\<close>).

  Every offset is a sum of at most 40 lengths of at most 2^24, so it never wraps as a \<open>__u32\<close>:
  the model has it as a natural number. A byte is read at the offset masked to the buffer, as
  the code does.
\<close>

definition TLS_SNI_BUF_LEN :: nat where "TLS_SNI_BUF_LEN = 2048"
definition TLS_SNI_MAX_EXTS :: nat where "TLS_SNI_MAX_EXTS = 32"
definition TLS_EXT_SERVER_NAME :: nat where "TLS_EXT_SERVER_NAME = 0"
definition TLS_EXT_ECH :: nat where "TLS_EXT_ECH = 0xfe0d"

datatype sni_status = SNI_STATUS_NONE | SNI_STATUS_SEEN | SNI_STATUS_ABSENT | SNI_STATUS_ECH
  | SNI_STATUS_TRUNCATED | SNI_STATUS_MALFORMED | SNI_STATUS_MISMATCH | SNI_NOT_CLIENT_HELLO

definition sni_idx :: "nat \<Rightarrow> nat" where
  "sni_idx off = off mod TLS_SNI_BUF_LEN"

definition sni_rd16 :: "bytes \<Rightarrow> nat \<Rightarrow> nat" where
  "sni_rd16 b off = 256 * unat (b ! sni_idx off) + unat (b ! sni_idx (off + 1))"

definition sni_host_char_ok :: "u8 \<Rightarrow> bool" where
  "sni_host_char_ok c \<longleftrightarrow> (0x61 \<le> c \<and> c \<le> 0x7A) \<or> (0x30 \<le> c \<and> c \<le> 0x39) \<or> c = 0x2D
     \<or> c = 0x2E \<or> c = 0x5F"

definition lower :: "u8 \<Rightarrow> u8" where
  "lower c = (if 0x41 \<le> c \<and> c \<le> 0x5A then c - 0x41 + 0x61 else c)"

text \<open>The locals of the extension walk.\<close>

record ext_walk =
  ew_off :: nat
  ew_ech :: bool
  ew_found :: bool
  ew_truncated :: bool
  ew_n :: nat
  ew_name_off :: nat

text \<open>
  The walk, with \<open>k\<close> extensions left: \<open>Inl\<close> is a \<open>return\<close> from inside the loop, \<open>Inr\<close> the locals
  when the loop ends.
\<close>

fun sni_walk :: "nat \<Rightarrow> bytes \<Rightarrow> nat \<Rightarrow> nat \<Rightarrow> ext_walk \<Rightarrow> sni_status + ext_walk" where
  "sni_walk 0 buf len ext_end st = Inr st"
| "sni_walk (Suc k) buf len ext_end st =
     (let off = ew_off st in
      if off \<ge> ext_end then Inr st
      else if off + 4 > ext_end then Inl SNI_STATUS_MALFORMED
      else if off + 4 > len then Inr (st\<lparr>ew_truncated := True\<rparr>)
      else let ty = sni_rd16 buf off; elen = sni_rd16 buf (off + 2); off = off + 4 in
        if off + elen > ext_end then Inl SNI_STATUS_MALFORMED
        else let st = (if ty = TLS_EXT_ECH then st\<lparr>ew_off := off, ew_ech := True\<rparr>
                       else st\<lparr>ew_off := off\<rparr>) in
          if ty = TLS_EXT_SERVER_NAME then
            (if ew_found st then Inl SNI_STATUS_MALFORMED
             else if off + elen > len then Inr (st\<lparr>ew_truncated := True\<rparr>)
             else if elen < 5 \<or> sni_rd16 buf off \<noteq> elen - 2 \<or> buf ! sni_idx (off + 2) \<noteq> 0
             then Inl SNI_STATUS_MALFORMED
             else let n = sni_rd16 buf (off + 3) in
               if n = 0 \<or> n + 5 \<noteq> elen \<or> n \<ge> MAX_HOST_LEN then Inl SNI_STATUS_MALFORMED
               else sni_walk k buf len ext_end
                 (st\<lparr>ew_n := n, ew_name_off := off + 5, ew_found := True, ew_off := off + elen\<rparr>))
          else sni_walk k buf len ext_end (st\<lparr>ew_off := off + elen\<rparr>))"

text \<open>
  The copy loop at index \<open>j\<close> with \<open>k\<close> rounds left: whether every byte was accepted, and
  \<open>host_out\<close>.
\<close>

fun sni_copy :: "nat \<Rightarrow> nat \<Rightarrow> bytes \<Rightarrow> nat \<Rightarrow> nat \<Rightarrow> bytes \<Rightarrow> bool \<times> bytes" where
  "sni_copy 0 j buf name_off n host_out = (True, host_out)"
| "sni_copy (Suc k) j buf name_off n host_out =
     (if j \<ge> n then (True, host_out)
      else let c = lower (buf ! sni_idx (name_off + j)) in
        if \<not> sni_host_char_ok c then (False, host_out)
        else sni_copy k (j + 1) buf name_off n (host_out[j mod MAX_HOST_LEN := c]))"

text \<open>After the walk: the copy, and the trailing dot. Status, \<open>host_out\<close> and \<open>*host_len\<close>.\<close>

definition sni_finish :: "bytes \<Rightarrow> nat \<Rightarrow> bytes \<Rightarrow> ext_walk \<Rightarrow> sni_status \<times> bytes \<times> nat" where
  "sni_finish buf ext_end host_out st =
     (if ew_ech st then (SNI_STATUS_ECH, host_out, 0)
      else if ew_truncated st then (SNI_STATUS_TRUNCATED, host_out, 0)
      else if ew_off st < ext_end then (SNI_STATUS_MALFORMED, host_out, 0)
      else if \<not> ew_found st then (SNI_STATUS_ABSENT, host_out, 0)
      else let n = ew_n st;
               (ok, host1) = sni_copy MAX_HOST_LEN 0 buf (ew_name_off st) n host_out
           in if \<not> ok then (SNI_STATUS_MALFORMED, host1, 0)
              else let dot = host1 ! ((n - 1) mod MAX_HOST_LEN) = 0x2E;
                       host2 = (if dot then host1[(n - 1) mod MAX_HOST_LEN := 0] else host1);
                       n2 = (if dot then n - 1 else n)
                   in if n2 = 0 then (SNI_STATUS_MALFORMED, host2, 0)
                      else (SNI_STATUS_SEEN, host2, n2))"

text \<open>The walk from the first extension and what follows it.\<close>

definition sni_extensions :: "bytes \<Rightarrow> nat \<Rightarrow> nat \<Rightarrow> nat \<Rightarrow> bytes \<Rightarrow> sni_status \<times> bytes \<times> nat" where
  "sni_extensions buf len ext_end off host_out =
     (case sni_walk TLS_SNI_MAX_EXTS buf len ext_end
             \<lparr>ew_off = off, ew_ech = False, ew_found = False, ew_truncated = False,
              ew_n = 0, ew_name_off = 0\<rparr> of
        Inl s \<Rightarrow> (s, host_out, 0)
      | Inr st \<Rightarrow> sni_finish buf ext_end host_out st)"

definition tls_parse_sni :: "bytes \<Rightarrow> nat \<Rightarrow> bytes \<Rightarrow> sni_status \<times> bytes \<times> nat" where
  "tls_parse_sni buf len0 host_out =
     (let len = (if len0 > TLS_SNI_BUF_LEN then TLS_SNI_BUF_LEN else len0);
          fail = (\<lambda>s. (s, host_out, 0))
      in if len < 9 then fail SNI_NOT_CLIENT_HELLO
      else if buf ! 0 \<noteq> TLS_CT_HANDSHAKE \<or> buf ! 1 \<noteq> 0x03 \<or> buf ! 5 \<noteq> 0x01
      then fail SNI_NOT_CLIENT_HELLO
      else let rec_end = 5 + sni_rd16 buf 3;
               hs_end = 9 + (65536 * unat (buf ! 6) + sni_rd16 buf 7)
      in if hs_end > rec_end then fail SNI_STATUS_MALFORMED
      else let off = 9 + 2 + 32
      in if off + 1 > len then fail SNI_STATUS_TRUNCATED
      else let off = off + (1 + unat (buf ! sni_idx off))
      in if off + 2 > len then fail SNI_STATUS_TRUNCATED
      else let off = off + (2 + sni_rd16 buf off)
      in if off + 1 > len then fail SNI_STATUS_TRUNCATED
      else let off = off + (1 + unat (buf ! sni_idx off))
      in if off > hs_end then fail SNI_STATUS_MALFORMED
      else if off = hs_end then fail SNI_STATUS_ABSENT
      else if off + 2 > len then fail SNI_STATUS_TRUNCATED
      else let ext_end = off + 2 + sni_rd16 buf off
      in if ext_end \<noteq> hs_end then fail SNI_STATUS_MALFORMED
      else sni_extensions buf len ext_end (off + 2) host_out)"

section \<open>Reads stay inside the copied bytes\<close>

text \<open>
  \<open>same_upto len b c\<close>: two buffers that agree on the first \<open>len\<close> bytes (and hold that many).
\<close>

definition same_upto :: "nat \<Rightarrow> bytes \<Rightarrow> bytes \<Rightarrow> bool" where
  "same_upto len b c \<longleftrightarrow> len \<le> length b \<and> len \<le> length c \<and> take len b = take len c"

lemma same_upto_nth: "same_upto len b c \<Longrightarrow> i < len \<Longrightarrow> b ! i = c ! i"
  unfolding same_upto_def by (metis nth_take)

lemma same_upto_idx: "same_upto len b c \<Longrightarrow> len \<le> TLS_SNI_BUF_LEN \<Longrightarrow> i < len \<Longrightarrow>
    b ! sni_idx i = c ! sni_idx i"
  by (simp add: sni_idx_def same_upto_nth)

lemma same_upto_rd16: "same_upto len b c \<Longrightarrow> len \<le> TLS_SNI_BUF_LEN \<Longrightarrow> i + 1 < len \<Longrightarrow>
    sni_rd16 b i = sni_rd16 c i"
  by (simp add: sni_rd16_def same_upto_idx)

lemma sni_walk_same:
  assumes "same_upto len b c" "len \<le> TLS_SNI_BUF_LEN"
  shows "sni_walk k b len ext_end st = sni_walk k c len ext_end st"
proof (induction k arbitrary: st)
  case (Suc k)
  have rd: "i + 1 < len \<Longrightarrow> sni_rd16 b i = sni_rd16 c i" for i
    using same_upto_rd16 [OF assms] .
  have ix: "i < len \<Longrightarrow> b ! sni_idx i = c ! sni_idx i" for i
    using same_upto_idx [OF assms] .
  show ?case
    by (simp add: Let_def Suc rd ix cong: if_cong disj_cong)
qed simp

text \<open>What the walk guarantees when it found a name: the name is inside the copied bytes.\<close>

definition name_inside :: "nat \<Rightarrow> ext_walk \<Rightarrow> bool" where
  "name_inside len st \<longleftrightarrow> (ew_found st \<longrightarrow>
     0 < ew_n st \<and> ew_n st < MAX_HOST_LEN \<and> ew_name_off st + ew_n st \<le> len)"

lemma name_inside_upd [simp]:
  "name_inside len (st\<lparr>ew_off := x\<rparr>) = name_inside len st"
  "name_inside len (st\<lparr>ew_ech := b\<rparr>) = name_inside len st"
  "name_inside len (st\<lparr>ew_truncated := b\<rparr>) = name_inside len st"
  by (simp_all add: name_inside_def)

lemma sni_walk_name:
  "sni_walk k buf len ext_end st = Inr st' \<Longrightarrow> name_inside len st \<Longrightarrow> name_inside len st'"
proof (induction k arbitrary: st)
  case (Suc k)
  from Suc.prems show ?case
    by (auto simp: Let_def split: if_splits elim!: Suc.IH) (auto simp: name_inside_def)
qed simp

text \<open>The copy loop writes lowercased, accepted bytes, and nothing past \<open>n\<close>.\<close>

lemma sni_copy_spec:
  assumes "sni_copy k j buf off n out = (True, out')" "length out = MAX_HOST_LEN"
    and "j \<le> n" "n < MAX_HOST_LEN" "n \<le> j + k"
  shows "length out' = MAX_HOST_LEN \<and> take j out' = take j out \<and> drop n out' = drop n out
    \<and> (\<forall>i. j \<le> i \<longrightarrow> i < n \<longrightarrow> out' ! i = lower (buf ! sni_idx (off + i)) \<and> sni_host_char_ok (out' ! i))"
  using assms
proof (induction k arbitrary: j out)
  case 0
  then show ?case by auto
next
  case (Suc k)
  show ?case
  proof (cases "j \<ge> n")
    case True
    with Suc.prems show ?thesis by auto
  next
    case False
    let ?c = "lower (buf ! sni_idx (off + j))"
    have m: "j mod MAX_HOST_LEN = j" using False Suc.prems(4) by simp
    have ok: "sni_host_char_ok ?c"
      and r: "sni_copy k (j + 1) buf off n (out[j := ?c]) = (True, out')"
      using Suc.prems(1) False by (auto simp: Let_def m split: if_splits)
    have ih: "length out' = MAX_HOST_LEN" "take (j + 1) out' = take (j + 1) (out[j := ?c])"
      "drop n out' = drop n (out[j := ?c])"
      "\<forall>i. j + 1 \<le> i \<longrightarrow> i < n \<longrightarrow> out' ! i = lower (buf ! sni_idx (off + i)) \<and> sni_host_char_ok (out' ! i)"
      using Suc.IH [OF r] False Suc.prems by auto
    have j: "out' ! j = ?c"
      using arg_cong [OF ih(2), of "\<lambda>l. l ! j"] False Suc.prems(2,4) by simp
    have "take j out' = take j out"
      using arg_cong [OF ih(2), of "take j"] by (simp add: min_def)
    moreover have "drop n out' = drop n out" using ih(3) False by simp
    moreover have "out' ! i = lower (buf ! sni_idx (off + i)) \<and> sni_host_char_ok (out' ! i)"
      if "j \<le> i" "i < n" for i
    proof (cases "i = j")
      case False
      then have "j + 1 \<le> i" using that by simp
      then show ?thesis using ih(4) that(2) by blast
    qed (use j ok in simp)
    ultimately show ?thesis using ih(1) by blast
  qed
qed

lemma sni_copy_same:
  assumes "same_upto len b c" "len \<le> TLS_SNI_BUF_LEN" "off + n \<le> len"
  shows "sni_copy k j b off n out = sni_copy k j c off n out"
proof (induction k arbitrary: j out)
  case (Suc k)
  have "j < n \<Longrightarrow> b ! sni_idx (off + j) = c ! sni_idx (off + j)"
    using same_upto_idx [OF assms(1,2)] assms(3) by simp
  then show ?case by (simp add: Let_def Suc cong: if_cong)
qed simp

lemma sni_finish_same:
  assumes "same_upto len b c" "len \<le> TLS_SNI_BUF_LEN" "name_inside len st"
  shows "sni_finish b ext_end out st = sni_finish c ext_end out st"
proof (cases "ew_found st")
  case True
  with assms(3) have "ew_name_off st + ew_n st \<le> len" by (simp add: name_inside_def)
  then show ?thesis
    by (simp add: sni_finish_def sni_copy_same [OF assms(1,2)])
qed (simp add: sni_finish_def)

lemma sni_extensions_same:
  assumes "same_upto len b c" "len \<le> TLS_SNI_BUF_LEN"
  shows "sni_extensions b len ext_end off out = sni_extensions c len ext_end off out"
  unfolding sni_extensions_def sni_walk_same [OF assms]
proof (rule sum.case_cong [OF refl refl])
  fix st'
  assume "sni_walk TLS_SNI_MAX_EXTS c len ext_end
    \<lparr>ew_off = off, ew_ech = False, ew_found = False, ew_truncated = False, ew_n = 0, ew_name_off = 0\<rparr>
    = Inr st'"
  then have "name_inside len st'" by (rule sni_walk_name) (simp add: name_inside_def)
  then show "sni_finish b ext_end out st' = sni_finish c ext_end out st'"
    by (rule sni_finish_same [OF assms])
qed

section \<open>The host of a parsed ClientHello\<close>

lemma sni_walk_Inl: "sni_walk k buf len ext_end st = Inl s \<Longrightarrow> s = SNI_STATUS_MALFORMED"
proof (induction k arbitrary: st)
  case (Suc k)
  from Suc.prems show ?case by (auto simp: Let_def split: if_splits elim!: Suc.IH)
qed simp

text \<open>What a successful copy leaves in a zeroed \<open>host_out\<close>: the lowercased name, padded.\<close>

lemma sni_copy_zeroed:
  assumes "sni_copy MAX_HOST_LEN 0 buf off n (replicate MAX_HOST_LEN 0) = (True, out)"
    and "n < MAX_HOST_LEN"
  shows "out = pad_host (map (\<lambda>i. lower (buf ! sni_idx (off + i))) [0..<n])"
    and "\<forall>i < n. sni_host_char_ok (lower (buf ! sni_idx (off + i)))"
proof -
  have c: "length out = MAX_HOST_LEN" "drop n out = drop n (replicate MAX_HOST_LEN 0)"
    "\<forall>i < n. out ! i = lower (buf ! sni_idx (off + i)) \<and> sni_host_char_ok (out ! i)"
    using sni_copy_spec [OF assms(1)] assms(2) by auto
  have "take n out = map (\<lambda>i. lower (buf ! sni_idx (off + i))) [0..<n]"
    using c(1,3) assms(2) by (intro nth_equalityI) auto
  then show "out = pad_host (map (\<lambda>i. lower (buf ! sni_idx (off + i))) [0..<n])"
    using c(2) by (simp add: pad_host_def) (metis append_take_drop_id)
  show "\<forall>i < n. sni_host_char_ok (lower (buf ! sni_idx (off + i)))"
    using c(3) by auto
qed

text \<open>Removing one trailing dot.\<close>

definition strip_dot :: "bytes \<Rightarrow> bytes" where
  "strip_dot h = (if last h = 0x2E then butlast h else h)"

lemma strip_dot_padded:
  assumes "h \<noteq> []" "length h < MAX_HOST_LEN"
  shows "(if pad_host h ! ((length h - 1) mod MAX_HOST_LEN) = 0x2E
          then (pad_host h)[(length h - 1) mod MAX_HOST_LEN := 0] else pad_host h) = pad_host (strip_dot h)"
    and "(if pad_host h ! ((length h - 1) mod MAX_HOST_LEN) = 0x2E then length h - 1 else length h)
          = length (strip_dot h)"
proof -
  obtain g x where h: "h = g @ [x]" using assms(1) by (metis append_butlast_last_id)
  have m: "(length h - 1) mod MAX_HOST_LEN = length g" using assms(2) by (simp add: h)
  have n: "pad_host h ! length g = x" by (simp add: pad_host_def h nth_append)
  have r: "MAX_HOST_LEN - length g = Suc (MAX_HOST_LEN - Suc (length g))"
    using assms(2) by (simp add: h)
  show "(if pad_host h ! ((length h - 1) mod MAX_HOST_LEN) = 0x2E
          then (pad_host h)[(length h - 1) mod MAX_HOST_LEN := 0] else pad_host h) = pad_host (strip_dot h)"
    unfolding m n by (auto simp: strip_dot_def h pad_host_def r)
  show "(if pad_host h ! ((length h - 1) mod MAX_HOST_LEN) = 0x2E then length h - 1 else length h)
          = length (strip_dot h)"
    unfolding m n by (auto simp: strip_dot_def h)
qed

text \<open>The end of the parse, for a name found inside the buffer.\<close>

definition sni_name :: "bytes \<Rightarrow> nat \<Rightarrow> nat \<Rightarrow> bytes" where
  "sni_name buf off n = map (\<lambda>i. lower (buf ! sni_idx (off + i))) [0..<n]"

lemma sni_finish_seen:
  assumes "sni_finish buf ext_end (replicate MAX_HOST_LEN 0) st = (SNI_STATUS_SEEN, host, m)"
    and "name_inside len st"
  defines "h \<equiv> strip_dot (sni_name buf (ew_name_off st) (ew_n st))"
  shows "host = pad_host h \<and> m = length h \<and> h \<noteq> [] \<and> length h < MAX_HOST_LEN
    \<and> (\<forall>c \<in> set h. sni_host_char_ok c)"
proof -
  let ?n = "ew_n st" and ?g = "sni_name buf (ew_name_off st) (ew_n st)"
  have f: "ew_found st"
    using assms(1) by (auto simp: sni_finish_def split: if_splits)
  then have n: "0 < ?n" "?n < MAX_HOST_LEN" using assms(2) by (simp_all add: name_inside_def)
  obtain out where c: "sni_copy MAX_HOST_LEN 0 buf (ew_name_off st) ?n (replicate MAX_HOST_LEN 0) = (True, out)"
    using assms(1) by (auto simp: sni_finish_def Let_def split: if_splits prod.splits)
  have out: "out = pad_host ?g" and ok: "\<forall>c \<in> set ?g. sni_host_char_ok c"
    using sni_copy_zeroed [OF c n(2)] by (auto simp: sni_name_def)
  have l: "length ?g = ?n" by (simp add: sni_name_def)
  with n have g: "?g \<noteq> []" "length ?g < MAX_HOST_LEN" by auto
  have "host = pad_host h" "m = length h" "m \<noteq> 0"
    using assms(1) c unfolding sni_finish_def out Let_def
    by (auto simp: h_def strip_dot_padded [OF g, symmetric] l split: if_splits)
  moreover have "set h \<subseteq> set ?g" "length h \<le> length ?g"
    by (auto simp: h_def strip_dot_def dest: in_set_butlastD)
  ultimately show ?thesis using ok g by auto
qed

lemma sni_host_char_nonzero: "sni_host_char_ok c \<Longrightarrow> c \<noteq> 0"
  by (auto simp: sni_host_char_ok_def)

lemma tls_parse_sni_seen:
  assumes "tls_parse_sni buf len (replicate MAX_HOST_LEN 0) = (SNI_STATUS_SEEN, host, n)"
  shows "\<exists>h. host = pad_host h \<and> n = length h \<and> h \<noteq> [] \<and> length h < MAX_HOST_LEN
    \<and> (\<forall>c \<in> set h. sni_host_char_ok c)"
proof -
  obtain l e off where x: "sni_extensions buf l e off (replicate MAX_HOST_LEN 0) = (SNI_STATUS_SEEN, host, n)"
    using assms by (auto simp: tls_parse_sni_def Let_def split: if_splits)
  then obtain st where "sni_finish buf e (replicate MAX_HOST_LEN 0) st = (SNI_STATUS_SEEN, host, n)"
      and w: "sni_walk TLS_SNI_MAX_EXTS buf l e
        \<lparr>ew_off = off, ew_ech = False, ew_found = False, ew_truncated = False, ew_n = 0,
         ew_name_off = 0\<rparr> = Inr st"
    by (auto simp: sni_extensions_def dest: sni_walk_Inl split: sum.splits)
  moreover have "name_inside l st"
    by (rule sni_walk_name [OF w]) (simp add: name_inside_def)
  ultimately show ?thesis using sni_finish_seen by blast
qed

section \<open>Properties\<close>

text \<open>
  C31: the result depends only on the bytes copied for this ClientHello: two buffers that agree
  on the first \<open>len\<close> bytes give the same status, host and length, so bytes an earlier
  ClientHello left in the per-CPU scratch buffer are never read.
\<close>

theorem tls_parse_sni_reads_only_copied:
  assumes "same_upto (min len TLS_SNI_BUF_LEN) b c"
  shows "tls_parse_sni b len out = tls_parse_sni c len out"
proof -
  define n where "n = min len TLS_SNI_BUF_LEN"
  have n: "(if len > TLS_SNI_BUF_LEN then TLS_SNI_BUF_LEN else len) = n" "n \<le> TLS_SNI_BUF_LEN"
    by (auto simp: n_def)
  note same = assms [folded n_def]
  have nt: "i < n \<Longrightarrow> b ! i = c ! i" for i using same_upto_nth [OF same] .
  have ix: "i < n \<Longrightarrow> b ! sni_idx i = c ! sni_idx i" for i using same_upto_idx [OF same n(2)] .
  have rd: "i + 1 < n \<Longrightarrow> sni_rd16 b i = sni_rd16 c i" for i using same_upto_rd16 [OF same n(2)] .
  show ?thesis
    unfolding tls_parse_sni_def n(1) Let_def
    by (simp add: nt ix rd sni_extensions_same [OF same n(2)] cong: if_cong disj_cong)
qed

text \<open>
  C32: whenever the parser reports a name, \<open>host_out\<close> holds a non-empty host of at most 63 bytes,
  zero-padded to 64, and every byte of it is a lowercase host name character; in particular no
  NUL hides bytes behind the host that \<open>hosts_match\<close> compares.
\<close>

theorem tls_parse_sni_seen_host:
  assumes "tls_parse_sni buf len (replicate MAX_HOST_LEN 0) = (SNI_STATUS_SEEN, host, n)"
  shows "\<exists>h. host = pad_host h \<and> host_ok h \<and> n = length h \<and> 0 < n \<and> n < MAX_HOST_LEN
    \<and> (\<forall>c \<in> set h. sni_host_char_ok c)"
proof -
  obtain h where h: "host = pad_host h" "n = length h" "h \<noteq> []" "length h < MAX_HOST_LEN"
      "\<forall>c \<in> set h. sni_host_char_ok c"
    using tls_parse_sni_seen [OF assms] by blast
  then have "host_ok h" using sni_host_char_nonzero by (auto simp: host_ok_def)
  with h show ?thesis by auto
qed

end
