(* ===== verification/SNI_Hello.thy ===== *)
theory SNI_Hello
  imports SNI_Parse
begin

text \<open>
  The ClientHello a TLS stack writes, as an encoder of the RFC 8446 layout, and the parser's
  behaviour on it: the server name it carries comes back, an encrypted ClientHello and one
  without a server name are reported as such.
\<close>

definition enc16 :: "nat \<Rightarrow> bytes" where
  "enc16 n = [of_nat (n div 256), of_nat (n mod 256)]"

text \<open>An extension is its type and its data.\<close>

type_synonym tls_ext = "nat \<times> bytes"

definition enc_ext :: "tls_ext \<Rightarrow> bytes" where
  "enc_ext e = enc16 (fst e) @ enc16 (length (snd e)) @ snd e"

definition enc_exts :: "tls_ext list \<Rightarrow> bytes" where
  "enc_exts es = concat (map enc_ext es)"

text \<open>A server name extension with one host name entry.\<close>

definition sni_ext :: "bytes \<Rightarrow> tls_ext" where
  "sni_ext name = (TLS_EXT_SERVER_NAME, enc16 (length name + 3) @ [0] @ enc16 (length name) @ name)"

text \<open>
  The handshake body (client version and random as one 34-byte string, session id, cipher
  suites, compression methods, extensions) and the record that carries it.
\<close>

definition hello_body :: "bytes \<Rightarrow> bytes \<Rightarrow> bytes \<Rightarrow> bytes \<Rightarrow> bytes \<Rightarrow> bytes" where
  "hello_body rnd sid ciphers compr exts =
     rnd @ [of_nat (length sid)] @ sid @ enc16 (length ciphers) @ ciphers
       @ [of_nat (length compr)] @ compr @ enc16 (length exts) @ exts"

definition client_hello :: "u8 \<Rightarrow> bytes \<Rightarrow> bytes \<Rightarrow> bytes \<Rightarrow> bytes \<Rightarrow> bytes \<Rightarrow> bytes" where
  "client_hello minor rnd sid ciphers compr exts =
     (let body = hello_body rnd sid ciphers compr exts
      in [0x16, 3, minor] @ enc16 (length body + 4) @ [1, 0] @ enc16 (length body) @ body)"

section \<open>Reading an encoded number\<close>

lemma length_enc16 [simp]: "length (enc16 n) = 2"
  by (simp add: enc16_def)

lemma length_enc_exts_Cons:
  "length (enc_exts (e # es)) = 4 + length (snd e) + length (enc_exts es)"
  by (simp add: enc_exts_def enc_ext_def)

lemma advance: "drop i buf = xs @ r \<Longrightarrow> drop (i + length xs) buf = r"
  by (metis add.commute append_eq_conv_conj drop_drop)

lemma rd16_enc16:
  assumes "drop i buf = enc16 n @ r" "n < 65536" "i + 1 < TLS_SNI_BUF_LEN"
  shows "sni_rd16 buf i = n"
proof -
  have "buf ! i = of_nat (n div 256)" "buf ! (i + 1) = of_nat (n mod 256)"
    using assms(1) by (auto simp: enc16_def nth_via_drop dest: advance [of i buf "[_]", simplified])
  moreover have "unat (of_nat (n div 256) :: u8) = n div 256" "unat (of_nat (n mod 256) :: u8) = n mod 256"
    using assms(2) by (simp_all add: unat_of_nat)
  ultimately show ?thesis
    using assms(3) by (simp add: sni_rd16_def sni_idx_def)
qed

lemma rd8_enc:
  assumes "drop i buf = (of_nat n :: u8) # r" "n < 256" "i < TLS_SNI_BUF_LEN"
  shows "unat (buf ! sni_idx i) = n"
  using assms by (simp add: sni_idx_def nth_via_drop unat_of_nat)

section \<open>The walk over encoded extensions\<close>

text \<open>Extensions other than the server name: the walk only notes an ECH.\<close>

definition other_exts :: "tls_ext list \<Rightarrow> bool" where
  "other_exts es \<longleftrightarrow> (\<forall>e \<in> set es. fst e < 65536 \<and> fst e \<noteq> TLS_EXT_SERVER_NAME \<and> length (snd e) < 65536)"

definition has_ech :: "tls_ext list \<Rightarrow> bool" where
  "has_ech es \<longleftrightarrow> (\<exists>e \<in> set es. fst e = TLS_EXT_ECH)"

lemma has_ech_append [simp]: "has_ech (es @ fs) \<longleftrightarrow> has_ech es \<or> has_ech fs"
  by (auto simp: has_ech_def)

lemma sni_walk_others:
  assumes "drop (ew_off st) buf = enc_exts es @ r" "other_exts es"
    and "ew_off st + length (enc_exts es) \<le> ext_end" "ext_end \<le> len" "len \<le> TLS_SNI_BUF_LEN"
  shows "sni_walk (length es + k) buf len ext_end st
    = sni_walk k buf len ext_end
        (st\<lparr>ew_ech := ew_ech st \<or> has_ech es, ew_off := ew_off st + length (enc_exts es)\<rparr>)"
  using assms(1,2,3)
proof (induction es arbitrary: st)
  case Nil
  then show ?case by (simp add: enc_exts_def has_ech_def)
next
  case (Cons e es)
  let ?o = "ew_off st"
  have d1: "drop ?o buf = enc16 (fst e) @ enc16 (length (snd e)) @ snd e @ enc_exts es @ r"
    using Cons.prems(1) by (simp add: enc_exts_def enc_ext_def)
  have d2: "drop (?o + 2) buf = enc16 (length (snd e)) @ snd e @ enc_exts es @ r"
    using advance [OF d1] by simp
  have d3: "drop (?o + 4 + length (snd e)) buf = enc_exts es @ r"
    using advance [OF advance [OF d2, simplified]] by (simp add: eval_nat_numeral)
  have b: "?o + 4 + length (snd e) + length (enc_exts es) \<le> ext_end"
    using Cons.prems(3) by (simp add: length_enc_exts_Cons)
  have e: "fst e < 65536" "fst e \<noteq> TLS_EXT_SERVER_NAME" "length (snd e) < 65536" "other_exts es"
    using Cons.prems(2) by (auto simp: other_exts_def)
  have ty: "sni_rd16 buf ?o = fst e"
    using rd16_enc16 [OF d1 e(1)] b assms(4,5) by simp
  have le: "sni_rd16 buf (?o + 2) = length (snd e)"
    using rd16_enc16 [OF d2 e(3)] b assms(4,5) by simp
  let ?st = "st\<lparr>ew_ech := ew_ech st \<or> fst e = TLS_EXT_ECH, ew_off := ?o + 4 + length (snd e)\<rparr>"
  have "sni_walk (length (e # es) + k) buf len ext_end st = sni_walk (length es + k) buf len ext_end ?st"
    using b assms(4) e(2) ty le by (cases "fst e = TLS_EXT_ECH"; cases st) (simp_all add: Let_def)
  also have "\<dots> = sni_walk k buf len ext_end
      (?st\<lparr>ew_ech := ew_ech ?st \<or> has_ech es, ew_off := ew_off ?st + length (enc_exts es)\<rparr>)"
    by (rule Cons.IH) (use d3 b e(4) in simp_all)
  finally show ?case
    by (simp add: length_enc_exts_Cons has_ech_def add.assoc)
qed

lemma sni_walk_end: "ext_end \<le> ew_off st \<Longrightarrow> sni_walk k buf len ext_end st = Inr st"
  by (cases k) simp_all

text \<open>The server name extension: the walk notes where its name is.\<close>

lemma sni_walk_server_name:
  assumes "drop (ew_off st) buf = enc_ext (sni_ext name) @ r" "\<not> ew_found st"
    and "name \<noteq> []" "length name < MAX_HOST_LEN"
    and "ew_off st + 9 + length name \<le> ext_end" "ext_end \<le> len" "len \<le> TLS_SNI_BUF_LEN"
  shows "sni_walk (Suc k) buf len ext_end st
    = sni_walk k buf len ext_end
        (st\<lparr>ew_n := length name, ew_name_off := ew_off st + 9, ew_found := True,
           ew_off := ew_off st + 9 + length name\<rparr>)"
proof -
  let ?o = "ew_off st" and ?n = "length name"
  have n: "?n < 64" using assms(4) by (simp add: MAX_HOST_LEN_def)
  have d1: "drop ?o buf = enc16 0 @ enc16 (?n + 5) @ enc16 (?n + 3) @ [0] @ enc16 ?n @ name @ r"
    using assms(1) by (simp add: enc_ext_def sni_ext_def TLS_EXT_SERVER_NAME_def eval_nat_numeral)
  have d2: "drop (?o + 2) buf = enc16 (?n + 5) @ enc16 (?n + 3) @ [0] @ enc16 ?n @ name @ r"
    using advance [OF d1] by simp
  have d3: "drop (?o + 4) buf = enc16 (?n + 3) @ [0] @ enc16 ?n @ name @ r"
    using advance [OF d2] by (simp add: eval_nat_numeral)
  have d4: "drop (?o + 6) buf = [0] @ enc16 ?n @ name @ r"
    using advance [OF d3] by (simp add: eval_nat_numeral)
  have d5: "drop (?o + 7) buf = enc16 ?n @ name @ r"
    using advance [OF d4] by (simp add: eval_nat_numeral)
  have b: "?o + 9 < TLS_SNI_BUF_LEN" using assms(3,5,6,7) by (cases name) auto
  have v: "sni_rd16 buf ?o = 0" "sni_rd16 buf (?o + 2) = ?n + 5" "sni_rd16 buf (?o + 4) = ?n + 3"
    "buf ! sni_idx (?o + 6) = 0" "sni_rd16 buf (?o + 7) = ?n"
    using rd16_enc16 [OF d1] rd16_enc16 [OF d2] rd16_enc16 [OF d3] nth_via_drop [OF d4 [simplified]]
      rd16_enc16 [OF d5] n b
    by (simp_all add: sni_idx_def)
  have s: "?o + 4 + 2 = ?o + 6" "?o + 4 + 3 = ?o + 7" "?o + 4 + 5 = ?o + 9" by simp_all
  show ?thesis
    using assms(2,3,4,5,6) n
    unfolding sni_walk.simps Let_def s v
    by (simp add: TLS_EXT_SERVER_NAME_def TLS_EXT_ECH_def s v ac_simps)
qed

section \<open>The copy of an accepted name\<close>

lemma sni_copy_accepts:
  assumes "\<forall>i < n. sni_host_char_ok (lower (buf ! sni_idx (off + i)))"
  shows "fst (sni_copy k j buf off n out)"
  using assms by (induction k arbitrary: j out) (auto simp: Let_def)

lemma sni_finish_found:
  assumes "\<not> ew_ech st" "\<not> ew_truncated st" "ext_end \<le> ew_off st" "ew_found st"
    and "ew_n st = length name" "name \<noteq> []" "length name < MAX_HOST_LEN"
    and "drop (ew_name_off st) buf = name @ r" "ew_name_off st + length name \<le> TLS_SNI_BUF_LEN"
    and "\<forall>c \<in> set name. sni_host_char_ok (lower c)"
  defines "h \<equiv> strip_dot (map lower name)"
  shows "sni_finish buf ext_end (replicate MAX_HOST_LEN 0) st
    = (if h = [] then (SNI_STATUS_MALFORMED, pad_host [], 0) else (SNI_STATUS_SEEN, pad_host h, length h))"
proof -
  have b: "buf ! sni_idx (ew_name_off st + i) = name ! i" if "i < length name" for i
  proof -
    have "drop (ew_name_off st) buf ! i = name ! i" using that by (simp add: assms(8) nth_append)
    moreover have "drop (ew_name_off st) buf \<noteq> []" using assms(6,8) by simp
    ultimately show ?thesis using that assms(9) by (simp add: sni_idx_def)
  qed
  then have n: "map (\<lambda>i. lower (buf ! sni_idx (ew_name_off st + i))) [0..<length name] = map lower name"
    by (intro nth_equalityI) auto
  have "fst (sni_copy MAX_HOST_LEN 0 buf (ew_name_off st) (length name) (replicate MAX_HOST_LEN 0))"
    using b assms(10) by (intro sni_copy_accepts) auto
  then obtain out where c: "sni_copy MAX_HOST_LEN 0 buf (ew_name_off st) (length name)
      (replicate MAX_HOST_LEN 0) = (True, out)"
    by (metis prod.collapse)
  then have out: "out = pad_host (map lower name)"
    using sni_copy_zeroed(1) [OF c assms(7)] n by simp
  have g: "map lower name \<noteq> []" "length (map lower name) < MAX_HOST_LEN"
    using assms(6,7) by auto
  have d: "sni_finish buf ext_end (replicate MAX_HOST_LEN 0) st
      = (let h1 = pad_host (map lower name);
             dot = h1 ! ((length (map lower name) - 1) mod MAX_HOST_LEN) = 0x2E;
             h2 = (if dot then h1[(length (map lower name) - 1) mod MAX_HOST_LEN := 0] else h1);
             n2 = (if dot then length (map lower name) - 1 else length (map lower name))
         in if n2 = 0 then (SNI_STATUS_MALFORMED, h2, 0) else (SNI_STATUS_SEEN, h2, n2))"
    using assms(1-5) c unfolding sni_finish_def out by (simp add: Let_def split del: if_split cong: if_cong)
  show ?thesis
    unfolding d Let_def strip_dot_padded [OF g] h_def [symmetric] by simp
qed

section \<open>The fixed part of the message\<close>

lemma drop_hello_body:
  assumes "buf = client_hello minor rnd sid ciphers compr exts" "length rnd = 34"
  shows "drop 43 buf = of_nat (length sid) # sid @ enc16 (length ciphers) @ ciphers
    @ [of_nat (length compr)] @ compr @ enc16 (length exts) @ exts"
proof -
  have "buf = ([0x16, 3, minor] @ enc16 (length (hello_body rnd sid ciphers compr exts) + 4) @ [1, 0]
      @ enc16 (length (hello_body rnd sid ciphers compr exts)) @ rnd)
      @ of_nat (length sid) # sid @ enc16 (length ciphers) @ ciphers
      @ [of_nat (length compr)] @ compr @ enc16 (length exts) @ exts"
    by (simp add: assms(1) client_hello_def Let_def hello_body_def)
  then show ?thesis using assms(2) by simp
qed

text \<open>On a whole, well-formed ClientHello the parse is the walk of its extensions.\<close>

lemma parse_client_hello:
  assumes "buf = client_hello minor rnd sid ciphers compr exts"
    and "length rnd = 34" "length sid < 256" "length compr < 256"
    and "length buf \<le> TLS_SNI_BUF_LEN"
  shows "\<exists>off. drop off buf = exts \<and> off + length exts = length buf
    \<and> tls_parse_sni buf (length buf) out = sni_extensions buf (length buf) (length buf) off out"
proof -
  let ?body = "hello_body rnd sid ciphers compr exts"
  have lb: "length buf = 9 + length ?body"
    by (simp add: assms(1) client_hello_def Let_def)
  then have body: "length ?body = 34 + 1 + length sid + 2 + length ciphers + 1 + length compr + 2 + length exts"
    using assms(2) by (simp add: hello_body_def)
  have small: "length ?body + 4 < 65536" "length buf \<le> 2048"
    using lb assms(5) by (auto simp: TLS_SNI_BUF_LEN_def)
  have h: "buf ! 0 = 0x16" "buf ! 1 = 3" "buf ! 5 = 1" "buf ! 6 = 0"
    by (simp_all add: assms(1) client_hello_def Let_def enc16_def)
  have d3: "drop 3 buf = enc16 (length ?body + 4) @ [1, 0] @ enc16 (length ?body) @ ?body"
    by (simp add: assms(1) client_hello_def Let_def)
  have d7: "drop 7 buf = enc16 (length ?body) @ ?body"
    by (simp add: assms(1) client_hello_def Let_def enc16_def)
  note d43 = drop_hello_body [OF assms(1,2)]
  define p1 p2 p3 where "p1 = 44 + length sid" and "p2 = p1 + 2 + length ciphers"
    and "p3 = p2 + 1 + length compr"
  have e1: "drop p1 buf = enc16 (length ciphers) @ ciphers @ [of_nat (length compr)] @ compr
      @ enc16 (length exts) @ exts"
    using advance [of 43 buf "of_nat (length sid) # sid"] d43 by (simp add: p1_def)
  have e2: "drop p2 buf = of_nat (length compr) # compr @ enc16 (length exts) @ exts"
    using advance [of p1 buf "enc16 (length ciphers) @ ciphers"] e1 by (simp add: p2_def add.assoc)
  have e3: "drop p3 buf = enc16 (length exts) @ exts"
    using advance [of p2 buf "of_nat (length compr) # compr"] e2 by (simp add: p3_def add.assoc)
  have e4: "drop (p3 + 2) buf = exts"
    using advance [OF e3] by simp
  have L: "p3 + 2 + length exts = length buf" "length buf = 9 + length ?body"
    using lb body by (auto simp: p1_def p2_def p3_def)
  have r: "sni_rd16 buf 3 = length ?body + 4" "sni_rd16 buf 7 = length ?body"
    "unat (buf ! sni_idx 43) = length sid" "sni_rd16 buf p1 = length ciphers"
    "unat (buf ! sni_idx p2) = length compr" "sni_rd16 buf p3 = length exts"
    using rd16_enc16 [OF d3 small(1)] rd16_enc16 [OF d7] rd8_enc [OF d43 assms(3)]
      rd16_enc16 [OF e1] rd8_enc [OF e2 assms(4)] rd16_enc16 [OF e3] small L body
    by (simp_all add: TLS_SNI_BUF_LEN_def p1_def p2_def p3_def)
  have p: "43 + (1 + length sid) = p1" "p1 + (2 + length ciphers) = p2" "p2 + (1 + length compr) = p3"
    by (simp_all add: p1_def p2_def p3_def)
  have m: "(if length buf > TLS_SNI_BUF_LEN then TLS_SNI_BUF_LEN else length buf) = length buf"
    using assms(5) by simp
  have g: "43 + 1 \<le> length buf" "p1 + 2 \<le> length buf" "p2 + 1 \<le> length buf" "p3 + 2 \<le> length buf"
    "9 \<le> length buf"
    using L by (auto simp: p1_def p2_def p3_def)
  have o: "9 + 2 + 32 = (43 :: nat)" "43 + (1 + unat (buf ! sni_idx 43)) = p1"
    "p1 + (2 + sni_rd16 buf p1) = p2" "p2 + (1 + unat (buf ! sni_idx p2)) = p3"
    using p by (simp_all only: r)
  have q: "9 + (65536 * unat (buf ! 6) + sni_rd16 buf 7) = length buf" "5 + sni_rd16 buf 3 = length buf"
    "p3 + 2 + sni_rd16 buf p3 = length buf" "p3 \<le> length buf" "p3 \<noteq> length buf"
    using h L r by simp_all
  have t: "buf ! 0 = TLS_CT_HANDSHAKE" "buf ! 1 = 0x03" "buf ! 5 = 0x01"
    using h by (simp_all add: tls_consts)
  have "tls_parse_sni buf (length buf) out
      = (if p3 = length buf then (SNI_STATUS_ABSENT, out, 0)
         else sni_extensions buf (length buf) (length buf) (p3 + 2) out)"
    unfolding tls_parse_sni_def m Let_def o q t
    using g q(4,5) by (simp only: not_less [symmetric]) auto
  then have "tls_parse_sni buf (length buf) out
      = sni_extensions buf (length buf) (length buf) (p3 + 2) out"
    using L by simp
  with e4 L show ?thesis by blast
qed

section \<open>The parse of an encoded ClientHello\<close>

lemma enc_exts_append [simp]: "enc_exts (es @ fs) = enc_exts es @ enc_exts fs"
  by (simp add: enc_exts_def)

lemma enc_exts_Cons [simp]: "enc_exts (e # es) = enc_ext e @ enc_exts es"
  by (simp add: enc_exts_def)

text \<open>The names a client may send: up to 63 host name bytes, in either case.\<close>

definition name_ok :: "bytes \<Rightarrow> bool" where
  "name_ok name \<longleftrightarrow> name \<noteq> [] \<and> length name < MAX_HOST_LEN
     \<and> (\<forall>c \<in> set name. sni_host_char_ok (lower c))"

lemma sni_walk_named:
  assumes d: "drop off buf = enc_exts (es @ sni_ext name # fs)"
    and l: "off + length (enc_exts (es @ sni_ext name # fs)) = length buf" "length buf \<le> TLS_SNI_BUF_LEN"
    and o: "other_exts es" "other_exts fs"
    and k: "length es + length fs < TLS_SNI_MAX_EXTS" and n: "name_ok name"
  shows "\<exists>o1. drop o1 buf = name @ enc_exts fs \<and> o1 + length name \<le> length buf
    \<and> sni_walk TLS_SNI_MAX_EXTS buf (length buf) (length buf)
        \<lparr>ew_off = off, ew_ech = False, ew_found = False, ew_truncated = False, ew_n = 0, ew_name_off = 0\<rparr>
      = Inr \<lparr>ew_off = length buf, ew_ech = has_ech (es @ fs), ew_found = True, ew_truncated = False,
             ew_n = length name, ew_name_off = o1\<rparr>"
proof -
  let ?st0 = "\<lparr>ew_off = off, ew_ech = False, ew_found = False, ew_truncated = False,
              ew_n = 0, ew_name_off = 0\<rparr>"
  define o1 where "o1 = off + length (enc_exts es)"
  define st1 where "st1 = \<lparr>ew_off = o1, ew_ech = has_ech es, ew_found = False, ew_truncated = False,
              ew_n = 0, ew_name_off = 0\<rparr>"
  define st2 where "st2 = \<lparr>ew_off = o1 + 9 + length name, ew_ech = has_ech es, ew_found = True,
      ew_truncated = False, ew_n = length name, ew_name_off = o1 + 9\<rparr>"
  obtain j where j: "TLS_SNI_MAX_EXTS = length es + (Suc (length fs + j))"
    using k less_iff_Suc_add by (metis add.assoc add_Suc_right)
  have le: "length (enc_ext (sni_ext name)) = 9 + length name"
    by (simp add: enc_ext_def sni_ext_def)
  have d1: "drop o1 buf = enc_ext (sni_ext name) @ enc_exts fs"
    using advance [of off buf "enc_exts es"] d by (simp add: o1_def)
  have d2: "drop (o1 + 9 + length name) buf = enc_exts fs"
    using advance [OF d1] le by (simp add: add.assoc)
  have d9: "drop (o1 + 9) buf = name @ enc_exts fs"
    using advance [of o1 buf "enc16 TLS_EXT_SERVER_NAME @ enc16 (length name + 5)
        @ enc16 (length name + 3) @ [0] @ enc16 (length name)"] d1
    by (simp add: enc_ext_def sni_ext_def eval_nat_numeral)
  have b: "o1 + 9 + length name + length (enc_exts fs) = length buf"
    using l(1) le by (simp add: o1_def)
  have "sni_walk TLS_SNI_MAX_EXTS buf (length buf) (length buf) ?st0
      = sni_walk (Suc (length fs + j)) buf (length buf) (length buf) st1"
    unfolding j
    by (subst sni_walk_others [where r = "enc_ext (sni_ext name) @ enc_exts fs"])
      (use d b l(2) o in \<open>simp_all add: o1_def st1_def del: sni_walk.simps\<close>)
  also have "\<dots> = sni_walk (length fs + j) buf (length buf) (length buf) st2"
    by (subst sni_walk_server_name [where name = name and r = "enc_exts fs"])
      (use d1 b l(2) n in \<open>simp_all add: name_ok_def st1_def st2_def del: sni_walk.simps\<close>)
  also have "\<dots> = sni_walk j buf (length buf) (length buf)
      (st2\<lparr>ew_ech := has_ech (es @ fs), ew_off := length buf\<rparr>)"
    by (subst sni_walk_others [where r = "[]"])
      (use d2 b l(2) o in \<open>simp_all add: st2_def del: sni_walk.simps\<close>)
  also have "\<dots> = Inr (st2\<lparr>ew_ech := has_ech (es @ fs), ew_off := length buf\<rparr>)"
    by (rule sni_walk_end) simp
  finally show ?thesis
    using d9 b by (intro exI [of _ "o1 + 9"]) (simp add: st2_def)
qed

lemma sni_extensions_named:
  assumes "drop off buf = enc_exts (es @ sni_ext name # fs)"
    and "off + length (enc_exts (es @ sni_ext name # fs)) = length buf" "length buf \<le> TLS_SNI_BUF_LEN"
    and "other_exts es" "other_exts fs"
    and "length es + length fs < TLS_SNI_MAX_EXTS" and n: "name_ok name"
  defines "h \<equiv> strip_dot (map lower name)"
  shows "sni_extensions buf (length buf) (length buf) off (replicate MAX_HOST_LEN 0)
    = (if has_ech (es @ fs) then (SNI_STATUS_ECH, pad_host [], 0)
       else if h = [] then (SNI_STATUS_MALFORMED, pad_host [], 0)
       else (SNI_STATUS_SEEN, pad_host h, length h))"
proof -
  obtain o1 where o1: "drop o1 buf = name @ enc_exts fs" "o1 + length name \<le> length buf"
    and w: "sni_walk TLS_SNI_MAX_EXTS buf (length buf) (length buf)
        \<lparr>ew_off = off, ew_ech = False, ew_found = False, ew_truncated = False, ew_n = 0, ew_name_off = 0\<rparr>
      = Inr \<lparr>ew_off = length buf, ew_ech = has_ech (es @ fs), ew_found = True, ew_truncated = False,
             ew_n = length name, ew_name_off = o1\<rparr>"
    using sni_walk_named [OF assms(1-7)] by blast
  show ?thesis
  proof (cases "has_ech (es @ fs)")
    case True
    then show ?thesis
      unfolding sni_extensions_def w by (simp add: sni_finish_def pad_host_def)
  next
    case False
    then show ?thesis
      unfolding sni_extensions_def w sum.case h_def
      by (subst sni_finish_found [where r = "enc_exts fs" and name = name])
        (use n o1 assms(3) in \<open>auto simp: name_ok_def\<close>)
  qed
qed

lemma sni_extensions_others:
  assumes d: "drop off buf = enc_exts es"
    and l: "off + length (enc_exts es) = length buf" "length buf \<le> TLS_SNI_BUF_LEN"
    and o: "other_exts es" and k: "length es \<le> TLS_SNI_MAX_EXTS"
  shows "sni_extensions buf (length buf) (length buf) off out
    = (if has_ech es then SNI_STATUS_ECH else SNI_STATUS_ABSENT, out, 0)"
proof -
  let ?st0 = "\<lparr>ew_off = off, ew_ech = False, ew_found = False, ew_truncated = False,
              ew_n = 0, ew_name_off = 0\<rparr>"
  obtain j where j: "TLS_SNI_MAX_EXTS = length es + j"
    using k le_iff_add by blast
  have "sni_walk TLS_SNI_MAX_EXTS buf (length buf) (length buf) ?st0
      = sni_walk j buf (length buf) (length buf) (?st0\<lparr>ew_ech := has_ech es, ew_off := length buf\<rparr>)"
    unfolding j using sni_walk_others [where st = ?st0 and es = es and buf = buf and r = "[]"] d l o
    by simp
  also have "\<dots> = Inr (?st0\<lparr>ew_ech := has_ech es, ew_off := length buf\<rparr>)"
    by (rule sni_walk_end) simp
  finally show ?thesis
    by (simp add: sni_extensions_def sni_finish_def)
qed

text \<open>The shape every whole ClientHello below has.\<close>

definition hello_ok :: "bytes \<Rightarrow> bytes \<Rightarrow> bytes \<Rightarrow> bytes \<Rightarrow> bool" where
  "hello_ok buf rnd sid compr \<longleftrightarrow>
     length rnd = 34 \<and> length sid < 256 \<and> length compr < 256 \<and> length buf \<le> TLS_SNI_BUF_LEN"

lemmas hello_defs = hello_ok_def name_ok_def other_exts_def has_ech_def client_hello_def hello_body_def
  enc_exts_def enc_ext_def enc16_def sni_ext_def TLS_SNI_BUF_LEN_def TLS_SNI_MAX_EXTS_def MAX_HOST_LEN_def
  TLS_EXT_SERVER_NAME_def TLS_EXT_ECH_def sni_host_char_ok_def lower_def

lemma tls_parse_sni_named:
  assumes "buf = client_hello minor rnd sid ciphers compr (enc_exts (es @ sni_ext name # fs))"
    and "hello_ok buf rnd sid compr" "name_ok name" "strip_dot (map lower name) \<noteq> []"
    and "other_exts es" "other_exts fs" "length es + length fs < TLS_SNI_MAX_EXTS"
  shows "tls_parse_sni buf (length buf) (replicate MAX_HOST_LEN 0)
    = (if has_ech (es @ fs) then (SNI_STATUS_ECH, replicate MAX_HOST_LEN 0, 0)
       else (SNI_STATUS_SEEN, pad_host (strip_dot (map lower name)), length (strip_dot (map lower name))))"
proof -
  obtain off where o: "drop off buf = enc_exts (es @ sni_ext name # fs)"
      "off + length (enc_exts (es @ sni_ext name # fs)) = length buf"
      "tls_parse_sni buf (length buf) (replicate MAX_HOST_LEN 0)
        = sni_extensions buf (length buf) (length buf) off (replicate MAX_HOST_LEN 0)"
    using parse_client_hello [OF assms(1)] assms(2) unfolding hello_ok_def by blast
  show ?thesis
    using sni_extensions_named [OF o(1,2) _ assms(5-7) assms(3)] assms(2,4)
    by (simp add: o(3) hello_ok_def pad_host_def)
qed

section \<open>Properties of the round trip\<close>

text \<open>
  C12: a whole ClientHello of at most 2048 bytes and 32 extensions whose server name extension
  carries a host name is parsed to exactly that name, lowercased and without its trailing dot,
  wherever the extension stands among the others and whatever the session id, ciphers and
  compression methods are; if any of the others is an encrypted ClientHello, the name is only
  the outer one and the parse reports ECH and no name.
\<close>

theorem tls_parse_sni_roundtrip:
  assumes "buf = client_hello minor rnd sid ciphers compr (enc_exts (es @ sni_ext name # fs))"
    and "hello_ok buf rnd sid compr" "name_ok name" "strip_dot (map lower name) \<noteq> []"
    and "other_exts es" "other_exts fs" "length es + length fs < TLS_SNI_MAX_EXTS"
  shows "tls_parse_sni buf (length buf) (replicate MAX_HOST_LEN 0)
    = (if has_ech (es @ fs) then (SNI_STATUS_ECH, replicate MAX_HOST_LEN 0, 0)
       else (SNI_STATUS_SEEN, pad_host (strip_dot (map lower name)), length (strip_dot (map lower name))))"
  using assms by (rule tls_parse_sni_named)

theorem tls_parse_sni_roundtrip_witness:
  "(let name = map of_nat [65, 80, 73, 46, 97, 105, 46] :: bytes;
        buf = client_hello 1 (replicate 34 7) [1, 2] [0x13, 1] [0] (enc_exts [(10, [0, 2, 0, 29]), sni_ext name])
    in tls_parse_sni buf (length buf) (replicate MAX_HOST_LEN 0)
       = (SNI_STATUS_SEEN, pad_host (map of_nat [97, 112, 105, 46, 97, 105]), 6))"
proof -
  let ?name = "map of_nat [65, 80, 73, 46, 97, 105, 46] :: bytes"
  let ?es = "[(10, [0, 2, 0, 29])] :: tls_ext list"
  have "hello_ok (client_hello 1 (replicate 34 7) [1, 2] [0x13, 1] [0] (enc_exts (?es @ sni_ext ?name # [])))
      (replicate 34 7) [1, 2] [0]" "name_ok ?name" "other_exts ?es" "other_exts []"
      "length ?es + length ([] :: tls_ext list) < TLS_SNI_MAX_EXTS" "\<not> has_ech (?es @ [])"
    by (simp_all add: hello_defs)
  moreover have "strip_dot (map lower ?name) = map of_nat [97, 112, 105, 46, 97, 105]"
    by (simp add: lower_def strip_dot_def)
  ultimately show ?thesis
    using tls_parse_sni_roundtrip [OF refl, of 1 "replicate 34 7" "[1, 2]" "[0x13, 1]" "[0]" ?es ?name "[]"]
    by (simp add: Let_def)
qed

text \<open>
  a whole ClientHello without a server name extension is reported as ECH when it offers an
  encrypted ClientHello and as having no name otherwise, and \<open>host_out\<close> is left untouched.
\<close>

theorem tls_parse_sni_unnamed:
  assumes "buf = client_hello minor rnd sid ciphers compr (enc_exts es)"
    and "hello_ok buf rnd sid compr" "other_exts es" "length es \<le> TLS_SNI_MAX_EXTS"
  shows "tls_parse_sni buf (length buf) out
    = (if has_ech es then SNI_STATUS_ECH else SNI_STATUS_ABSENT, out, 0)"
proof -
  obtain off where o: "drop off buf = enc_exts es" "off + length (enc_exts es) = length buf"
      "tls_parse_sni buf (length buf) out = sni_extensions buf (length buf) (length buf) off out"
    using parse_client_hello [OF assms(1)] assms(2) unfolding hello_ok_def by blast
  show ?thesis
    using sni_extensions_others [OF o(1,2) _ assms(3,4)] assms(2) by (simp add: o(3) hello_ok_def)
qed

theorem tls_parse_sni_unnamed_witness:
  "(let buf = client_hello 3 (replicate 34 7) [] [0x13, 1] [0] (enc_exts [(0xfe0d, [1, 2, 3]), (43, [])])
    in tls_parse_sni buf (length buf) (replicate MAX_HOST_LEN 0)
       = (SNI_STATUS_ECH, replicate MAX_HOST_LEN 0, 0))"
proof -
  let ?es = "[(0xfe0d, [1, 2, 3]), (43, [])] :: tls_ext list"
  have "hello_ok (client_hello 3 (replicate 34 7) [] [0x13, 1] [0] (enc_exts ?es)) (replicate 34 7) [] [0]"
      "other_exts ?es" "length ?es \<le> TLS_SNI_MAX_EXTS" "has_ech ?es"
    by (simp_all add: hello_defs)
  then show ?thesis
    using tls_parse_sni_unnamed [OF refl, of 3 "replicate 34 7" "[]" "[0x13, 1]" "[0]" ?es] by (simp add: Let_def)
qed

section \<open>Witnesses on a real ClientHello\<close>

definition example_hello :: bytes where
  "example_hello = client_hello 1 (replicate 34 7) [] [0x13, 1] [0] (enc_exts [sni_ext [65, 98, 46]])"

lemma example_hello_parse:
  "tls_parse_sni example_hello (length example_hello) (replicate MAX_HOST_LEN 0)
    = (SNI_STATUS_SEEN, pad_host [97, 98], 2)"
proof -
  have "hello_ok example_hello (replicate 34 7) [] [0]" "name_ok [65, 98, 46]" "other_exts []"
      "\<not> has_ech []" "strip_dot (map lower [65, 98, 46]) = [97, 98]"
    by (simp_all add: hello_defs example_hello_def strip_dot_def)
  then show ?thesis
    using tls_parse_sni_named [of example_hello 1 "replicate 34 7" "[]" "[0x13, 1]" "[0]" "[]" "[65, 98, 46]" "[]"]
    by (simp add: example_hello_def TLS_SNI_MAX_EXTS_def)
qed

theorem tls_parse_sni_reads_only_copied_witness:
  "tls_parse_sni (example_hello @ [1, 2]) 64 (replicate MAX_HOST_LEN 0)
    = tls_parse_sni (example_hello @ [3, 4, 5]) 64 (replicate MAX_HOST_LEN 0)"
  by (rule tls_parse_sni_reads_only_copied) (simp add: same_upto_def hello_defs example_hello_def)

theorem tls_parse_sni_seen_host_witness:
  "\<exists>h. pad_host [97, 98] = pad_host h \<and> host_ok h \<and> 2 = length h"
  using tls_parse_sni_seen_host [OF example_hello_parse] by auto

end
