(* ===== verification/Vip_Address.thy ===== *)
theory Vip_Address
  imports Text_Match
begin

text \<open>
  Virtual IP addresses of \<open>helpers.h\<close>: the branch-free address tests, the upstream table of a
  fake IP (\<open>vip_upstream_record\<close>, \<open>vip_upstream_pick\<close>) and the check of a secret's host, IP
  and port against a socket (\<open>vip_socket_check\<close>).

  An address is a list of 16 bytes.
\<close>

section \<open>The code: addresses\<close>

definition vip_addr_eq :: "bytes \<Rightarrow> bytes \<Rightarrow> bool" where
  "vip_addr_eq a b \<longleftrightarrow> fold (\<lambda>i diff. diff OR (a ! i XOR b ! i)) [0..<16] 0 = 0"

definition vip_addr_v4mapped :: "bytes \<Rightarrow> bool" where
  "vip_addr_v4mapped ip \<longleftrightarrow>
     fold (\<lambda>i diff. diff OR ip ! i) [0..<10] ((ip ! 10 XOR 0xff) OR (ip ! 11 XOR 0xff)) = 0"

definition vip_addr_unspecified :: "bytes \<Rightarrow> bool" where
  "vip_addr_unspecified ip \<longleftrightarrow>
     (let rest = fold (\<lambda>i r. r OR ip ! i) [0..<10] (ip ! 12 OR ip ! 13 OR ip ! 14 OR ip ! 15)
      in if rest \<noteq> 0 then False
         else (ip ! 10 OR ip ! 11) = 0 \<or> (ip ! 10 AND ip ! 11) = 0xff)"

definition vip_in_prefix6 :: "bytes \<Rightarrow> bytes \<Rightarrow> bytes \<Rightarrow> bool" where
  "vip_in_prefix6 net msk ip \<longleftrightarrow>
     (let (diff, any) = fold (\<lambda>i (diff, any). (diff OR ((ip ! i AND msk ! i) XOR net ! i), any OR msk ! i))
                          [0..<16] (0, 0)
      in diff = 0 \<and> any \<noteq> 0)"

section \<open>The code: upstreams\<close>

definition VIP_UPSTREAM_SLOTS :: nat where "VIP_UPSTREAM_SLOTS = 4"

record vip_upstream_slot =
  us_ip :: bytes
  us_expires_at :: u64

type_synonym vip_upstream_val = "vip_upstream_slot list"

text \<open>
  The loop of \<open>vip_upstream_record\<close> from slot \<open>i\<close> with \<open>n\<close> left: \<open>Inl\<close> is the early return, \<open>Inr\<close>
  the victim when no slot held the address.
\<close>

fun vip_record_loop ::
  "nat \<Rightarrow> nat \<Rightarrow> vip_upstream_val \<Rightarrow> bytes \<Rightarrow> u64 \<Rightarrow> nat \<Rightarrow> u64 \<Rightarrow> vip_upstream_val + nat" where
  "vip_record_loop 0 i v ip expires_at victim victim_exp = Inr victim"
| "vip_record_loop (Suc n) i v ip expires_at victim victim_exp =
     (let exp = us_expires_at (v ! i) in
      if exp \<noteq> 0 \<and> vip_addr_eq (us_ip (v ! i)) ip then
        Inl (if expires_at > exp then v[i := (v ! i)\<lparr>us_expires_at := expires_at\<rparr>] else v)
      else if exp < victim_exp then vip_record_loop n (Suc i) v ip expires_at i exp
      else vip_record_loop n (Suc i) v ip expires_at victim victim_exp)"

definition vip_upstream_record :: "vip_upstream_val \<Rightarrow> bytes \<Rightarrow> u64 \<Rightarrow> vip_upstream_val" where
  "vip_upstream_record v ip expires_at =
     (if expires_at = 0 \<or> vip_addr_unspecified ip then v
      else case vip_record_loop VIP_UPSTREAM_SLOTS 0 v ip expires_at 0 (- 1) of
             Inl v' \<Rightarrow> v'
           | Inr victim \<Rightarrow> v[victim mod VIP_UPSTREAM_SLOTS := \<lparr>us_ip = ip, us_expires_at = expires_at\<rparr>])"

text \<open>The first loop of \<open>vip_upstream_pick\<close>: \<open>n_live\<close>, \<open>newest\<close> and \<open>newest_exp\<close>.\<close>

definition vip_pick_count :: "vip_upstream_val \<Rightarrow> u64 \<Rightarrow> nat \<times> nat \<times> u64" where
  "vip_pick_count v now =
     fold (\<lambda>i (n_live, newest, newest_exp).
       let exp = us_expires_at (v ! i) in
       if exp = 0 then (n_live, newest, newest_exp)
       else let n_live' = (if exp > now then n_live + 1 else n_live)
            in if exp > newest_exp then (n_live', i, exp) else (n_live', newest, newest_exp))
     [0..<VIP_UPSTREAM_SLOTS] (0, VIP_UPSTREAM_SLOTS, 0)"

text \<open>The second loop: the \<open>k\<close>-th unexpired slot from slot \<open>i\<close> on, else \<open>pick\<close>.\<close>

fun vip_pick_kth :: "nat \<Rightarrow> nat \<Rightarrow> vip_upstream_val \<Rightarrow> u64 \<Rightarrow> nat \<Rightarrow> nat \<Rightarrow> nat" where
  "vip_pick_kth 0 i v now k pick = pick"
| "vip_pick_kth (Suc n) i v now k pick =
     (if us_expires_at (v ! i) \<le> now then vip_pick_kth n (Suc i) v now k pick
      else if k = 0 then i else vip_pick_kth n (Suc i) v now (k - 1) pick)"

definition vip_upstream_pick :: "vip_upstream_val \<Rightarrow> u64 \<Rightarrow> u32 \<Rightarrow> bytes option" where
  "vip_upstream_pick v now rnd =
     (let (n_live, newest, newest_exp) = vip_pick_count v now in
      if newest = VIP_UPSTREAM_SLOTS then None
      else let pick = (if n_live > 0 then vip_pick_kth VIP_UPSTREAM_SLOTS 0 v now (unat rnd mod n_live) newest
                       else newest)
           in Some (us_ip (v ! (pick mod VIP_UPSTREAM_SLOTS))))"

section \<open>The code: a secret's restrictions on a socket\<close>

datatype vip_sock_result = VIP_SOCK_OK | VIP_SOCK_DENY_HOST | VIP_SOCK_DENY_ADDR

definition vip_socket_check ::
  "bytes option \<Rightarrow> u32 \<Rightarrow> bytes \<Rightarrow> u32 \<Rightarrow> bytes \<Rightarrow> bytes \<Rightarrow> u16 \<Rightarrow> u16 \<Rightarrow> vip_sock_result" where
  "vip_socket_check sock_host host_len allowed_host iplen allowed_ip daddr16 port dport =
     (if host_len > 0 \<and> host_len < of_nat MAX_HOST_LEN
         \<and> (case sock_host of None \<Rightarrow> True | Some h \<Rightarrow> \<not> hosts_match h allowed_host)
      then VIP_SOCK_DENY_HOST
      else if iplen = 16 \<and> take 16 daddr16 \<noteq> take 16 allowed_ip then VIP_SOCK_DENY_ADDR
      else if port \<noteq> 0 \<and> dport \<noteq> port then VIP_SOCK_DENY_ADDR
      else VIP_SOCK_OK)"

section \<open>What the address tests decide\<close>

lemma or_eq_0: "(a :: u8) OR b = 0 \<longleftrightarrow> a = 0 \<and> b = 0"
  by (auto simp: bit_eq_iff bit_simps)

lemma xor_eq_0: "(a :: u8) XOR b = 0 \<longleftrightarrow> a = b"
  by (auto simp: bit_eq_iff bit_simps)

lemma fold_or_eq_0: "fold (\<lambda>i d. d OR f i) is (d :: u8) = 0 \<longleftrightarrow> d = 0 \<and> (\<forall>i \<in> set is. f i = 0)"
  by (induction "is" arbitrary: d) (auto simp: or_eq_0)

lemma vip_addr_eq_iff: "length a = 16 \<Longrightarrow> length b = 16 \<Longrightarrow> vip_addr_eq a b \<longleftrightarrow> a = b"
  by (auto simp: vip_addr_eq_def fold_or_eq_0 xor_eq_0 intro: nth_equalityI)

lemma vip_addr_v4mapped_iff:
  assumes "length ip = 16"
  shows "vip_addr_v4mapped ip \<longleftrightarrow> (\<exists>a. length a = 4 \<and> ip = replicate 10 0 @ [0xff, 0xff] @ a)"
proof
  assume "vip_addr_v4mapped ip"
  then have v: "ip ! 10 = 0xff" "ip ! 11 = 0xff" "\<forall>i < 10. ip ! i = 0"
    by (auto simp: vip_addr_v4mapped_def fold_or_eq_0 or_eq_0 xor_eq_0)
  have "ip ! i = (replicate 10 0 @ [0xff, 0xff] @ drop 12 ip) ! i" if "i < 16" for i
  proof -
    have "i < 10 \<or> i = 10 \<or> i = 11 \<or> 12 \<le> i" by arith
    then show ?thesis using v assms that by (auto simp: nth_append)
  qed
  then have "ip = replicate 10 0 @ [0xff, 0xff] @ drop 12 ip"
    using assms by (intro nth_equalityI) auto
  then show "\<exists>a. length a = 4 \<and> ip = replicate 10 0 @ [0xff, 0xff] @ a"
    using assms by (intro exI [of _ "drop 12 ip"]) simp
next
  assume "\<exists>a. length a = 4 \<and> ip = replicate 10 0 @ [0xff, 0xff] @ a"
  then show "vip_addr_v4mapped ip"
    by (auto simp: vip_addr_v4mapped_def fold_or_eq_0 nth_append)
qed

lemma vip_addr_unspecified_iff:
  assumes "length ip = 16"
  shows "vip_addr_unspecified ip \<longleftrightarrow>
    ip = replicate 16 0 \<or> ip = replicate 10 0 @ [0xff, 0xff] @ replicate 4 0"
proof -
  have a: "(a :: u8) AND b = 0xff \<longleftrightarrow> a = 0xff \<and> b = 0xff" for a b
  proof
    assume h: "a AND b = 0xff"
    have "a = a OR (a AND b)" "b = b OR (a AND b)" by (rule bit_eqI, auto simp: bit_simps)+
    moreover have "c OR 0xff = (0xff :: u8)" for c
    proof -
      have "(0xff :: u8) = - 1" by simp
      then show ?thesis by (simp only:) (rule bit_eqI, simp add: bit_or_iff)
    qed
    ultimately show "a = 0xff \<and> b = 0xff" using h by metis
  qed simp
  have z: "vip_addr_unspecified ip \<longleftrightarrow> (\<forall>i < 10. ip ! i = 0) \<and> (\<forall>i \<in> {12..15}. ip ! i = 0)
      \<and> (ip ! 10 = 0 \<and> ip ! 11 = 0 \<or> ip ! 10 = 0xff \<and> ip ! 11 = 0xff)"
  proof -
    have i: "(\<forall>i \<in> {12..15}. ip ! i = 0) \<longleftrightarrow> ip ! 12 = 0 \<and> ip ! 13 = 0 \<and> ip ! 14 = 0 \<and> ip ! 15 = 0"
    proof -
      have "{12..15} = {12, 13, 14, 15 :: nat}" by auto
      then show ?thesis by simp
    qed
    show ?thesis
      unfolding vip_addr_unspecified_def Let_def i
      by (auto simp: fold_or_eq_0 or_eq_0 a)
  qed
  have n: "ip = replicate 10 0 @ [x, y] @ replicate 4 0 \<longleftrightarrow> (\<forall>i < 10. ip ! i = 0) \<and> (\<forall>i \<in> {12..15}. ip ! i = 0)
      \<and> ip ! 10 = x \<and> ip ! 11 = y" for x y
  proof
    assume e: "ip = replicate 10 0 @ [x, y] @ replicate 4 0"
    show "(\<forall>i < 10. ip ! i = 0) \<and> (\<forall>i \<in> {12..15}. ip ! i = 0) \<and> ip ! 10 = x \<and> ip ! 11 = y"
      unfolding e by (auto simp: nth_append)
  next
    assume h: "(\<forall>i < 10. ip ! i = 0) \<and> (\<forall>i \<in> {12..15}. ip ! i = 0) \<and> ip ! 10 = x \<and> ip ! 11 = y"
    show "ip = replicate 10 0 @ [x, y] @ replicate 4 0"
    proof (rule nth_equalityI)
      fix i assume i: "i < length ip"
      then have "i < 10 \<or> i = 10 \<or> i = 11 \<or> i \<in> {12..15}" using assms by auto
      then show "ip ! i = (replicate 10 0 @ [x, y] @ replicate 4 0) ! i"
        using h by (auto simp: nth_append)
    qed (simp add: assms)
  qed
  have r: "replicate 16 0 = replicate 10 (0 :: u8) @ [0, 0] @ replicate 4 0"
    by (simp add: eval_nat_numeral)
  show ?thesis unfolding z r n by auto
qed

lemma vip_in_prefix6_iff:
  "vip_in_prefix6 net msk ip \<longleftrightarrow> (\<forall>i < 16. ip ! i AND msk ! i = net ! i) \<and> (\<exists>i < 16. msk ! i \<noteq> 0)"
proof -
  have f: "fold (\<lambda>i (diff, any). (diff OR ((ip ! i AND msk ! i) XOR net ! i), any OR msk ! i)) is (d, y)
      = (fold (\<lambda>i d. d OR ((ip ! i AND msk ! i) XOR net ! i)) is d, fold (\<lambda>i y. y OR msk ! i) is y)" for "is" d y
    by (induction "is" arbitrary: d y) auto
  show ?thesis
    unfolding vip_in_prefix6_def f Let_def prod.case by (auto simp: fold_or_eq_0 xor_eq_0)
qed

section \<open>The upstream table\<close>

text \<open>Four slots, no address twice; \<open>us_holds\<close>: a slot in use holds the address.\<close>

definition us_holds :: "vip_upstream_val \<Rightarrow> bytes \<Rightarrow> bool" where
  "us_holds v a \<longleftrightarrow> (\<exists>s \<in> set v. us_expires_at s \<noteq> 0 \<and> us_ip s = a)"

definition us_wf :: "vip_upstream_val \<Rightarrow> bool" where
  "us_wf v \<longleftrightarrow> length v = 4 \<and> (\<forall>s \<in> set v. length (us_ip s) = 16)
     \<and> (\<forall>i < 4. \<forall>j < 4. us_expires_at (v ! i) \<noteq> 0 \<longrightarrow> us_expires_at (v ! j) \<noteq> 0 \<longrightarrow>
          us_ip (v ! i) = us_ip (v ! j) \<longrightarrow> i = j)"

lemma us_holds_nth: "length v = 4 \<Longrightarrow> us_holds v a \<longleftrightarrow> (\<exists>i < 4. us_expires_at (v ! i) \<noteq> 0 \<and> us_ip (v ! i) = a)"
  unfolding us_holds_def set_conv_nth by auto

lemma us_wf_ip: "us_wf v \<Longrightarrow> i < 4 \<Longrightarrow> length (us_ip (v ! i)) = 16"
  by (auto simp: us_wf_def)

lemma vip_record_loop_spec:
  assumes "us_wf v" "length ip = 16" "i + n = 4" "victim < 4"
    and "victim_exp = us_expires_at (v ! victim) \<or> victim_exp = - 1"
    and "\<forall>j < i. victim_exp \<le> us_expires_at (v ! j)"
    and "\<forall>j < i. \<not> (us_expires_at (v ! j) \<noteq> 0 \<and> us_ip (v ! j) = ip)"
  shows "case vip_record_loop n i v ip e victim victim_exp of
      Inl v' \<Rightarrow> \<exists>j < 4. us_expires_at (v ! j) \<noteq> 0 \<and> us_ip (v ! j) = ip
        \<and> v' = v[j := (v ! j)\<lparr>us_expires_at := max (us_expires_at (v ! j)) e\<rparr>]
    | Inr w \<Rightarrow> w < 4 \<and> (\<forall>j < 4. us_expires_at (v ! w) \<le> us_expires_at (v ! j)) \<and> \<not> us_holds v ip"
  using assms(3-7)
proof (induction n arbitrary: i victim victim_exp)
  case 0
  have l: "length v = 4" using assms(1) by (simp add: us_wf_def)
  have "us_expires_at (v ! victim) \<le> us_expires_at (v ! j)" if "j < 4" for j
  proof (cases "victim_exp = - 1")
    case True
    then have "us_expires_at (v ! j) = - 1" using 0 that by (simp add: word_order.extremum_unique)
    then show ?thesis by simp
  next
    case False
    then show ?thesis using 0 that by simp
  qed
  moreover have "\<not> us_holds v ip" using 0 l by (simp add: us_holds_nth)
  ultimately show ?case using 0 by simp
next
  case (Suc n)
  have i: "i < 4" using Suc.prems(1) by simp
  let ?e = "us_expires_at (v ! i)"
  have m: "vip_addr_eq (us_ip (v ! i)) ip \<longleftrightarrow> us_ip (v ! i) = ip"
    using vip_addr_eq_iff us_wf_ip [OF assms(1) i] assms(2) by simp
  show ?case
  proof (cases "?e \<noteq> 0 \<and> us_ip (v ! i) = ip")
    case True
    have "(if e > ?e then v[i := (v ! i)\<lparr>us_expires_at := e\<rparr>] else v)
        = v[i := (v ! i)\<lparr>us_expires_at := max ?e e\<rparr>]"
      by (cases "?e < e") (auto simp: max_def)
    then show ?thesis using True i m by (auto simp: Let_def)
  next
    case False
    show ?thesis
    proof (cases "?e < victim_exp")
      case True
      have "vip_record_loop (Suc n) i v ip e victim victim_exp = vip_record_loop n (Suc i) v ip e i ?e"
        using True False m by (auto simp: Let_def)
      moreover have "\<forall>j < Suc i. ?e \<le> us_expires_at (v ! j)"
        using Suc.prems(4) True by (auto simp: less_Suc_eq intro: order.trans [OF less_imp_le])
      ultimately show ?thesis
        using Suc.IH [of "Suc i" i ?e] Suc.prems False i by (simp add: less_Suc_eq)
    next
      case F: False
      have "vip_record_loop (Suc n) i v ip e victim victim_exp = vip_record_loop n (Suc i) v ip e victim victim_exp"
        using F False m by (auto simp: Let_def)
      then show ?thesis
        using Suc.IH [of "Suc i" victim victim_exp] Suc.prems False i F by (simp add: less_Suc_eq not_less)
    qed
  qed
qed

text \<open>What a record does: it changes one slot, which then holds the address.\<close>

lemma vip_upstream_record_spec:
  assumes "us_wf v" "length ip = 16" "e \<noteq> 0" "\<not> vip_addr_unspecified ip"
  shows "\<exists>j < 4. vip_upstream_record v ip e = v[j := \<lparr>us_ip = ip,
        us_expires_at = (if us_expires_at (v ! j) \<noteq> 0 \<and> us_ip (v ! j) = ip then max (us_expires_at (v ! j)) e else e)\<rparr>]
    \<and> (us_holds v ip \<longrightarrow> us_expires_at (v ! j) \<noteq> 0 \<and> us_ip (v ! j) = ip)
    \<and> (\<not> us_holds v ip \<longrightarrow> (\<forall>k < 4. us_expires_at (v ! j) \<le> us_expires_at (v ! k)))"
proof -
  have l: "length v = 4" using assms(1) by (simp add: us_wf_def)
  note sp = vip_record_loop_spec [OF assms(1,2), of 0 4 0 "- 1" e, simplified]
  show ?thesis
  proof (cases "vip_record_loop 4 0 v ip e 0 (- 1)")
    case (Inl v')
    then obtain j where j: "j < 4" "us_expires_at (v ! j) \<noteq> 0" "us_ip (v ! j) = ip"
        "v' = v[j := (v ! j)\<lparr>us_expires_at := max (us_expires_at (v ! j)) e\<rparr>]"
      using sp by auto
    have "(v ! j)\<lparr>us_expires_at := max (us_expires_at (v ! j)) e\<rparr>
        = \<lparr>us_ip = ip, us_expires_at = max (us_expires_at (v ! j)) e\<rparr>"
      using j(3) by (cases "v ! j") simp
    then have "vip_upstream_record v ip e = v[j := \<lparr>us_ip = ip, us_expires_at = max (us_expires_at (v ! j)) e\<rparr>]"
      using Inl j(4) assms(3,4) by (simp add: vip_upstream_record_def VIP_UPSTREAM_SLOTS_def)
    moreover have "us_holds v ip" using j l by (auto simp: us_holds_nth)
    ultimately show ?thesis using j by auto
  next
    case (Inr w)
    then have w: "w < 4" "\<forall>j < 4. us_expires_at (v ! w) \<le> us_expires_at (v ! j)" "\<not> us_holds v ip"
      using sp by auto
    have "\<not> (us_expires_at (v ! w) \<noteq> 0 \<and> us_ip (v ! w) = ip)"
      using w(1,3) l by (auto simp: us_holds_nth)
    then show ?thesis
      using Inr w assms(3,4) by (intro exI [of _ w]) (auto simp: vip_upstream_record_def VIP_UPSTREAM_SLOTS_def)
  qed
qed

lemma vip_upstream_record_wf:
  assumes "us_wf v" "length ip = 16"
  shows "us_wf (vip_upstream_record v ip e)"
    and "us_holds (vip_upstream_record v ip e) a \<Longrightarrow> us_holds v a \<or> a = ip \<and> e \<noteq> 0 \<and> \<not> vip_addr_unspecified ip"
proof -
  have l: "length v = 4" using assms(1) by (simp add: us_wf_def)
  have "us_wf (vip_upstream_record v ip e) \<and> (us_holds (vip_upstream_record v ip e) a \<longrightarrow>
      us_holds v a \<or> a = ip \<and> e \<noteq> 0 \<and> \<not> vip_addr_unspecified ip)"
  proof (cases "e = 0 \<or> vip_addr_unspecified ip")
    case True
    then have "vip_upstream_record v ip e = v" by (auto simp: vip_upstream_record_def)
    then show ?thesis using assms(1) by simp
  next
    case False
    then obtain j x where j: "j < 4" "vip_upstream_record v ip e = v[j := \<lparr>us_ip = ip, us_expires_at = x\<rparr>]"
        "us_holds v ip \<longrightarrow> us_expires_at (v ! j) \<noteq> 0 \<and> us_ip (v ! j) = ip"
      using vip_upstream_record_spec [OF assms, of e] by blast
    let ?v = "v[j := \<lparr>us_ip = ip, us_expires_at = x\<rparr>]"
    have o': "k = j" if "k < 4" "us_expires_at (v ! k) \<noteq> 0" "us_ip (v ! k) = ip" for k
    proof -
      have "us_holds v ip" using that l by (auto simp: us_holds_nth)
      then show ?thesis using j(1,3) that assms(1) by (auto simp: us_wf_def)
    qed
    have "us_wf ?v"
      unfolding us_wf_def
    proof (intro conjI allI impI ballI)
      show "length ?v = 4" using l by simp
      fix s assume "s \<in> set ?v"
      then have "s \<in> insert \<lparr>us_ip = ip, us_expires_at = x\<rparr> (set v)"
        using set_update_subset_insert by fast
      then show "length (us_ip s) = 16" using assms by (auto simp: us_wf_def)
    next
      fix i k :: nat
      assume "i < 4" "k < 4" "us_expires_at (?v ! i) \<noteq> 0" "us_expires_at (?v ! k) \<noteq> 0" "us_ip (?v ! i) = us_ip (?v ! k)"
      note ik = this
      have n: "us_ip (?v ! m) \<noteq> ip" if "m < 4" "m \<noteq> j" "us_expires_at (?v ! m) \<noteq> 0" for m
        using o' [of m] that by auto
      have p: "us_ip (?v ! j) = ip" using l j(1) by simp
      show "i = k"
      proof (cases "i = j \<or> k = j")
        case True
        then show ?thesis using n [of i] n [of k] p ik by metis
      next
        case False
        then show ?thesis using ik assms(1) by (simp add: us_wf_def)
      qed
    qed
    moreover have "us_holds v a \<or> a = ip" if "us_holds ?v a"
    proof -
      from that l obtain k where k: "k < 4" "us_expires_at (?v ! k) \<noteq> 0" "us_ip (?v ! k) = a"
        by (auto simp: us_holds_nth)
      then show ?thesis using l j(1) by (cases "k = j") (auto simp: us_holds_nth)
    qed
    ultimately show ?thesis using j(2) False by auto
  qed
  then show "us_wf (vip_upstream_record v ip e)"
    and "us_holds (vip_upstream_record v ip e) a \<Longrightarrow> us_holds v a \<or> a = ip \<and> e \<noteq> 0 \<and> \<not> vip_addr_unspecified ip"
    by blast+
qed

section \<open>Picking an upstream\<close>

definition us_live :: "vip_upstream_val \<Rightarrow> u64 \<Rightarrow> nat \<Rightarrow> bool" where
  "us_live v now i \<longleftrightarrow> us_expires_at (v ! i) > now"

lemma vip_pick_count_upto:
  assumes "n \<le> 4"
    and "fold (\<lambda>i (n_live, newest, newest_exp).
       let exp = us_expires_at (v ! i) in
       if exp = 0 then (n_live, newest, newest_exp)
       else let n_live' = (if exp > now then n_live + 1 else n_live)
            in if exp > newest_exp then (n_live', i, exp) else (n_live', newest, newest_exp))
     [0..<n] (0, 4, 0) = (l, w, x)"
  shows "l = length (filter (us_live v now) [0..<n]) \<and> (\<forall>i < n. us_expires_at (v ! i) \<le> x)
    \<and> (if x = 0 then w = 4 else w < n \<and> us_expires_at (v ! w) = x)"
  using assms
proof (induction n arbitrary: l w x)
  case 0
  then show ?case by simp
next
  case (Suc n)
  let ?f = "\<lambda>i (n_live :: nat, newest :: nat, newest_exp).
       let exp = us_expires_at (v ! i) in
       if exp = 0 then (n_live, newest, newest_exp)
       else let n_live' = (if exp > now then n_live + 1 else n_live)
            in if exp > newest_exp then (n_live', i, exp) else (n_live', newest, newest_exp)"
  obtain l1 w1 x1 where f: "fold ?f [0..<n] (0, 4, 0) = (l1, w1, x1)"
    by (rule prod_cases3 [of "fold ?f [0..<n] (0, 4, 0)"])
  have ih: "l1 = length (filter (us_live v now) [0..<n])" "\<forall>i < n. us_expires_at (v ! i) \<le> x1"
      "if x1 = 0 then w1 = 4 else w1 < n \<and> us_expires_at (v ! w1) = x1"
    using Suc.IH [OF _ f] Suc.prems(1) by auto
  let ?e = "us_expires_at (v ! n)"
  have r: "(l, w, x) = ?f n (l1, w1, x1)" using Suc.prems(2) f by simp
  show ?case
  proof (cases "?e = 0")
    case True
    then have "\<not> us_live v now n" by (simp add: us_live_def)
    then show ?thesis using r ih True by (auto simp: less_Suc_eq)
  next
    case False
    have lv: "l = length (filter (us_live v now) [0..<Suc n])"
      using r False ih(1) by (auto simp: Let_def us_live_def split: if_splits)
    show ?thesis
    proof (cases "?e > x1")
      case True
      then have "w = n" "x = ?e" using r False by (auto simp: Let_def split: if_splits)
      moreover have "\<forall>i < Suc n. us_expires_at (v ! i) \<le> ?e"
        using ih(2) True by (auto simp: less_Suc_eq intro: order.trans [OF _ less_imp_le])
      ultimately show ?thesis using lv False by simp
    next
      case F: False
      then have "w = w1" "x = x1" using r False by (auto simp: Let_def split: if_splits)
      moreover have "\<forall>i < Suc n. us_expires_at (v ! i) \<le> x1"
        using ih(2) F by (simp add: less_Suc_eq not_less)
      ultimately show ?thesis using lv ih(3) by (auto simp: less_Suc_eq)
    qed
  qed
qed

lemma vip_pick_kth_spec:
  "k < length (filter (us_live v now) [i..<i + n]) \<Longrightarrow>
    vip_pick_kth n i v now k pick = filter (us_live v now) [i..<i + n] ! k"
proof (induction n arbitrary: i k)
  case (Suc n)
  have s: "[i..<i + Suc n] = i # [Suc i..<Suc i + n]" by (simp add: upt_rec)
  have "us_expires_at (v ! i) \<le> now \<longleftrightarrow> \<not> us_live v now i" by (auto simp: us_live_def not_less)
  then show ?case
    using Suc.prems Suc.IH [of _ "Suc i"] unfolding s by (cases k) auto
qed simp

lemma vip_upstream_pick_spec:
  assumes "length v = 4"
  shows "vip_upstream_pick v now rnd = None \<longleftrightarrow> (\<forall>a. \<not> us_holds v a)"
    and "vip_upstream_pick v now rnd = Some a \<Longrightarrow> \<exists>j < 4. us_ip (v ! j) = a \<and> us_expires_at (v ! j) \<noteq> 0
      \<and> (if \<exists>i < 4. us_live v now i then us_live v now j
          else (\<forall>i < 4. us_expires_at (v ! i) \<le> us_expires_at (v ! j)))"
    and "j < 4 \<Longrightarrow> us_live v now j \<Longrightarrow> \<exists>rnd. vip_upstream_pick v now rnd = Some (us_ip (v ! j))"
proof -
  obtain l w x where c: "vip_pick_count v now = (l, w, x)"
    by (rule prod_cases3 [of "vip_pick_count v now"])
  let ?ls = "filter (us_live v now) [0..<4]"
  have s: "l = length ?ls" "\<forall>i < 4. us_expires_at (v ! i) \<le> x"
      "if x = 0 then w = 4 else w < 4 \<and> us_expires_at (v ! w) = x"
    using vip_pick_count_upto [of 4 v now l w x] c
    unfolding vip_pick_count_def VIP_UPSTREAM_SLOTS_def by auto
  have lv: "(\<exists>i < 4. us_live v now i) \<longleftrightarrow> 0 < l"
    unfolding s(1) length_greater_0_conv filter_empty_conv by auto
  have x0: "x = 0 \<longleftrightarrow> (\<forall>a. \<not> us_holds v a)"
  proof
    assume "x = 0"
    then show "\<forall>a. \<not> us_holds v a" using s(2) assms by (auto simp: us_holds_nth)
  next
    assume "\<forall>a. \<not> us_holds v a"
    then show "x = 0" using s(3) assms by (auto simp: us_holds_nth split: if_splits)
  qed
  show "vip_upstream_pick v now rnd = None \<longleftrightarrow> (\<forall>a. \<not> us_holds v a)"
    unfolding x0 [symmetric] using s(3) c by (cases "x = 0") (auto simp: vip_upstream_pick_def VIP_UPSTREAM_SLOTS_def Let_def)
  have live: "vip_pick_kth 4 0 v now (unat r mod l) w = ?ls ! (unat r mod l)" if "0 < l" for r :: u32
    using vip_pick_kth_spec [of "unat r mod l" v now 0 4 w] that s(1) by simp
  have el: "?ls ! k < 4 \<and> us_live v now (?ls ! k)" if "k < l" for k
    using nth_mem [of k ?ls] that s(1) by auto
  have nz: "us_live v now j \<Longrightarrow> us_expires_at (v ! j) \<noteq> 0" for j by (auto simp: us_live_def)
  show "\<exists>j < 4. us_ip (v ! j) = a \<and> us_expires_at (v ! j) \<noteq> 0
      \<and> (if \<exists>i < 4. us_live v now i then us_live v now j
          else (\<forall>i < 4. us_expires_at (v ! i) \<le> us_expires_at (v ! j)))"
    if p: "vip_upstream_pick v now rnd = Some a"
  proof (cases "0 < l")
    case True
    let ?j = "?ls ! (unat rnd mod l)"
    have j: "?j < 4" "us_live v now ?j" using el [of "unat rnd mod l"] True by auto
    have "a = us_ip (v ! ?j)"
      using p True j c live [OF True, of rnd] s(3)
      by (auto simp: vip_upstream_pick_def VIP_UPSTREAM_SLOTS_def Let_def split: if_splits)
    then show ?thesis using j lv True nz by auto
  next
    case False
    then have "x \<noteq> 0" "a = us_ip (v ! w)"
      using p c s(3) by (auto simp: vip_upstream_pick_def VIP_UPSTREAM_SLOTS_def Let_def split: if_splits)
    then show ?thesis using s(2,3) lv False by auto
  qed
  show "\<exists>rnd. vip_upstream_pick v now rnd = Some (us_ip (v ! j))" if j: "j < 4" "us_live v now j"
  proof -
    have "j \<in> set ?ls" using j by simp
    then obtain k where k: "k < l" "?ls ! k = j" unfolding s(1) by (metis in_set_conv_nth)
    have l4: "l \<le> 4" unfolding s(1) using length_filter_le [of "us_live v now" "[0..<4]"] by simp
    have "unat (of_nat k :: u32) mod l = k" using k l4 by simp
    moreover have "x \<noteq> 0" using s(2) j nz by force
    ultimately have "vip_upstream_pick v now (of_nat k) = Some (us_ip (v ! j))"
      using live [of "of_nat k"] k s(3) c j
      by (auto simp: vip_upstream_pick_def VIP_UPSTREAM_SLOTS_def Let_def)
    then show ?thesis by blast
  qed
qed

section \<open>The interface of the upstream table\<close>

text \<open>
  What the connect redirect relies on: a table in which answers are recorded and from which an
  address is picked. From it follows that a pick only ever returns an address that was recorded.
\<close>

locale upstream_store =
  fixes empty :: 's
    and rec_up :: "'s \<Rightarrow> bytes \<Rightarrow> u64 \<Rightarrow> 's"
    and pick :: "'s \<Rightarrow> u64 \<Rightarrow> u32 \<Rightarrow> bytes option"
    and holds :: "'s \<Rightarrow> bytes \<Rightarrow> bool"
    and wf :: "'s \<Rightarrow> bool"
    and usable :: "bytes \<Rightarrow> u64 \<Rightarrow> bool"
  assumes wf_empty: "wf empty"
    and holds_empty: "\<not> holds empty a"
    and wf_rec: "wf s \<Longrightarrow> length ip = 16 \<Longrightarrow> wf (rec_up s ip e)"
    and holds_rec: "wf s \<Longrightarrow> length ip = 16 \<Longrightarrow> holds (rec_up s ip e) a \<Longrightarrow> holds s a \<or> a = ip \<and> usable ip e"
    and pick_holds: "wf s \<Longrightarrow> pick s now rnd = Some a \<Longrightarrow> holds s a"
begin

definition after :: "(bytes \<times> u64) list \<Rightarrow> 's" where
  "after rs = fold (\<lambda>(ip, e) s. rec_up s ip e) rs empty"

lemma after_holds:
  assumes "\<forall>(ip, e) \<in> set rs. length ip = 16"
  shows "wf (after rs) \<and> (holds (after rs) a \<longrightarrow> (\<exists>e. (a, e) \<in> set rs \<and> usable a e))"
  using assms
proof (induction rs rule: rev_induct)
  case Nil
  then show ?case by (simp add: after_def wf_empty holds_empty)
next
  case (snoc r rs)
  obtain ip e where r: "r = (ip, e)" by (cases r)
  have a: "after (rs @ [r]) = rec_up (after rs) ip e" by (simp add: after_def r)
  have w: "wf (after rs)" "length ip = 16" using snoc r by auto
  show ?case
    unfolding a using wf_rec [OF w] holds_rec [OF w] snoc r by auto
qed

lemma pick_recorded:
  assumes "\<forall>(ip, e) \<in> set rs. length ip = 16"
    and "pick (fold (\<lambda>(ip, e) s. rec_up s ip e) rs empty) now rnd = Some a"
  shows "\<exists>e. (a, e) \<in> set rs \<and> usable a e"
  using after_holds [OF assms(1)] pick_holds assms(2) unfolding after_def by blast

end

text \<open>A new entry of \<open>vip_upstream\<close> is zeroed.\<close>

definition no_upstreams :: vip_upstream_val where
  "no_upstreams = replicate 4 \<lparr>us_ip = replicate 16 0, us_expires_at = 0\<rparr>"

definition us_usable :: "bytes \<Rightarrow> u64 \<Rightarrow> bool" where
  "us_usable ip e \<longleftrightarrow> e \<noteq> 0 \<and> \<not> vip_addr_unspecified ip"

lemma vip_pick_holds: "us_wf v \<Longrightarrow> vip_upstream_pick v now rnd = Some a \<Longrightarrow> us_holds v a"
  using vip_upstream_pick_spec(2) [of v now rnd a] by (auto simp: us_wf_def us_holds_nth)

interpretation up: upstream_store no_upstreams vip_upstream_record vip_upstream_pick us_holds us_wf us_usable
proof
  show "us_wf no_upstreams" by (auto simp: us_wf_def no_upstreams_def)
  show "\<not> us_holds no_upstreams a" for a by (auto simp: us_holds_def no_upstreams_def)
qed (auto simp: vip_upstream_record_wf us_usable_def vip_pick_holds dest: vip_upstream_record_wf(2))

section \<open>Properties\<close>

text \<open>
  the branch-free address tests decide what they are named for, on every 16-byte address:
  equality, IPv4-mapped, unspecified (:: or 0.0.0.0), and membership of an IPv6 range with a
  non-empty mask.
\<close>

theorem vip_address_tests:
  assumes "length a = 16" "length b = 16"
  shows "(vip_addr_eq a b \<longleftrightarrow> a = b)
    \<and> (vip_addr_v4mapped a \<longleftrightarrow> (\<exists>v4. length v4 = 4 \<and> a = replicate 10 0 @ [0xff, 0xff] @ v4))
    \<and> (vip_addr_unspecified a \<longleftrightarrow> a = replicate 16 0 \<or> a = replicate 10 0 @ [0xff, 0xff] @ replicate 4 0)
    \<and> (vip_in_prefix6 b m a \<longleftrightarrow> (\<forall>i < 16. a ! i AND m ! i = b ! i) \<and> (\<exists>i < 16. m ! i \<noteq> 0))"
  using vip_addr_eq_iff [OF assms] vip_addr_v4mapped_iff [OF assms(1)] vip_addr_unspecified_iff [OF assms(1)]
    vip_in_prefix6_iff by blast

theorem vip_address_tests_witness: "\<not> vip_addr_eq (replicate 16 1) (replicate 16 2)"
  using vip_address_tests [of "replicate 16 1" "replicate 16 2"] by (simp add: eval_nat_numeral)

text \<open>
  recording an address changes one slot only, which then holds the address: the slot that held
  it already, with the later of the two expiries, or else a slot that expires first; the table keeps
  no address twice.
\<close>

theorem vip_upstream_record_effect:
  assumes "us_wf v" "length ip = 16" "e \<noteq> 0" "\<not> vip_addr_unspecified ip"
  shows "us_wf (vip_upstream_record v ip e) \<and> us_holds (vip_upstream_record v ip e) ip
    \<and> (\<exists>j < 4. vip_upstream_record v ip e = v[j := \<lparr>us_ip = ip,
          us_expires_at = (if us_holds v ip then max (us_expires_at (v ! j)) e else e)\<rparr>]
        \<and> (if us_holds v ip then us_ip (v ! j) = ip else (\<forall>k < 4. us_expires_at (v ! j) \<le> us_expires_at (v ! k))))"
proof -
  have l: "length v = 4" using assms(1) by (simp add: us_wf_def)
  obtain j where j: "j < 4" "vip_upstream_record v ip e = v[j := \<lparr>us_ip = ip,
        us_expires_at = (if us_expires_at (v ! j) \<noteq> 0 \<and> us_ip (v ! j) = ip then max (us_expires_at (v ! j)) e else e)\<rparr>]"
      "us_holds v ip \<longrightarrow> us_expires_at (v ! j) \<noteq> 0 \<and> us_ip (v ! j) = ip"
      "\<not> us_holds v ip \<longrightarrow> (\<forall>k < 4. us_expires_at (v ! j) \<le> us_expires_at (v ! k))"
    using vip_upstream_record_spec [OF assms] by blast
  have h: "us_holds v ip \<longleftrightarrow> us_expires_at (v ! j) \<noteq> 0 \<and> us_ip (v ! j) = ip"
    using j(1,3) l by (auto simp: us_holds_nth)
  have "max (us_expires_at (v ! j)) e \<noteq> 0"
    using assms(3) by (cases "us_expires_at (v ! j) = 0") (auto simp: max_def not_le)
  then have "us_holds (vip_upstream_record v ip e) ip"
    using j(1,2) l assms(3) by (auto simp: us_holds_nth intro!: exI [of _ j])
  moreover have "us_wf (vip_upstream_record v ip e)" using vip_upstream_record_wf(1) [OF assms(1,2)] .
  moreover note j(2) [folded h]
  moreover have "if us_holds v ip then us_ip (v ! j) = ip else \<forall>k < 4. us_expires_at (v ! j) \<le> us_expires_at (v ! k)"
    using j(3,4) by simp
  ultimately show ?thesis using j(1) by blast
qed

theorem vip_upstream_record_effect_witness:
  "us_holds (vip_upstream_record no_upstreams (replicate 16 7) 90) (replicate 16 7)"
proof -
  have "us_wf no_upstreams" by (auto simp: us_wf_def no_upstreams_def)
  moreover have "\<not> vip_addr_unspecified (replicate 16 7)" by code_simp
  ultimately show ?thesis
    using vip_upstream_record_effect [of no_upstreams "replicate 16 7" 90] by simp
qed

text \<open>
  C35: a pick fails only on a table that holds nothing; otherwise it returns an unexpired address
  when there is one (and each of them for some random number), else the one that expired last.
\<close>

theorem vip_upstream_pick_choice:
  assumes "length v = 4"
  shows "(vip_upstream_pick v now rnd = None \<longleftrightarrow> (\<forall>a. \<not> us_holds v a))
    \<and> (\<forall>a. vip_upstream_pick v now rnd = Some a \<longrightarrow> (\<exists>j < 4. us_ip (v ! j) = a \<and> us_expires_at (v ! j) \<noteq> 0
        \<and> (if \<exists>i < 4. us_live v now i then us_live v now j
            else (\<forall>i < 4. us_expires_at (v ! i) \<le> us_expires_at (v ! j)))))
    \<and> (\<forall>j < 4. us_live v now j \<longrightarrow> (\<exists>r. vip_upstream_pick v now r = Some (us_ip (v ! j))))"
  using vip_upstream_pick_spec(1,3) [OF assms] vip_upstream_pick_spec(2) [OF assms, of now rnd] by meson

text \<open>An empty table; then one with an expired address, a live one and two empty slots.\<close>

definition two_upstreams :: vip_upstream_val where
  "two_upstreams = [\<lparr>us_ip = replicate 16 7, us_expires_at = 3\<rparr>, \<lparr>us_ip = replicate 16 8, us_expires_at = 90\<rparr>] @ drop 2 no_upstreams"

theorem vip_upstream_pick_choice_witness:
  "vip_upstream_pick no_upstreams 5 9 = None \<and> vip_upstream_pick two_upstreams 50 9 = Some (replicate 16 8)"
proof
  show "vip_upstream_pick no_upstreams 5 9 = None"
    using vip_upstream_pick_choice [of no_upstreams 5 9] by (auto simp: no_upstreams_def us_holds_def)
  let ?v = two_upstreams
  have l: "length ?v = 4" by (simp add: two_upstreams_def no_upstreams_def)
  have live: "us_live ?v 50 i \<longleftrightarrow> i = 1" if "i < 4" for i
  proof -
    have "i = 0 \<or> i = 1 \<or> i = 2 \<or> i = 3" using that by arith
    then show ?thesis by (auto simp: us_live_def two_upstreams_def no_upstreams_def)
  qed
  have "us_holds ?v (replicate 16 8)" by (simp add: two_upstreams_def us_holds_def)
  then obtain a where a: "vip_upstream_pick ?v 50 9 = Some a" using vip_upstream_pick_choice [OF l, of 50 9] by auto
  have "\<exists>i < 4. us_live ?v 50 i" using live [of 1] by (intro exI [of _ 1]) simp
  then obtain j where "j < 4" "us_ip (?v ! j) = a" "us_live ?v 50 j"
    using vip_upstream_pick_choice [OF l, of 50 9] a by metis
  then show "vip_upstream_pick ?v 50 9 = Some (replicate 16 8)" using a live by (auto simp: two_upstreams_def)
qed

text \<open>
  A connect to a fake IP is only ever sent to a recorded address: whatever answers were recorded
  in a fresh table, in any order and with any expiries, a pick returns one of them, never an
  unspecified address or one recorded as already expired at 0.
\<close>

theorem vip_upstream_pick_recorded:
  assumes "\<forall>(ip, e) \<in> set answers. length ip = 16"
    and "vip_upstream_pick (fold (\<lambda>(ip, e) v. vip_upstream_record v ip e) answers no_upstreams) now rnd = Some a"
  shows "\<exists>e. (a, e) \<in> set answers \<and> e \<noteq> 0 \<and> \<not> vip_addr_unspecified a"
  using up.pick_recorded [OF assms] by (simp add: us_usable_def)

theorem vip_upstream_pick_recorded_witness:
  "\<exists>e. (replicate 16 7, e) \<in> set [(replicate 16 0, 8), (replicate 16 7, 9 :: u64)] \<and> e \<noteq> 0"
proof -
  have "vip_upstream_pick (fold (\<lambda>(ip, e) v. vip_upstream_record v ip e)
      [(replicate 16 0, 8), (replicate 16 7, 9)] no_upstreams) 5 3 = Some (replicate 16 7)"
    by code_simp
  from vip_upstream_pick_recorded [OF _ this] show ?thesis by auto
qed

text \<open>
  C23: \<open>vip_socket_check\<close> lets a secret leave exactly when the socket meets every restriction it has:
  the host of the fake IP it connected to, the address and the port. A missing socket host never
  meets a host restriction.
\<close>

theorem vip_socket_check_exact:
  assumes "host_ok h" "host_ok sh" "length ip = 16" "length daddr = 16"
    and "\<And>x. sock_host = Some x \<Longrightarrow> x = pad_host sh"
  shows "vip_socket_check sock_host host_len (pad_host h) iplen ip daddr port dport = VIP_SOCK_OK \<longleftrightarrow>
    (0 < unat host_len \<and> unat host_len < MAX_HOST_LEN \<longrightarrow> sock_host \<noteq> None \<and> sh = h)
    \<and> (iplen = 16 \<longrightarrow> daddr = ip) \<and> (port \<noteq> 0 \<longrightarrow> dport = port)"
proof -
  have m: "hosts_match (pad_host sh) (pad_host h) \<longleftrightarrow> sh = h"
    using hosts_match_iff [of "pad_host sh" "pad_host h"] pad_host_inject [of sh h] assms(1,2)
    by (auto simp: length_pad_host)
  have l: "0 < host_len \<longleftrightarrow> 0 < unat host_len" "host_len < of_nat MAX_HOST_LEN \<longleftrightarrow> unat host_len < MAX_HOST_LEN"
    by (simp_all add: word_less_nat_alt MAX_HOST_LEN_def)
  have h: "(case sock_host of None \<Rightarrow> True | Some x \<Rightarrow> \<not> hosts_match x (pad_host h)) \<longleftrightarrow> \<not> (sock_host \<noteq> None \<and> sh = h)"
    using m assms(5) by (cases sock_host) auto
  have g: "(if a \<and> b \<and> \<not> c then VIP_SOCK_DENY_HOST else if i \<and> \<not> d then VIP_SOCK_DENY_ADDR
      else if p \<and> \<not> q then VIP_SOCK_DENY_ADDR else VIP_SOCK_OK) = VIP_SOCK_OK \<longleftrightarrow>
      (a \<and> b \<longrightarrow> c) \<and> (i \<longrightarrow> d) \<and> (p \<longrightarrow> q)" for a b c i d p q by simp
  have t: "take 16 daddr = daddr" "take 16 ip = ip" using assms(3,4) by simp_all
  show ?thesis
    unfolding vip_socket_check_def l h t by (rule g)
qed

theorem vip_socket_check_exact_witness:
  "vip_socket_check (Some (pad_host [97])) 1 (pad_host [97]) 16 (replicate 16 3) (replicate 16 3) 443 443 = VIP_SOCK_OK"
  using vip_socket_check_exact [of "[97]" "[97]" "replicate 16 3" "replicate 16 3" "Some (pad_host [97])"]
  by (auto simp: host_ok_def MAX_HOST_LEN_def)

end
