(* ===== verification/Dns_Parse.thy ===== *)
theory Dns_Parse
  imports SNI_Parse
begin

text \<open>
  DNS answers of \<open>helpers.h\<close>: the walk of the question (\<open>dns_parse_question\<close>), the walk of the
  answer section (\<open>dns_scan_addr_records\<close>) and the byte swap of a checksum update at an odd offset
  (\<open>csum_odd_bytes\<close>).

  The reference is the wire format of RFC 1035: an encoder of names and resource records. Offsets
  into the 512 copied bytes are natural numbers: each is at most 512 plus a label length, or a sum
  with a 16-bit length, so none wraps as a \<open>__u32\<close>.
\<close>

section \<open>The code: constants and reads\<close>

definition MAX_DNS_PKT :: nat where "MAX_DNS_PKT = 512"
definition DNS_MAX_ADDR_RECORDS :: nat where "DNS_MAX_ADDR_RECORDS = 8"
definition DNS_SCAN_STEPS :: nat where "DNS_SCAN_STEPS = 64"
definition DNS_TYPE_A :: nat where "DNS_TYPE_A = 1"
definition DNS_TYPE_AAAA :: nat where "DNS_TYPE_AAAA = 28"
definition DNS_CLASS_IN :: nat where "DNS_CLASS_IN = 1"
definition DNS_QNAME_STEPS :: nat where "DNS_QNAME_STEPS = MAX_HOST_LEN + 1"

datatype dns_scan = DNS_SCAN_OK | DNS_SCAN_NOT_ANSWER | DNS_SCAN_BAD_NAME | DNS_SCAN_INCOMPLETE
  | DNS_SCAN_MALFORMED | DNS_SCAN_RUNNING

definition dns_addr_len :: "nat \<Rightarrow> nat" where
  "dns_addr_len qtype = (if qtype = DNS_TYPE_A then 4 else if qtype = DNS_TYPE_AAAA then 16 else 0)"

definition dns_idx :: "nat \<Rightarrow> nat" where "dns_idx off = off mod MAX_DNS_PKT"

definition dns_rd16 :: "bytes \<Rightarrow> nat \<Rightarrow> nat" where
  "dns_rd16 b off = 256 * unat (b ! dns_idx off) + unat (b ! dns_idx (off + 1))"

section \<open>The code: the question\<close>

record dns_question =
  dq_qname :: bytes
  dq_qname_len :: nat
  dq_qtype :: nat
  dq_ancount :: nat
  dq_answers_off :: nat
  dq_status :: dns_scan
  dq_len :: nat
  dq_off :: nat
  dq_label_rem :: nat

definition dns_question_begin :: "dns_question \<Rightarrow> bytes \<Rightarrow> nat \<Rightarrow> dns_question" where
  "dns_question_begin q msg len0 =
     (let q = q\<lparr>dq_status := DNS_SCAN_NOT_ANSWER\<rparr>;
          len = (if len0 > MAX_DNS_PKT then MAX_DNS_PKT else len0);
          q = q\<lparr>dq_len := len\<rparr>
      in if len < 12 then q
         else if (msg ! 2 AND 0xFA) \<noteq> 0x80 \<or> (msg ! 3 AND 0x0F) \<noteq> 0 then q
         else if dns_rd16 msg 4 \<noteq> 1 then q
         else let q = q\<lparr>dq_ancount := dns_rd16 msg 6\<rparr>
              in if dq_ancount q = 0 then q
                 else q\<lparr>dq_off := 12, dq_status := DNS_SCAN_RUNNING\<rparr>)"

definition dns_question_step :: "dns_question \<Rightarrow> bytes \<Rightarrow> bool \<times> dns_question" where
  "dns_question_step q msg =
     (if dq_status q \<noteq> DNS_SCAN_RUNNING then (True, q)
      else let off = dq_off q; len = dq_len q; n = dq_qname_len q in
        if off \<ge> len \<or> off \<ge> MAX_DNS_PKT then (True, q\<lparr>dq_status := DNS_SCAN_NOT_ANSWER\<rparr>)
        else let c = msg ! dns_idx off; q = q\<lparr>dq_off := off + 1\<rparr> in
          if dq_label_rem q = 0 then
            (if c = 0 then
               (True, if n = 0 then q\<lparr>dq_status := DNS_SCAN_BAD_NAME\<rparr>
                      else if off + 1 + 4 > len then q\<lparr>dq_status := DNS_SCAN_NOT_ANSWER\<rparr>
                      else q\<lparr>dq_qtype := dns_rd16 msg (off + 1), dq_answers_off := off + 1 + 4,
                             dq_status := DNS_SCAN_OK\<rparr>)
             else if c > 63 then (True, q\<lparr>dq_status := DNS_SCAN_BAD_NAME\<rparr>)
             else if n > 0 \<and> n \<ge> MAX_HOST_LEN - 1 then (True, q\<lparr>dq_status := DNS_SCAN_BAD_NAME\<rparr>)
             else let q = (if n > 0 then q\<lparr>dq_qname := (dq_qname q)[n mod MAX_HOST_LEN := 0x2E],
                                            dq_qname_len := n + 1\<rparr> else q)
                  in (False, q\<lparr>dq_label_rem := unat c\<rparr>))
          else let c = lower c in
            if c = 0x2E \<or> \<not> sni_host_char_ok c \<or> n \<ge> MAX_HOST_LEN - 1
            then (True, q\<lparr>dq_status := DNS_SCAN_BAD_NAME\<rparr>)
            else (False, q\<lparr>dq_qname := (dq_qname q)[n mod MAX_HOST_LEN := c], dq_qname_len := n + 1,
                           dq_label_rem := dq_label_rem q - 1\<rparr>))"

definition dns_question_end :: "dns_question \<Rightarrow> dns_scan \<times> dns_question" where
  "dns_question_end q =
     (let q = (if dq_status q = DNS_SCAN_RUNNING then q\<lparr>dq_status := DNS_SCAN_BAD_NAME\<rparr> else q)
      in (dq_status q, q))"

fun dns_question_loop :: "nat \<Rightarrow> dns_question \<Rightarrow> bytes \<Rightarrow> dns_question" where
  "dns_question_loop 0 q msg = q"
| "dns_question_loop (Suc k) q msg =
     (let (stop, q') = dns_question_step q msg in if stop then q' else dns_question_loop k q' msg)"

definition dns_parse_question :: "bytes \<Rightarrow> nat \<Rightarrow> dns_question \<Rightarrow> dns_scan \<times> dns_question" where
  "dns_parse_question msg len q =
     dns_question_end (dns_question_loop DNS_QNAME_STEPS (dns_question_begin q msg len) msg)"

text \<open>The zeroed struct the caller passes; a zero status is \<open>DNS_SCAN_OK\<close>.\<close>

definition zero_question :: dns_question where
  "zero_question = \<lparr>dq_qname = replicate MAX_HOST_LEN 0, dq_qname_len = 0, dq_qtype = 0, dq_ancount = 0,
     dq_answers_off = 0, dq_status = DNS_SCAN_OK, dq_len = 0, dq_off = 0, dq_label_rem = 0\<rparr>"

section \<open>The code: the answer section\<close>

record dns_addr_record =
  dr_off :: nat
  dr_ttl :: nat
  dr_ip :: bytes

record dns_answers =
  da_recs :: "dns_addr_record list"
  da_n_recs :: nat
  da_rr_type :: nat
  da_rr_len :: nat
  da_status :: dns_scan
  da_len :: nat
  da_off :: nat
  da_ancount :: nat
  da_done :: nat
  da_in_name :: bool

definition dns_answers_begin :: "dns_answers \<Rightarrow> nat \<Rightarrow> nat \<Rightarrow> nat \<Rightarrow> nat \<Rightarrow> dns_answers" where
  "dns_answers_begin a len0 off ancount qtype =
     (let len = (if len0 > MAX_DNS_PKT then MAX_DNS_PKT else len0)
      in a\<lparr>da_rr_type := qtype, da_rr_len := dns_addr_len qtype, da_len := len, da_off := off,
           da_ancount := ancount, da_in_name := True, da_status := DNS_SCAN_RUNNING\<rparr>)"

definition dns_answers_step :: "dns_answers \<Rightarrow> bytes \<Rightarrow> bool \<times> dns_answers" where
  "dns_answers_step a msg =
     (if da_status a \<noteq> DNS_SCAN_RUNNING then (True, a)
      else if da_done a \<ge> da_ancount a then (True, a\<lparr>da_status := DNS_SCAN_OK\<rparr>)
      else let off = da_off a; len = da_len a in
        if da_in_name a then
          (if off \<ge> len \<or> off \<ge> MAX_DNS_PKT then (True, a\<lparr>da_status := DNS_SCAN_INCOMPLETE\<rparr>)
           else let b = msg ! dns_idx off in
             if b = 0 then (False, a\<lparr>da_off := off + 1, da_in_name := False\<rparr>)
             else if (b AND 0xC0) = 0xC0 then (False, a\<lparr>da_off := off + 2, da_in_name := False\<rparr>)
             else if (b AND 0xC0) \<noteq> 0 then (True, a\<lparr>da_status := DNS_SCAN_MALFORMED\<rparr>)
             else (False, a\<lparr>da_off := off + 1 + unat b\<rparr>))
        else if off + 10 > len \<or> off \<ge> MAX_DNS_PKT then (True, a\<lparr>da_status := DNS_SCAN_INCOMPLETE\<rparr>)
        else let typ = dns_rd16 msg off; cls = dns_rd16 msg (off + 2);
                 ttl = 65536 * dns_rd16 msg (off + 4) + dns_rd16 msg (off + 6);
                 rdlen = dns_rd16 msg (off + 8); off = off + 10 in
          if off + rdlen > len then (True, a\<lparr>da_status := DNS_SCAN_INCOMPLETE\<rparr>)
          else let alen = da_rr_len a; listed = (alen \<noteq> 0 \<and> typ = da_rr_type a \<and> cls = DNS_CLASS_IN);
                   n = da_n_recs a in
            if listed \<and> rdlen \<noteq> alen then (True, a\<lparr>da_status := DNS_SCAN_MALFORMED\<rparr>)
            else if listed \<and> n \<ge> DNS_MAX_ADDR_RECORDS then (True, a\<lparr>da_status := DNS_SCAN_INCOMPLETE\<rparr>)
            else let a = (if listed then
                        a\<lparr>da_recs := (da_recs a)[n mod DNS_MAX_ADDR_RECORDS :=
                            \<lparr>dr_off = off, dr_ttl = ttl,
                             dr_ip = map (\<lambda>k. if k < alen then msg ! dns_idx (off + k) else 0) [0..<16]\<rparr>],
                          da_n_recs := n + 1\<rparr> else a)
                 in (False, a\<lparr>da_off := off + rdlen, da_done := da_done a + 1, da_in_name := True\<rparr>))"

definition dns_answers_end :: "dns_answers \<Rightarrow> dns_scan \<times> dns_answers" where
  "dns_answers_end a =
     (let a = (if da_status a = DNS_SCAN_RUNNING
               then a\<lparr>da_status := (if da_done a \<ge> da_ancount a then DNS_SCAN_OK else DNS_SCAN_INCOMPLETE)\<rparr>
               else a)
      in (da_status a, a))"

fun dns_answers_loop :: "nat \<Rightarrow> dns_answers \<Rightarrow> bytes \<Rightarrow> dns_answers" where
  "dns_answers_loop 0 a msg = a"
| "dns_answers_loop (Suc k) a msg =
     (let (stop, a') = dns_answers_step a msg in if stop then a' else dns_answers_loop k a' msg)"

definition dns_scan_addr_records ::
  "bytes \<Rightarrow> nat \<Rightarrow> nat \<Rightarrow> nat \<Rightarrow> nat \<Rightarrow> dns_answers \<Rightarrow> dns_scan \<times> dns_answers" where
  "dns_scan_addr_records msg len off ancount qtype a =
     dns_answers_end (dns_answers_loop DNS_SCAN_STEPS (dns_answers_begin a len off ancount qtype) msg)"

definition zero_answers :: dns_answers where
  "zero_answers = \<lparr>da_recs = replicate DNS_MAX_ADDR_RECORDS \<lparr>dr_off = 0, dr_ttl = 0, dr_ip = replicate 16 0\<rparr>,
     da_n_recs = 0, da_rr_type = 0, da_rr_len = 0, da_status = DNS_SCAN_OK, da_len = 0, da_off = 0,
     da_ancount = 0, da_done = 0, da_in_name = False\<rparr>"

definition csum_odd_bytes :: "u32 \<Rightarrow> u32" where
  "csum_odd_bytes v = push_bit 8 (v AND 0x00FF00FF) OR (drop_bit 8 v AND 0x00FF00FF)"

section \<open>The wire format of names\<close>

definition wire_labels :: "bytes list \<Rightarrow> bytes" where
  "wire_labels ls = concat (map (\<lambda>l. of_nat (length l) # l) ls)"

text \<open>A label a watched host can have, and the name of a list of labels.\<close>

definition host_label :: "bytes \<Rightarrow> bool" where
  "host_label l \<longleftrightarrow> l \<noteq> [] \<and> length l \<le> 63 \<and> (\<forall>c \<in> set l. lower c \<noteq> 0x2E \<and> sni_host_char_ok (lower c))"

definition dotted_tail :: "bytes list \<Rightarrow> bytes" where
  "dotted_tail ls = concat (map (\<lambda>l. 0x2E # map lower l) ls)"

definition dotted :: "bytes list \<Rightarrow> bytes" where "dotted ls = tl (dotted_tail ls)"

lemma wire_labels_simps [simp]:
  "wire_labels [] = []" "wire_labels (l # ls) = of_nat (length l) # l @ wire_labels ls"
  by (simp_all add: wire_labels_def)

lemma dotted_tail_simps [simp]:
  "dotted_tail [] = []" "dotted_tail (l # ls) = 0x2E # map lower l @ dotted_tail ls"
  by (simp_all add: dotted_tail_def)

section \<open>The question walk as a walk of the remaining bytes\<close>

fun name_walk :: "bytes \<Rightarrow> nat \<Rightarrow> bytes \<Rightarrow> dns_scan + bytes \<times> bytes" where
  "name_walk [] r nm = Inl DNS_SCAN_NOT_ANSWER"
| "name_walk (c # R) r nm =
     (if r = 0 then
        (if c = 0 then
           (if nm = [] then Inl DNS_SCAN_BAD_NAME
            else if length R < 4 then Inl DNS_SCAN_NOT_ANSWER else Inr (nm, R))
         else if c > 63 \<or> length nm \<ge> 63 then Inl DNS_SCAN_BAD_NAME
         else name_walk R (unat c) (if nm = [] then nm else nm @ [0x2E]))
      else if lower c = 0x2E \<or> \<not> sni_host_char_ok (lower c) \<or> length nm \<ge> 63 then Inl DNS_SCAN_BAD_NAME
      else name_walk R (r - 1) (nm @ [lower c]))"

lemma pad_host_snoc:
  assumes "length nm < 63"
  shows "(pad_host nm)[length nm mod MAX_HOST_LEN := c] = pad_host (nm @ [c])"
proof -
  have "64 - length nm = Suc (63 - length nm)" using assms by simp
  then have "replicate (64 - length nm) (0 :: u8) = 0 # replicate (63 - length nm) 0" by simp
  then show ?thesis using assms by (simp add: pad_host_def MAX_HOST_LEN_def)
qed

text \<open>What the walk leaves in the struct.\<close>

definition question_walked :: "dns_question \<Rightarrow> dns_scan + bytes \<times> bytes \<Rightarrow> dns_question \<Rightarrow> bool" where
  "question_walked q w q' \<longleftrightarrow> (case w of
      Inl s \<Rightarrow> dq_status q' = s \<and> s \<noteq> DNS_SCAN_OK \<and> s \<noteq> DNS_SCAN_RUNNING
    | Inr (nm, R) \<Rightarrow> \<exists>o'. q' = q\<lparr>dq_qname := pad_host nm, dq_qname_len := length nm,
        dq_qtype := 256 * unat (R ! 0) + unat (R ! 1), dq_answers_off := dq_len q - length R + 4,
        dq_status := DNS_SCAN_OK, dq_off := o', dq_label_rem := 0\<rparr>)"

lemma question_walked_upd:
  "question_walked (q\<lparr>dq_off := a, dq_qname := b, dq_qname_len := c, dq_label_rem := d\<rparr>) w q'
     = question_walked q w q'"
  by (auto simp: question_walked_def split: sum.splits)

text \<open>
  The steps left suffice: each one ends the walk or adds a byte to the name, but for the length of
  the first label.
\<close>

lemma dns_question_loop_walk:
  assumes "length msg = 512" "dq_len q \<le> 512" "dq_status q = DNS_SCAN_RUNNING" "dq_off q \<le> dq_len q"
    and "dq_qname q = pad_host nm" "dq_qname_len q = length nm" "length nm \<le> 63"
    and "(if nm = [] \<and> dq_label_rem q = 0 then 65 else 64 - length nm) \<le> k"
  shows "question_walked q (name_walk (drop (dq_off q) (take (dq_len q) msg)) (dq_label_rem q) nm)
    (dns_question_loop k q msg)"
  using assms(2-8)
proof (induction k arbitrary: q nm)
  case 0
  then show ?case by (simp split: if_splits)
next
  case (Suc k)
  let ?R = "drop (dq_off q) (take (dq_len q) msg)"
  show ?case
  proof (cases "dq_off q = dq_len q")
    case True
    then show ?thesis using Suc.prems by (simp add: dns_question_step_def question_walked_def)
  next
    case False
    then have o: "dq_off q < dq_len q" using Suc.prems by simp
    let ?c = "msg ! dq_off q"
    have R: "?R = ?c # drop (dq_off q + 1) (take (dq_len q) msg)"
      using o Suc.prems(1) assms(1) by (simp add: Cons_nth_drop_Suc [symmetric])
    have i: "dns_idx (dq_off q) = dq_off q" "\<not> dq_off q \<ge> MAX_DNS_PKT"
      using o Suc.prems(1) by (simp_all add: dns_idx_def MAX_DNS_PKT_def)
    have l: "length (drop (dq_off q + 1) (take (dq_len q) msg)) = dq_len q - dq_off q - 1"
      using o Suc.prems(1) assms(1) by simp
    show ?thesis
    proof (cases "dq_label_rem q = 0")
      case r: True
      show ?thesis
      proof (cases "?c = 0 \<or> ?c > 63 \<or> length nm \<ge> 63")
        case True
        show ?thesis
        proof (cases "?c = 0 \<and> nm \<noteq> [] \<and> dq_off q + 5 \<le> dq_len q")
          case ok: True
          then have b: "dns_rd16 msg (dq_off q + 1) = 256 * unat (msg ! (dq_off q + 1)) + unat (msg ! (dq_off q + 2))"
            using Suc.prems(1) by (simp add: dns_rd16_def dns_idx_def MAX_DNS_PKT_def)
          have n: "drop (dq_off q + 1) (take (dq_len q) msg) ! 0 = msg ! (dq_off q + 1)"
            "drop (dq_off q + 1) (take (dq_len q) msg) ! 1 = msg ! (dq_off q + 2)"
            using ok Suc.prems(1) assms(1) by simp_all
          have a: "\<not> dq_len q - (dq_off q + 1) < 4" "dq_len q - (dq_len q - (dq_off q + 1)) = dq_off q + 1"
            using ok by auto
          show ?thesis
            unfolding R using ok r o i Suc.prems b n l a
            by (cases q) (simp add: dns_question_step_def Let_def question_walked_def)
        next
          case no: False
          show ?thesis
            unfolding R using no True r o i Suc.prems l
            by (auto simp: dns_question_step_def Let_def MAX_HOST_LEN_def question_walked_def)
        qed
      next
        case False
        let ?nm = "if nm = [] then nm else nm @ [0x2E]"
        let ?q = "q\<lparr>dq_off := dq_off q + 1, dq_qname := pad_host ?nm, dq_qname_len := length ?nm,
          dq_label_rem := unat ?c\<rparr>"
        have c: "unat ?c \<noteq> 0" using False by (simp add: unat_eq_0)
        have s: "dns_question_step q msg = (False, ?q)"
          using False r o i Suc.prems pad_host_snoc [of nm "0x2E"]
          by (simp add: dns_question_step_def Let_def MAX_HOST_LEN_def)
        have e: "(if ?nm = [] \<and> dq_label_rem ?q = 0 then 65 else 64 - length ?nm) \<le> k"
          using Suc.prems(7) r c by (auto split: if_splits)
        have n: "length ?nm \<le> 63" using False by simp
        have "question_walked ?q (name_walk (drop (dq_off q + 1) (take (dq_len q) msg)) (dq_label_rem ?q) ?nm)
            (dns_question_loop k ?q msg)"
          using Suc.IH [of ?q ?nm] Suc.prems(1,2) o e n by (simp del: if_split)
        then show ?thesis
          unfolding question_walked_upd R using s r False by (simp del: if_split)
      qed
    next
      case r: False
      show ?thesis
      proof (cases "lower ?c = 0x2E \<or> \<not> sni_host_char_ok (lower ?c) \<or> length nm \<ge> 63")
        case True
        then show ?thesis
          unfolding R using r o i Suc.prems
          by (auto simp: dns_question_step_def Let_def MAX_HOST_LEN_def question_walked_def)
      next
        case False
        let ?nm = "nm @ [lower ?c]"
        let ?q = "q\<lparr>dq_off := dq_off q + 1, dq_qname := pad_host ?nm, dq_qname_len := length ?nm,
          dq_label_rem := dq_label_rem q - 1\<rparr>"
        have s: "dns_question_step q msg = (False, ?q)"
          using False r o i Suc.prems pad_host_snoc [of nm "lower ?c"]
          by (simp add: dns_question_step_def Let_def MAX_HOST_LEN_def)
        have e: "(if ?nm = [] \<and> dq_label_rem ?q = 0 then 65 else 64 - length ?nm) \<le> k"
          using Suc.prems(7) r by (auto split: if_splits)
        have "length ?nm \<le> 63" using False by simp
        then have "question_walked ?q (name_walk (drop (dq_off q + 1) (take (dq_len q) msg)) (dq_label_rem ?q) ?nm)
            (dns_question_loop k ?q msg)"
          using Suc.IH [of ?q ?nm] Suc.prems(1,2) o e by simp
        then show ?thesis
          unfolding question_walked_upd R using s r False by simp
      qed
    qed
  qed
qed

text \<open>The walk accepts the encoding of a name and returns its labels, lowercased and dotted.\<close>

lemma name_walk_part:
  assumes "\<forall>c \<in> set part. lower c \<noteq> 0x2E \<and> sni_host_char_ok (lower c)" "length nm + length part \<le> 63"
  shows "name_walk (part @ R) (length part) nm = name_walk R 0 (nm @ map lower part)"
  using assms by (induction part arbitrary: nm) auto

lemma host_label_len:
  assumes "host_label l"
  shows "unat (of_nat (length l) :: u8) = length l" "(of_nat (length l) :: u8) \<noteq> 0" "\<not> (of_nat (length l) :: u8) > 63"
proof -
  have l: "length l \<le> 63" "length l \<noteq> 0" using assms by (auto simp: host_label_def)
  then show u: "unat (of_nat (length l) :: u8) = length l" by (simp add: unat_of_nat)
  then show "(of_nat (length l) :: u8) \<noteq> 0" using l by (metis unat_0)
  show "\<not> (of_nat (length l) :: u8) > 63" unfolding word_less_nat_alt u using l by simp
qed

lemma name_walk_labels:
  assumes "\<forall>l \<in> set ls. host_label l" "4 \<le> length rest" "nm \<noteq> []" "length (nm @ dotted_tail ls) \<le> 63"
  shows "name_walk (wire_labels ls @ 0 # rest) 0 nm = Inr (nm @ dotted_tail ls, rest)"
  using assms
proof (induction ls arbitrary: nm)
  case Nil
  then show ?case by simp
next
  case (Cons l ls)
  then show ?case
    using host_label_len [of l] name_walk_part [of l "nm @ [0x2E]" "wire_labels ls @ 0 # rest"]
    by (simp add: host_label_def)
qed

lemma name_walk_name:
  assumes "\<forall>l \<in> set ls. host_label l" "4 \<le> length rest" "ls \<noteq> []" "length (dotted ls) \<le> 63"
  shows "name_walk (wire_labels ls @ 0 # rest) 0 [] = Inr (dotted ls, rest)"
proof -
  obtain l ls' where ls: "ls = l # ls'" using assms(3) by (cases ls) auto
  then have "length (map lower l @ dotted_tail ls') \<le> 63" "host_label l" "l \<noteq> []"
    using assms(1,4) by (auto simp: dotted_def host_label_def)
  then show ?thesis
    using assms(1,2) host_label_len [of l] name_walk_part [of l "[]" "wire_labels ls' @ 0 # rest"]
      name_walk_labels [of ls' rest "map lower l"]
    by (simp add: ls dotted_def host_label_def)
qed

text \<open>Whatever it accepts is such an encoding.\<close>

lemma name_walk_sound:
  assumes "name_walk R r nm = Inr (nm', rest)" "length nm \<le> 63" "r \<le> 63"
  shows "\<exists>part ls. length part = r \<and> (\<forall>c \<in> set part. lower c \<noteq> 0x2E \<and> sni_host_char_ok (lower c))
     \<and> (\<forall>l \<in> set ls. host_label l) \<and> R = part @ wire_labels ls @ 0 # rest \<and> 4 \<le> length rest
     \<and> nm' = (if nm = [] \<and> r = 0 then dotted ls else nm @ map lower part @ dotted_tail ls)
     \<and> nm' \<noteq> [] \<and> length nm' \<le> 63"
  using assms
proof (induction R r nm rule: name_walk.induct)
  case (1 r nm)
  then show ?case by simp
next
  case (2 c R r nm)
  show ?case
  proof (cases "r = 0")
    case r: True
    show ?thesis
    proof (cases "c = 0")
      case True
      then show ?thesis using 2 r by (intro exI [of _ "[]"]) (auto split: if_splits)
    next
      case False
      let ?nm = "if nm = [] then nm else nm @ [0x2E]"
      have b: "length nm < 63" "\<not> c > 63" "name_walk R (unat c) ?nm = Inr (nm', rest)"
        using 2 r False by (auto split: if_splits)
      have c: "unat c \<le> 63" "unat c \<noteq> 0" using b(2) False by (auto simp: word_less_nat_alt unat_eq_0)
      have n: "length ?nm \<le> 63" using b(1) by simp
      have "\<exists>part ls. length part = unat c
          \<and> (\<forall>c \<in> set part. lower c \<noteq> 0x2E \<and> sni_host_char_ok (lower c)) \<and> (\<forall>l \<in> set ls. host_label l)
          \<and> R = part @ wire_labels ls @ 0 # rest \<and> 4 \<le> length rest
          \<and> nm' = ?nm @ map lower part @ dotted_tail ls \<and> nm' \<noteq> [] \<and> length nm' \<le> 63"
        using 2(1) r False b c n by (simp del: if_split)
      then obtain part ls where *: "length part = unat c"
        "\<forall>c \<in> set part. lower c \<noteq> 0x2E \<and> sni_host_char_ok (lower c)" "\<forall>l \<in> set ls. host_label l"
        "R = part @ wire_labels ls @ 0 # rest" "4 \<le> length rest"
        "nm' = ?nm @ map lower part @ dotted_tail ls" "nm' \<noteq> []" "length nm' \<le> 63"
        by blast
      have "host_label part" using * c by (auto simp: host_label_def)
      then show ?thesis
        using * c r by (intro exI [of _ "[]"] exI [of _ "part # ls"]) (auto simp: dotted_def)
    qed
  next
    case False
    then have b: "length nm < 63" "lower c \<noteq> 0x2E" "sni_host_char_ok (lower c)"
        "name_walk R (r - 1) (nm @ [lower c]) = Inr (nm', rest)"
      using 2 by (auto split: if_splits)
    have "\<exists>part ls. length part = r - 1
        \<and> (\<forall>c \<in> set part. lower c \<noteq> 0x2E \<and> sni_host_char_ok (lower c)) \<and> (\<forall>l \<in> set ls. host_label l)
        \<and> R = part @ wire_labels ls @ 0 # rest \<and> 4 \<le> length rest
        \<and> nm' = (nm @ [lower c]) @ map lower part @ dotted_tail ls \<and> nm' \<noteq> [] \<and> length nm' \<le> 63"
      using 2(2,5) False b by simp
    then obtain part ls where *: "length part = r - 1"
      "\<forall>c \<in> set part. lower c \<noteq> 0x2E \<and> sni_host_char_ok (lower c)" "\<forall>l \<in> set ls. host_label l"
      "R = part @ wire_labels ls @ 0 # rest" "4 \<le> length rest"
      "nm' = (nm @ [lower c]) @ map lower part @ dotted_tail ls" "nm' \<noteq> []" "length nm' \<le> 63"
      by blast
    then show ?thesis
      using False b by (intro exI [of _ "c # part"] exI [of _ ls]) auto
  qed
qed

text \<open>A header the walk accepts: an untruncated NOERROR answer to one question, with \<open>an\<close> answers.\<close>

definition answer_header :: "bytes \<Rightarrow> nat \<Rightarrow> bool" where
  "answer_header hdr an \<longleftrightarrow> length hdr = 12 \<and> (hdr ! 2 AND 0xFA) = 0x80 \<and> (hdr ! 3 AND 0x0F) = 0
     \<and> 256 * unat (hdr ! 4) + unat (hdr ! 5) = 1 \<and> an = 256 * unat (hdr ! 6) + unat (hdr ! 7) \<and> an \<noteq> 0"

lemma answer_header_an:
  "answer_header (take 12 m) a \<Longrightarrow> a = 256 * unat (m ! 6) + unat (m ! 7)"
  by (simp add: answer_header_def)

lemma dns_question_begin_spec:
  fixes len :: nat
  assumes "length msg = 512"
  defines "q \<equiv> dns_question_begin zero_question msg len" and "m \<equiv> take len msg"
  shows "if \<exists>an. answer_header (take 12 m) an
    then q = zero_question\<lparr>dq_len := length m, dq_off := 12, dq_status := DNS_SCAN_RUNNING,
           dq_ancount := 256 * unat (m ! 6) + unat (m ! 7)\<rparr>
    else dq_status q = DNS_SCAN_NOT_ANSWER"
proof -
  let ?len = "if len > MAX_DNS_PKT then MAX_DNS_PKT else len"
  have m: "length m = ?len" using assms(1) by (auto simp: m_def MAX_DNS_PKT_def)
  show ?thesis
  proof (cases "?len < 12")
    case True
    then show ?thesis
      unfolding q_def using m by (auto simp: dns_question_begin_def Let_def answer_header_def)
  next
    case False
    then have l: "12 \<le> len" using m by (simp split: if_splits)
    have n: "take 12 m ! i = msg ! i" if "i < 12" for i using that l by (simp add: m_def)
    have n': "m ! i = msg ! i" if "i < 12" for i using that l by (simp add: m_def)
    have r: "dns_rd16 msg 4 = 256 * unat (msg ! 4) + unat (msg ! 5)"
        "dns_rd16 msg 6 = 256 * unat (msg ! 6) + unat (msg ! 7)"
      by (simp_all add: dns_rd16_def dns_idx_def MAX_DNS_PKT_def)
    have t: "length (take 12 m) = 12" using m False by simp
    show ?thesis
      unfolding q_def answer_header_def t
      using False by (auto simp: dns_question_begin_def Let_def n n' r m zero_question_def)
  qed
qed

lemma dns_parse_question_walked:
  assumes "length msg = 512" "answer_header (take 12 (take len msg)) an"
  shows "question_walked (dns_question_begin zero_question msg len) (name_walk (drop 12 (take len msg)) 0 [])
    (snd (dns_parse_question msg len zero_question))"
    and "fst (dns_parse_question msg len zero_question) = dq_status (snd (dns_parse_question msg len zero_question))"
proof -
  let ?q = "dns_question_begin zero_question msg len"
  have b: "?q = zero_question\<lparr>dq_len := length (take len msg), dq_off := 12, dq_status := DNS_SCAN_RUNNING,
           dq_ancount := 256 * unat (take len msg ! 6) + unat (take len msg ! 7)\<rparr>"
    using dns_question_begin_spec [OF assms(1), of len] assms(2) by metis
  have l: "12 \<le> length (take len msg)" "length (take len msg) \<le> 512"
    using assms by (auto simp: answer_header_def)
  have t: "take (length (take len msg)) msg = take len msg"
    by (metis append_eq_conv_conj append_take_drop_id)
  have q: "dq_len ?q = length (take len msg)" "dq_off ?q = 12" "dq_status ?q = DNS_SCAN_RUNNING"
      "dq_qname ?q = pad_host []" "dq_qname_len ?q = 0" "dq_label_rem ?q = 0"
    unfolding b by (simp_all add: zero_question_def pad_host_def)
  have w: "question_walked ?q (name_walk (drop 12 (take len msg)) 0 []) (dns_question_loop DNS_QNAME_STEPS ?q msg)"
    using dns_question_loop_walk [OF assms(1), of ?q "[]" DNS_QNAME_STEPS] l
    unfolding q t by (simp add: DNS_QNAME_STEPS_def MAX_HOST_LEN_def)
  then have "dq_status (dns_question_loop DNS_QNAME_STEPS ?q msg) \<noteq> DNS_SCAN_RUNNING"
    by (auto simp: question_walked_def split: sum.splits)
  then show "question_walked ?q (name_walk (drop 12 (take len msg)) 0 [])
      (snd (dns_parse_question msg len zero_question))"
    and "fst (dns_parse_question msg len zero_question) = dq_status (snd (dns_parse_question msg len zero_question))"
    using w by (simp_all add: dns_parse_question_def dns_question_end_def Let_def)
qed

lemma dns_parse_question_sound:
  assumes "length msg = 512" and q: "dns_parse_question msg len zero_question = (DNS_SCAN_OK, q)"
  shows "\<exists>hdr ls t1 t2 c1 c2 rest. take len msg = hdr @ wire_labels ls @ 0 # t1 # t2 # c1 # c2 # rest
      \<and> answer_header hdr (dq_ancount q) \<and> (\<forall>l \<in> set ls. host_label l) \<and> ls \<noteq> [] \<and> length (dotted ls) < MAX_HOST_LEN
      \<and> dq_qname q = pad_host (dotted ls) \<and> dq_qname_len q = length (dotted ls)
      \<and> dq_qtype q = 256 * unat t1 + unat t2 \<and> dq_answers_off q = 12 + length (wire_labels ls) + 5"
proof -
  have h: "\<exists>a. answer_header (take 12 (take len msg)) a"
  proof (rule ccontr)
    assume no: "\<not> ?thesis"
    then have s: "dq_status (dns_question_begin zero_question msg len) = DNS_SCAN_NOT_ANSWER"
      using dns_question_begin_spec [OF assms(1), of len] by auto
    have "dns_question_loop k q msg = q" if "dq_status q = DNS_SCAN_NOT_ANSWER" for k q
      using that by (cases k) (auto simp: dns_question_step_def)
    then show False using q s by (auto simp: dns_parse_question_def dns_question_end_def Let_def)
  qed
  then obtain a where a: "answer_header (take 12 (take len msg)) a" by blast
  note b = dns_question_begin_spec [OF assms(1), of len]
  note w = dns_parse_question_walked [OF assms(1) a]
  obtain nm R where nm: "name_walk (drop 12 (take len msg)) 0 [] = Inr (nm, R)"
    using w q by (cases "name_walk (drop 12 (take len msg)) 0 []") (auto simp: question_walked_def)
  have v: "dq_qname q = pad_host nm" "dq_qname_len q = length nm" "dq_qtype q = 256 * unat (R ! 0) + unat (R ! 1)"
      "dq_answers_off q = length (take len msg) - length R + 4" "dq_ancount q = a"
    using w(1) nm q b h answer_header_an [OF a]
    by (auto simp: question_walked_def simp del: length_take take_take)
  obtain ls where ls: "\<forall>l \<in> set ls. host_label l" "drop 12 (take len msg) = wire_labels ls @ 0 # R" "4 \<le> length R"
      "nm = dotted ls" "nm \<noteq> []" "length nm \<le> 63"
    using name_walk_sound [OF nm] by auto
  obtain t1 t2 c1 c2 rest where R: "R = t1 # t2 # c1 # c2 # rest"
    using ls(3) by (auto simp: numeral_eq_Suc Suc_le_length_iff)
  have t: "take len msg = take 12 (take len msg) @ wire_labels ls @ 0 # R"
    using ls(2) append_take_drop_id [of 12 "take len msg"] by simp
  have "length (take len msg) = 12 + length (wire_labels ls) + 1 + length R"
    using arg_cong [OF t, of length] a by (simp add: answer_header_def del: take_take)
  moreover have "ls \<noteq> []" using ls(4,5) by (auto simp: dotted_def)
  ultimately show ?thesis
    using t a ls v R
    by (intro exI [of _ "take 12 (take len msg)"] exI [of _ ls] exI [of _ t1] exI [of _ t2] exI [of _ c1]
        exI [of _ c2] exI [of _ rest]) (simp add: MAX_HOST_LEN_def)
qed

lemma dns_parse_question_iff:
  assumes "length msg = 512"
  shows "(\<exists>q. dns_parse_question msg len zero_question = (DNS_SCAN_OK, q) \<and> dq_qname q = pad_host name
      \<and> dq_qname_len q = length name \<and> dq_qtype q = ty \<and> dq_ancount q = an \<and> dq_answers_off q = off)
    \<longleftrightarrow> (\<exists>hdr ls t1 t2 c1 c2 rest. take len msg = hdr @ wire_labels ls @ 0 # t1 # t2 # c1 # c2 # rest
      \<and> answer_header hdr an \<and> (\<forall>l \<in> set ls. host_label l) \<and> ls \<noteq> [] \<and> length (dotted ls) < MAX_HOST_LEN
      \<and> name = dotted ls \<and> ty = 256 * unat t1 + unat t2 \<and> off = 12 + length (wire_labels ls) + 5)"
  (is "?L \<longleftrightarrow> ?R")
proof
  assume ?L
  then obtain q where q: "dns_parse_question msg len zero_question = (DNS_SCAN_OK, q)"
      "dq_qname q = pad_host name" "dq_qname_len q = length name" "dq_qtype q = ty" "dq_ancount q = an"
      "dq_answers_off q = off" by blast
  from dns_parse_question_sound [OF assms q(1)] obtain hdr ls t1 t2 c1 c2 rest
    where m: "take len msg = hdr @ wire_labels ls @ 0 # t1 # t2 # c1 # c2 # rest"
      "answer_header hdr (dq_ancount q)" "\<forall>l \<in> set ls. host_label l" "ls \<noteq> []" "length (dotted ls) < MAX_HOST_LEN"
      "dq_qname q = pad_host (dotted ls)" "dq_qname_len q = length (dotted ls)"
      "dq_qtype q = 256 * unat t1 + unat t2" "dq_answers_off q = 12 + length (wire_labels ls) + 5" by blast
  have "name = dotted ls" using m(6,7) q(2,3) by (auto simp: pad_host_def)
  then show ?R
    using m q by (intro exI [of _ hdr] exI [of _ ls] exI [of _ t1] exI [of _ t2] exI [of _ c1]
        exI [of _ c2] exI [of _ rest]) simp
next
  assume ?R
  then obtain hdr ls t1 t2 c1 c2 rest where m: "take len msg = hdr @ wire_labels ls @ 0 # t1 # t2 # c1 # c2 # rest"
      "answer_header hdr an" "\<forall>l \<in> set ls. host_label l" "ls \<noteq> []" "length (dotted ls) < MAX_HOST_LEN"
      "name = dotted ls" "ty = 256 * unat t1 + unat t2" "off = 12 + length (wire_labels ls) + 5" by blast
  let ?R = "t1 # t2 # c1 # c2 # rest"
  have l: "length hdr = 12" using m(2) by (simp add: answer_header_def)
  have h: "take 12 (take len msg) = hdr" "drop 12 (take len msg) = wire_labels ls @ 0 # ?R"
    unfolding m(1) using l by simp_all
  have a: "answer_header (take 12 (take len msg)) an" using m(2) h by simp
  have nm: "name_walk (drop 12 (take len msg)) 0 [] = Inr (dotted ls, ?R)"
    unfolding h(2) using name_walk_name [of ls ?R] m(3,4,5) by (simp add: MAX_HOST_LEN_def)
  note w = dns_parse_question_walked [OF assms a]
  have e: "\<exists>an. answer_header (take 12 (take len msg)) an" using a by blast
  note b = dns_question_begin_spec [OF assms, of len, unfolded if_P [OF e]]
  have b': "dq_len (dns_question_begin zero_question msg len) = length (take len msg)"
      "dq_ancount (dns_question_begin zero_question msg len) = an"
    unfolding b using answer_header_an [OF a] by (simp_all del: length_take)
  obtain q where q: "dns_parse_question msg len zero_question = (DNS_SCAN_OK, q)"
    using w nm by (cases "dns_parse_question msg len zero_question") (auto simp: question_walked_def)
  have "length (take len msg) = 12 + length (wire_labels ls) + 1 + length ?R"
    unfolding m(1) using l by simp
  then have "dq_qname q = pad_host name" "dq_qname_len q = length name" "dq_qtype q = ty" "dq_answers_off q = off"
      "dq_ancount q = an"
    using w(1) nm q b' m(6-8)
    by (auto simp: question_walked_def simp del: length_take take_take)
  then show ?L using q by blast
qed

section \<open>The wire format of resource records\<close>

definition num16 :: "bytes \<Rightarrow> nat \<Rightarrow> nat" where "num16 b i = 256 * unat (b ! i) + unat (b ! (i + 1))"

text \<open>
  A record: its owner name as labels and what ends them, a zero byte or a compression pointer; type,
  class and TTL as their 8 bytes; the data.
\<close>

record dns_rr =
  rr_labels :: "bytes list"
  rr_end :: bytes
  rr_fixed :: bytes
  rr_data :: bytes

definition wire_body :: "dns_rr \<Rightarrow> bytes" where
  "wire_body r = rr_fixed r @ [of_nat (length (rr_data r) div 256), of_nat (length (rr_data r))] @ rr_data r"

definition wire_owner :: "dns_rr \<Rightarrow> bytes" where
  "wire_owner r = wire_labels (rr_labels r) @ rr_end r"

definition wire_rrs :: "dns_rr list \<Rightarrow> bytes" where
  "wire_rrs rs = concat (map (\<lambda>r. wire_owner r @ wire_body r) rs)"

text \<open>The records of type \<open>ty\<close> to list, and the well-formed ones.\<close>

definition rr_wanted :: "nat \<Rightarrow> dns_rr \<Rightarrow> bool" where
  "rr_wanted ty r \<longleftrightarrow> dns_addr_len ty \<noteq> 0 \<and> num16 (rr_fixed r) 0 = ty \<and> num16 (rr_fixed r) 2 = DNS_CLASS_IN"

definition body_ok :: "nat \<Rightarrow> dns_rr \<Rightarrow> bool" where
  "body_ok ty r \<longleftrightarrow> length (rr_fixed r) = 8 \<and> length (rr_data r) < 65536
     \<and> (rr_wanted ty r \<longrightarrow> length (rr_data r) = dns_addr_len ty)"

definition owner_ok :: "dns_rr \<Rightarrow> bool" where
  "owner_ok r \<longleftrightarrow> (\<forall>l \<in> set (rr_labels r). l \<noteq> [] \<and> length l \<le> 63)
     \<and> (rr_end r = [0] \<or> (\<exists>p x. rr_end r = [p, x] \<and> (p AND 0xC0) = 0xC0))"

definition rr_addr :: "nat \<Rightarrow> nat \<Rightarrow> dns_rr \<Rightarrow> dns_addr_record list" where
  "rr_addr off ty r = (if rr_wanted ty r then
     [\<lparr>dr_off = off + 10, dr_ttl = 65536 * num16 (rr_fixed r) 4 + num16 (rr_fixed r) 6,
       dr_ip = rr_data r @ replicate (16 - length (rr_data r)) 0\<rparr>] else [])"

text \<open>The address records of a section that starts at \<open>off\<close>, and the steps its walk takes.\<close>

fun listed :: "nat \<Rightarrow> nat \<Rightarrow> dns_rr list \<Rightarrow> dns_addr_record list" where
  "listed off ty [] = []"
| "listed off ty (r # rs) = rr_addr (off + length (wire_owner r)) ty r
     @ listed (off + length (wire_owner r) + length (wire_body r)) ty rs"

definition rr_steps :: "dns_rr \<Rightarrow> nat" where "rr_steps r = length (rr_labels r) + 2"

lemma wire_rrs_simps [simp]:
  "wire_rrs [] = []" "wire_rrs (r # rs) = wire_owner r @ wire_body r @ wire_rrs rs"
  by (simp_all add: wire_rrs_def)

lemma u8_cases: "x \<in> set (map of_nat [0..<256])" for x :: u8
proof -
  have "unat x < 256" using unsigned_less [of x] by simp
  moreover have "x = of_nat (unat x)" by simp
  ultimately show ?thesis unfolding set_map by (metis atLeastLessThan_iff image_eqI set_upt zero_le)
qed

lemma label_type: "((b :: u8) AND 0xC0) = 0 \<longleftrightarrow> unat b \<le> 63"
proof -
  have "\<forall>b \<in> set (map of_nat [0..<256]). ((b :: u8) AND 0xC0) = 0 \<longleftrightarrow> unat b \<le> 63" by code_simp
  then show ?thesis using u8_cases by blast
qed

lemma num16_of_nat:
  assumes "n < 65536"
  shows "256 * unat (of_nat (n div 256) :: u8) + unat (of_nat n :: u8) = n"
proof -
  have "n div 256 < 256" using assms by (simp add: less_mult_imp_div_less)
  then show ?thesis by (simp add: unat_of_nat)
qed

section \<open>The answer walk\<close>

text \<open>A running walk in a section of type \<open>ty\<close>.\<close>

definition walking :: "nat \<Rightarrow> bytes \<Rightarrow> dns_answers \<Rightarrow> bool" where
  "walking ty msg a \<longleftrightarrow> length msg = 512 \<and> da_len a \<le> 512 \<and> da_status a = DNS_SCAN_RUNNING
     \<and> da_rr_type a = ty \<and> da_rr_len a = dns_addr_len ty \<and> length (da_recs a) = 8 \<and> da_n_recs a \<le> 8
     \<and> da_done a \<le> da_ancount a \<and> (\<not> da_in_name a \<longrightarrow> da_done a < da_ancount a)"

abbreviation da_rest :: "dns_answers \<Rightarrow> bytes \<Rightarrow> bytes" where
  "da_rest a msg \<equiv> drop (da_off a) (take (da_len a) msg)"

abbreviation da_listed :: "dns_answers \<Rightarrow> dns_addr_record list" where
  "da_listed a \<equiv> take (da_n_recs a) (da_recs a)"

text \<open>The record at a body, once its 10 fixed bytes are there.\<close>

definition body_at :: "dns_answers \<Rightarrow> bytes \<Rightarrow> dns_rr" where
  "body_at a msg = (let R = da_rest a msg in
     \<lparr>rr_labels = [], rr_end = [0], rr_fixed = take 8 R, rr_data = take (num16 R 8) (drop 10 R)\<rparr>)"

definition body_done :: "dns_answers \<Rightarrow> nat \<Rightarrow> dns_rr \<Rightarrow> dns_answers \<Rightarrow> bool" where
  "body_done a ty r a' \<longleftrightarrow> da_off a' = da_off a + length (wire_body r) \<and> da_done a' = da_done a + 1
     \<and> da_in_name a' \<and> da_len a' = da_len a \<and> da_ancount a' = da_ancount a
     \<and> da_listed a' = da_listed a @ rr_addr (da_off a) ty r \<and> da_n_recs a' = da_n_recs a + length (rr_addr (da_off a) ty r)"

lemma dns_rd16_rest:
  assumes "walking ty msg a" "da_off a + i + 2 \<le> da_len a"
  shows "dns_rd16 msg (da_off a + i) = num16 (da_rest a msg) i"
  using assms by (simp add: walking_def dns_rd16_def dns_idx_def MAX_DNS_PKT_def num16_def add.assoc)

lemma walking_end: "walking ty msg a \<Longrightarrow> da_rest a msg = X @ T \<Longrightarrow> X \<noteq> [] \<Longrightarrow> da_off a + length X \<le> da_len a"
  by (drule arg_cong [of _ _ length]) (auto simp: walking_def simp flip: length_greater_0_conv)

lemma dns_step_body:
  assumes "walking ty msg a" "\<not> da_in_name a" "da_rest a msg = wire_body r @ T"
    and "length (rr_fixed r) = 8" "length (rr_data r) < 65536"
  shows "if \<not> body_ok ty r then dns_answers_step a msg = (True, a\<lparr>da_status := DNS_SCAN_MALFORMED\<rparr>)
    else if rr_wanted ty r \<and> da_n_recs a \<ge> 8
    then dns_answers_step a msg = (True, a\<lparr>da_status := DNS_SCAN_INCOMPLETE\<rparr>)
    else \<exists>a'. dns_answers_step a msg = (False, a') \<and> walking ty msg a' \<and> body_done a ty r a'"
proof -
  have w: "wire_body r \<noteq> []" "length (wire_body r) = 10 + length (rr_data r)"
    using assms(4) by (simp_all add: wire_body_def)
  have e: "da_off a + 10 + length (rr_data r) \<le> da_len a" using walking_end [OF assms(1,3)] w by simp
  have le: "da_len a \<le> 512" "length msg = 512" using assms(1) by (simp_all add: walking_def)
  have n: "num16 (da_rest a msg) i = num16 (rr_fixed r) i" if "i + 1 < 8" for i
    unfolding assms(3) using assms(4) that by (simp add: num16_def wire_body_def nth_append)
  have n8: "num16 (da_rest a msg) 8 = length (rr_data r)"
    unfolding assms(3) using assms(4,5) num16_of_nat [of "length (rr_data r)"]
    by (simp add: num16_def wire_body_def nth_append)
  have rd: "dns_rd16 msg (da_off a) = num16 (rr_fixed r) 0" "dns_rd16 msg (da_off a + 2) = num16 (rr_fixed r) 2"
      "dns_rd16 msg (da_off a + 4) = num16 (rr_fixed r) 4" "dns_rd16 msg (da_off a + 6) = num16 (rr_fixed r) 6"
      "dns_rd16 msg (da_off a + 8) = length (rr_data r)"
    using dns_rd16_rest [OF assms(1), of 0] dns_rd16_rest [OF assms(1), of 2] dns_rd16_rest [OF assms(1), of 4]
      dns_rd16_rest [OF assms(1), of 6] dns_rd16_rest [OF assms(1), of 8] e n n8 by simp_all
  have d: "msg ! dns_idx (da_off a + 10 + k) = rr_data r ! k" if "k < length (rr_data r)" for k
  proof -
    have "msg ! (da_off a + (10 + k)) = da_rest a msg ! (10 + k)" using that e le by simp
    also have "\<dots> = rr_data r ! k"
      unfolding assms(3) using assms(4) that by (simp add: wire_body_def nth_append)
    finally show ?thesis using that e le by (simp add: dns_idx_def MAX_DNS_PKT_def add.assoc)
  qed
  have g: "\<not> (da_off a + 10 > da_len a \<or> da_off a \<ge> MAX_DNS_PKT)" "\<not> da_off a + 10 + length (rr_data r) > da_len a"
    using e le by (auto simp: MAX_DNS_PKT_def)
  have wt: "(da_rr_len a \<noteq> 0 \<and> num16 (rr_fixed r) 0 = da_rr_type a \<and> num16 (rr_fixed r) 2 = DNS_CLASS_IN) = rr_wanted ty r"
    using assms(1) by (simp add: rr_wanted_def walking_def)
  have st: "dns_answers_step a msg =
      (if rr_wanted ty r \<and> length (rr_data r) \<noteq> da_rr_len a then (True, a\<lparr>da_status := DNS_SCAN_MALFORMED\<rparr>)
       else if rr_wanted ty r \<and> da_n_recs a \<ge> 8 then (True, a\<lparr>da_status := DNS_SCAN_INCOMPLETE\<rparr>)
       else (False, (if rr_wanted ty r then a\<lparr>da_recs := (da_recs a)[da_n_recs a mod 8 :=
                \<lparr>dr_off = da_off a + 10, dr_ttl = 65536 * num16 (rr_fixed r) 4 + num16 (rr_fixed r) 6,
                 dr_ip = map (\<lambda>k. if k < da_rr_len a then msg ! dns_idx (da_off a + 10 + k) else 0) [0..<16]\<rparr>],
                da_n_recs := da_n_recs a + 1\<rparr> else a)
            \<lparr>da_off := da_off a + 10 + length (rr_data r), da_done := da_done a + 1, da_in_name := True\<rparr>))"
    using assms(1,2) g
    unfolding dns_answers_step_def Let_def rd wt DNS_MAX_ADDR_RECORDS_def
    by (simp add: walking_def)
  have ok: "body_ok ty r \<longleftrightarrow> \<not> (rr_wanted ty r \<and> length (rr_data r) \<noteq> da_rr_len a)"
    using assms(1,4,5) by (auto simp: body_ok_def walking_def)
  show ?thesis
  proof (cases "body_ok ty r \<and> \<not> (rr_wanted ty r \<and> da_n_recs a \<ge> 8)")
    case False
    then show ?thesis unfolding st ok by auto
  next
    case True
    show ?thesis
    proof (cases "rr_wanted ty r")
      case False
      then show ?thesis
        using True assms(1,2) w unfolding st by (simp add: walking_def body_done_def rr_addr_def)
    next
      case wt: True
      have al: "da_rr_len a = length (rr_data r)" "length (rr_data r) \<le> 16" 
        using True wt ok assms(1) by (auto simp: walking_def dns_addr_len_def split: if_splits)
      have ip: "map (\<lambda>k. if k < da_rr_len a then msg ! dns_idx (da_off a + 10 + k) else 0) [0..<16]
          = rr_data r @ replicate (16 - length (rr_data r)) 0"
        using al d by (intro nth_equalityI) (auto simp: nth_append)
      have "da_n_recs a < 8" "length (da_recs a) = 8" using True wt assms(1) by (auto simp: walking_def)
      then have "take (Suc (da_n_recs a)) ((da_recs a)[da_n_recs a := x]) = da_listed a @ [x]" for x
        by (simp add: take_Suc_conv_app_nth)
      then show ?thesis
        using True wt ok assms(1,2) w \<open>da_n_recs a < 8\<close> unfolding st ip
        by (simp add: walking_def body_done_def rr_addr_def)
    qed
  qed
qed

lemma dns_step_owner:
  assumes "walking ty msg a" "da_in_name a" "da_done a < da_ancount a"
  shows "dns_answers_step a msg = (case da_rest a msg of
      [] \<Rightarrow> (True, a\<lparr>da_status := DNS_SCAN_INCOMPLETE\<rparr>)
    | b # T \<Rightarrow> if b = 0 then (False, a\<lparr>da_off := da_off a + 1, da_in_name := False\<rparr>)
        else if (b AND 0xC0) = 0xC0 then (False, a\<lparr>da_off := da_off a + 2, da_in_name := False\<rparr>)
        else if (b AND 0xC0) \<noteq> 0 then (True, a\<lparr>da_status := DNS_SCAN_MALFORMED\<rparr>)
        else (False, a\<lparr>da_off := da_off a + 1 + unat b\<rparr>))"
proof (cases "da_off a < da_len a")
  case True
  have l: "da_len a \<le> 512" "length msg = 512" using assms(1) by (simp_all add: walking_def)
  then have r: "da_rest a msg = msg ! da_off a # drop (da_off a + 1) (take (da_len a) msg)"
    using True by (simp add: Cons_nth_drop_Suc [symmetric])
  have i: "dns_idx (da_off a) = da_off a" "\<not> (da_off a \<ge> da_len a \<or> da_off a \<ge> MAX_DNS_PKT)"
    using True l by (simp_all add: dns_idx_def MAX_DNS_PKT_def)
  show ?thesis
    unfolding r using assms i by (simp add: dns_answers_step_def Let_def walking_def)
next
  case False
  then show ?thesis using assms by (simp add: dns_answers_step_def Let_def walking_def)
qed

lemma da_rest_add: "da_rest a msg = X @ T \<Longrightarrow> da_rest (a\<lparr>da_off := da_off a + length X\<rparr>) msg = T"
  by (simp add: add.commute [of "da_off a"] drop_drop [symmetric] del: drop_drop)

lemma da_rest_in_name [simp]: "da_rest (a\<lparr>da_in_name := b\<rparr>) msg = da_rest a msg" by simp

lemma walking_upd:
  "walking ty msg (a\<lparr>da_off := o1\<rparr>) = walking ty msg a"
  "da_done a < da_ancount a \<Longrightarrow> walking ty msg a \<Longrightarrow> walking ty msg (a\<lparr>da_off := o1, da_in_name := b\<rparr>)"
  by (auto simp: walking_def)

lemma dns_loop_owner:
  assumes "walking ty msg a" "da_in_name a" "da_done a < da_ancount a" "owner_ok r" "da_rest a msg = wire_owner r @ T"
  shows "dns_answers_loop (length (rr_labels r) + 1 + k) a msg
    = dns_answers_loop k (a\<lparr>da_off := da_off a + length (wire_owner r), da_in_name := False\<rparr>) msg"
  using assms
proof (induction "rr_labels r" arbitrary: r a)
  case Nil
  have w: "wire_owner r = rr_end r" using Nil(1) by (simp add: wire_owner_def flip: Nil(1))
  have "dns_answers_step a msg = (False, a\<lparr>da_off := da_off a + length (rr_end r), da_in_name := False\<rparr>)"
    using dns_step_owner [OF Nil(2-4)] Nil(5,6) unfolding w by (auto simp: owner_ok_def)
  then show ?case unfolding w Nil(1) [symmetric] by simp
next
  case (Cons l ls)
  let ?r = "r\<lparr>rr_labels := ls\<rparr>"
  have w: "wire_owner r = (of_nat (length l) # l) @ wire_owner ?r"
    by (simp add: wire_owner_def flip: Cons(2))
  have l: "l \<noteq> []" "length l \<le> 63" "owner_ok ?r" using Cons(2,6) by (auto simp: owner_ok_def simp flip: Cons(2))
  then have u: "unat (of_nat (length l) :: u8) = length l" by (simp add: unat_of_nat)
  then have n: "(of_nat (length l) :: u8) \<noteq> 0" using l(1) by (metis length_0_conv unat_0)
  have z: "((of_nat (length l) :: u8) AND 0xC0) = 0" unfolding label_type u using l by simp
  let ?a = "a\<lparr>da_off := da_off a + length (of_nat (length l) # l)\<rparr>"
  have s: "dns_answers_step a msg = (False, ?a)"
    using dns_step_owner [OF Cons(3-5)] Cons(7) n z u unfolding w by simp
  have R: "da_rest ?a msg = wire_owner ?r @ T"
    using da_rest_add [of a msg "of_nat (length l) # l"] Cons(7) unfolding w by simp
  have "dns_answers_loop (length (rr_labels r) + 1 + k) a msg = dns_answers_loop (length (rr_labels ?r) + 1 + k) ?a msg"
    using s by (simp flip: Cons(2))
  also have "\<dots> = dns_answers_loop k (?a\<lparr>da_off := da_off ?a + length (wire_owner ?r), da_in_name := False\<rparr>) msg"
    by (rule Cons(1) [of ?r ?a]) (use Cons(3-5) l R in \<open>simp_all add: walking_upd\<close>)
  also have "\<dots> = dns_answers_loop k (a\<lparr>da_off := da_off a + length (wire_owner r), da_in_name := False\<rparr>) msg"
    unfolding w by (simp add: add.assoc)
  finally show ?case .
qed

lemma dns_answers_complete:
  assumes "walking ty msg a" "da_in_name a" "da_done a + length rs = da_ancount a"
    and "\<forall>r \<in> set rs. owner_ok r \<and> body_ok ty r" "da_rest a msg = wire_rrs rs @ T"
    and "da_n_recs a + length (listed (da_off a) ty rs) \<le> 8" "(\<Sum>r \<leftarrow> rs. rr_steps r) \<le> k"
  shows "\<exists>a'. dns_answers_end (dns_answers_loop k a msg) = (DNS_SCAN_OK, a')
    \<and> da_listed a' = da_listed a @ listed (da_off a) ty rs \<and> da_n_recs a' = da_n_recs a + length (listed (da_off a) ty rs)"
  using assms
proof (induction rs arbitrary: a k)
  case Nil
  then show ?case
    by (cases k) (auto simp: dns_answers_end_def dns_answers_step_def walking_def Let_def)
next
  case (Cons r rs)
  let ?o = "da_off a + length (wire_owner r)"
  let ?b = "a\<lparr>da_off := ?o, da_in_name := False\<rparr>"
  obtain k' where k: "k = length (rr_labels r) + 1 + Suc k'" "(\<Sum>r \<leftarrow> rs. rr_steps r) \<le> k'"
  proof
    show "k = length (rr_labels r) + 1 + Suc (k - rr_steps r)" "(\<Sum>r \<leftarrow> rs. rr_steps r) \<le> k - rr_steps r"
      using Cons(8) by (simp_all add: rr_steps_def)
  qed
  have d: "da_done a < da_ancount a" using Cons(4) by simp
  have R: "da_rest a msg = wire_owner r @ (wire_body r @ wire_rrs rs @ T)" using Cons(6) by simp
  have lb: "dns_answers_loop k a msg = dns_answers_loop (Suc k') ?b msg"
    unfolding k(1) by (rule dns_loop_owner [OF Cons(2,3) d _ R]) (use Cons(5) in simp)
  have Rb: "da_rest ?b msg = wire_body r @ (wire_rrs rs @ T)" using da_rest_add [OF R] by simp
  have wb: "walking ty msg ?b" using walking_upd(2) [OF d Cons(2)] .
  have n: "\<not> (rr_wanted ty r \<and> da_n_recs ?b \<ge> 8)" using Cons(7) by (auto simp: rr_addr_def)
  obtain a1 where a1: "dns_answers_step ?b msg = (False, a1)" "walking ty msg a1" "body_done ?b ty r a1"
    using dns_step_body [OF wb _ Rb] Cons(5) n by (auto simp: body_ok_def)
  have o1: "da_off a1 = ?o + length (wire_body r)" using a1(3) by (simp add: body_done_def)
  have R1: "da_rest a1 msg = wire_rrs rs @ T"
    using da_rest_add [OF Rb] a1(3) by (simp add: body_done_def)
  have "\<exists>a'. dns_answers_end (dns_answers_loop k' a1 msg) = (DNS_SCAN_OK, a')
      \<and> da_listed a' = da_listed a1 @ listed (da_off a1) ty rs \<and> da_n_recs a' = da_n_recs a1 + length (listed (da_off a1) ty rs)"
    by (rule Cons.IH [OF a1(2) _ _ _ R1 _ k(2)]) (use a1(3) Cons(4,5,7) o1 in \<open>auto simp: body_done_def\<close>)
  then show ?case
    unfolding lb using a1 o1 by (auto simp: body_done_def)
qed

text \<open>A walk that ends in \<open>DNS_SCAN_OK\<close> has read that many records.\<close>

definition scanned :: "nat \<Rightarrow> bytes \<Rightarrow> dns_answers \<Rightarrow> nat \<Rightarrow> dns_answers \<Rightarrow> bool" where
  "scanned ty msg a k a' \<longleftrightarrow> (if da_in_name a then
      \<exists>rs T. length rs = da_ancount a - da_done a \<and> (\<forall>r \<in> set rs. owner_ok r \<and> body_ok ty r)
        \<and> da_rest a msg = wire_rrs rs @ T \<and> (\<Sum>r \<leftarrow> rs. rr_steps r) \<le> k
        \<and> da_listed a' = da_listed a @ listed (da_off a) ty rs
        \<and> da_n_recs a' = da_n_recs a + length (listed (da_off a) ty rs) \<and> da_n_recs a' \<le> 8
    else \<exists>r rs T. Suc (length rs) = da_ancount a - da_done a \<and> body_ok ty r
        \<and> (\<forall>r \<in> set rs. owner_ok r \<and> body_ok ty r)
        \<and> da_rest a msg = wire_body r @ wire_rrs rs @ T \<and> Suc (\<Sum>r \<leftarrow> rs. rr_steps r) \<le> k
        \<and> da_listed a' = da_listed a @ rr_addr (da_off a) ty r @ listed (da_off a + length (wire_body r)) ty rs
        \<and> da_n_recs a' = da_n_recs a + length (rr_addr (da_off a) ty r)
            + length (listed (da_off a + length (wire_body r)) ty rs) \<and> da_n_recs a' \<le> 8)"

lemma dns_answers_loop_stopped:
  "dns_answers_step a msg = (True, a') \<Longrightarrow> dns_answers_loop (Suc k) a msg = a'" by simp

lemma scanned_owner:
  assumes "scanned ty msg (a\<lparr>da_off := da_off a + length e, da_in_name := False\<rparr>) k a'" "da_in_name a"
    and "da_rest a msg = e @ T" "e = [0] \<or> (\<exists>p x. e = [p, x] \<and> (p AND 0xC0) = 0xC0)"
  shows "scanned ty msg a (Suc k) a'"
proof -
  let ?a = "a\<lparr>da_off := da_off a + length e, da_in_name := False\<rparr>"
  obtain r rs T' where r: "Suc (length rs) = da_ancount a - da_done a" "body_ok ty r"
      "\<forall>r \<in> set rs. owner_ok r \<and> body_ok ty r" "da_rest ?a msg = wire_body r @ wire_rrs rs @ T'"
      "Suc (\<Sum>r \<leftarrow> rs. rr_steps r) \<le> k"
      "da_listed a' = da_listed a @ rr_addr (da_off ?a) ty r @ listed (da_off ?a + length (wire_body r)) ty rs"
      "da_n_recs a' = da_n_recs a + length (rr_addr (da_off ?a) ty r)
            + length (listed (da_off ?a + length (wire_body r)) ty rs)" "da_n_recs a' \<le> 8"
    using assms(1) unfolding scanned_def by auto
  let ?r = "r\<lparr>rr_labels := [], rr_end := e\<rparr>"
  have v: "wire_body ?r = wire_body r" "rr_addr o2 ty ?r = rr_addr o2 ty r" "body_ok ty ?r = body_ok ty r"
      "wire_owner ?r = e" "owner_ok ?r" "rr_steps ?r = 2" for o2
    using assms(4) by (auto simp: wire_body_def rr_addr_def rr_wanted_def body_ok_def wire_owner_def owner_ok_def rr_steps_def)
  have "da_rest a msg = wire_rrs (?r # rs) @ T'"
    using assms(3) r(4) da_rest_add [OF assms(3)] by (simp add: v)
  then show ?thesis
    unfolding scanned_def using assms(2) r v
    by (auto simp: add.assoc intro!: exI [of _ "?r # rs"])
qed

lemma scanned_label:
  assumes "scanned ty msg (a\<lparr>da_off := da_off a + 1 + length l\<rparr>) k a'" "da_in_name a" "da_done a < da_ancount a"
    and "da_rest a msg = (of_nat (length l) # l) @ T" "l \<noteq> []" "length l \<le> 63"
  shows "scanned ty msg a (Suc k) a'"
proof -
  let ?a = "a\<lparr>da_off := da_off a + 1 + length l\<rparr>"
  obtain rs' T' where r': "length rs' = da_ancount a - da_done a" "\<forall>r \<in> set rs'. owner_ok r \<and> body_ok ty r"
      "da_rest ?a msg = wire_rrs rs' @ T'" "(\<Sum>r \<leftarrow> rs'. rr_steps r) \<le> k"
      "da_listed a' = da_listed a @ listed (da_off ?a) ty rs'"
      "da_n_recs a' = da_n_recs a + length (listed (da_off ?a) ty rs')" "da_n_recs a' \<le> 8"
    using assms(1,2) unfolding scanned_def by auto
  obtain r rs where rs: "rs' = r # rs" using r'(1) assms(3) by (cases rs') auto
  let ?r = "r\<lparr>rr_labels := l # rr_labels r\<rparr>"
  have v: "wire_body ?r = wire_body r" "rr_addr o2 ty ?r = rr_addr o2 ty r" "body_ok ty ?r = body_ok ty r"
      "wire_owner ?r = of_nat (length l) # l @ wire_owner r" "owner_ok r \<Longrightarrow> owner_ok ?r" "rr_steps ?r = Suc (rr_steps r)" for o2
    using assms(5,6) by (auto simp: wire_body_def rr_addr_def rr_wanted_def body_ok_def wire_owner_def owner_ok_def rr_steps_def)
  have "da_rest ?a msg = T" using da_rest_add [OF assms(4)] by simp
  then have "da_rest a msg = wire_rrs (?r # rs) @ T'"
    using assms(4) r'(3) rs by (simp add: v)
  moreover have "listed (da_off a) ty (?r # rs) = listed (da_off ?a) ty rs'"
    by (simp add: rs v add.assoc add.left_commute)
  ultimately show ?thesis
    unfolding scanned_def using assms(2) r' v rs
    by (auto intro!: exI [of _ "?r # rs"] exI [of _ T'])
qed

lemma dns_step_short_body:
  assumes "walking ty msg a" "\<not> da_in_name a"
    and "length (da_rest a msg) < 10 \<or> length (da_rest a msg) < 10 + num16 (da_rest a msg) 8"
  shows "dns_answers_step a msg = (True, a\<lparr>da_status := DNS_SCAN_INCOMPLETE\<rparr>)"
proof -
  have d: "da_done a < da_ancount a" "da_status a = DNS_SCAN_RUNNING" "length msg = 512" "da_len a \<le> 512"
    using assms(1,2) by (auto simp: walking_def)
  show ?thesis
  proof (cases "da_off a + 10 > da_len a \<or> da_off a \<ge> MAX_DNS_PKT")
    case True
    then show ?thesis using assms(2) d by (simp add: dns_answers_step_def Let_def)
  next
    case False
    then have "dns_rd16 msg (da_off a + 8) = num16 (da_rest a msg) 8"
      using dns_rd16_rest [OF assms(1), of 8] by simp
    then have "da_off a + 10 + dns_rd16 msg (da_off a + 8) > da_len a"
      using assms(3) False d by auto
    then show ?thesis using False assms(2) d by (simp add: dns_answers_step_def Let_def)
  qed
qed

lemma u8_of_nat_256: "(of_nat (256 * h + l) :: u8) = of_nat l"
proof -
  have "(256 :: u8) = 0" by simp
  then show ?thesis by (simp only: of_nat_add of_nat_mult of_nat_numeral) simp
qed

lemma body_at_wire:
  assumes "10 \<le> length (da_rest a msg)" "10 + num16 (da_rest a msg) 8 \<le> length (da_rest a msg)"
  shows "\<exists>T. da_rest a msg = wire_body (body_at a msg) @ T"
    and "length (rr_fixed (body_at a msg)) = 8" "length (rr_data (body_at a msg)) < 65536"
proof -
  define R where "R = da_rest a msg"
  have h: "unat (R ! 8) < 256" "unat (R ! 9) < 256"
    using unsigned_less [of "R ! 8"] unsigned_less [of "R ! 9"] by simp_all
  have dl: "length (take (num16 R 8) (drop 10 R)) = 256 * unat (R ! 8) + unat (R ! 9)"
    using assms by (simp add: R_def num16_def)
  have w: "wire_body (body_at a msg) = take 8 R @ [R ! 8, R ! 9] @ take (num16 R 8) (drop 10 R)"
    unfolding wire_body_def body_at_def Let_def R_def [symmetric] dns_rr.simps dl
    using h by (simp add: u8_of_nat_256 del: of_nat_add of_nat_mult)
  have "R = take 8 R @ [R ! 8, R ! 9] @ drop 10 R"
  proof -
    have "drop 8 R = R ! 8 # R ! 9 # drop 10 R"
      using assms(1) Cons_nth_drop_Suc [of 8 R] Cons_nth_drop_Suc [of 9 R] by (simp add: R_def [symmetric])
    then show ?thesis by (metis append_take_drop_id append_Cons append_Nil)
  qed
  then have "R = wire_body (body_at a msg) @ drop (num16 R 8) (drop 10 R)"
    unfolding w by (metis append.assoc append_take_drop_id)
  then show "\<exists>T. da_rest a msg = wire_body (body_at a msg) @ T" unfolding R_def by blast
  show "length (rr_fixed (body_at a msg)) = 8" "length (rr_data (body_at a msg)) < 65536"
    using assms(1) h dl by (simp_all add: body_at_def Let_def R_def)
qed

lemma dns_answers_sound:
  assumes "walking ty msg a" "dns_answers_end (dns_answers_loop k a msg) = (DNS_SCAN_OK, a')"
  shows "scanned ty msg a k a'"
  using assms
proof (induction k arbitrary: a)
  case 0
  then show ?case
    by (auto simp: scanned_def dns_answers_end_def walking_def Let_def split: if_splits)
next
  case (Suc k)
  have e: "\<not> dns_answers_step a msg = (True, a\<lparr>da_status := DNS_SCAN_INCOMPLETE\<rparr>)"
    "\<not> dns_answers_step a msg = (True, a\<lparr>da_status := DNS_SCAN_MALFORMED\<rparr>)"
    using Suc.prems(2) by (auto simp: dns_answers_end_def Let_def)
  have go: "scanned ty msg b k a'" if "dns_answers_step a msg = (False, b)" "walking ty msg b" for b
    using Suc.IH [OF that(2)] Suc.prems(2) that(1) by simp
  consider "da_done a = da_ancount a" "da_in_name a" | "da_done a < da_ancount a" "da_in_name a" | "\<not> da_in_name a"
    using Suc.prems(1) unfolding walking_def by linarith
  then show ?case
  proof cases
    case 1
    then have "dns_answers_step a msg = (True, a\<lparr>da_status := DNS_SCAN_OK\<rparr>)"
      using Suc.prems(1) by (simp add: dns_answers_step_def walking_def)
    then show ?thesis
      using Suc.prems 1 by (auto simp: scanned_def dns_answers_end_def walking_def Let_def)
  next
    case 2
    note st = dns_step_owner [OF Suc.prems(1) 2(2,1)]
    obtain b T where R: "da_rest a msg = b # T" using st e(1) by (cases "da_rest a msg") auto
    have m: "b = 0 \<or> (b AND 0xC0) = 0xC0 \<or> (b AND 0xC0) = 0"
    proof (rule ccontr)
      assume "\<not> ?thesis"
      then have "dns_answers_step a msg = (True, a\<lparr>da_status := DNS_SCAN_MALFORMED\<rparr>)"
        unfolding st R list.case by (simp only: de_Morgan_disj if_False if_True simp_thms)
      then show False using e(2) by contradiction
    qed
    consider "b = 0" | "b \<noteq> 0" "(b AND 0xC0) = 0xC0" | "b \<noteq> 0" "(b AND 0xC0) = 0"
      using m by blast
    then show ?thesis
    proof cases
      case 1
      let ?b = "a\<lparr>da_off := da_off a + 1, da_in_name := False\<rparr>"
      have "scanned ty msg ?b k a'"
        using go [of ?b] st R 1 walking_upd(2) [OF 2(1) Suc.prems(1)] by simp
      then show ?thesis using scanned_owner [of ty msg a "[0]" k a' T] R 1 2 by simp
    next
      case p: 2
      let ?b = "a\<lparr>da_off := da_off a + 2, da_in_name := False\<rparr>"
      have s: "scanned ty msg ?b k a'"
        using go [of ?b] st R p walking_upd(2) [OF 2(1) Suc.prems(1)] by simp
      then have "da_rest ?b msg \<noteq> []" by (auto simp: scanned_def wire_body_def)
      then have "drop 2 (da_rest a msg) \<noteq> []" by (simp add: add.commute)
      then obtain x T' where "T = x # T'" using R by (cases T) auto
      then show ?thesis
        using scanned_owner [of ty msg a "[b, x]" k a' T'] s R p(2) 2 by simp
    next
      case l: 3
      let ?b = "a\<lparr>da_off := da_off a + 1 + unat b\<rparr>"
      have s: "scanned ty msg ?b k a'"
        using go [of ?b] st R l walking_upd(1) [of ty msg] Suc.prems(1) by auto
      have u: "unat b \<noteq> 0" "unat b \<le> 63" using l by (simp_all add: unat_eq_0 flip: label_type)
      have "da_rest ?b msg \<noteq> []"
      proof -
        obtain rs T2 where r: "length rs = da_ancount a - da_done a" "da_rest ?b msg = wire_rrs rs @ T2"
            "\<forall>r \<in> set rs. body_ok ty r"
          using s 2 by (auto simp: scanned_def)
        then show ?thesis using 2(1) by (cases rs) (auto simp: wire_body_def)
      qed
      then have "length (da_rest a msg) > 1 + unat b" by simp
      then have t: "T = take (unat b) T @ drop (unat b) T" "length (take (unat b) T) = unat b" unfolding R by simp_all
      show ?thesis
      proof (rule scanned_label [where l = "take (unat b) T" and T = "drop (unat b) T"])
        show "scanned ty msg (a\<lparr>da_off := da_off a + 1 + length (take (unat b) T)\<rparr>) k a'" using s t(2) by simp
        show "da_rest a msg = (of_nat (length (take (unat b) T)) # take (unat b) T) @ drop (unat b) T"
          unfolding t(2) R by simp
        show "take (unat b) T \<noteq> []" "length (take (unat b) T) \<le> 63" using t(2) u by auto
      qed (use 2 in auto)
    qed
  next
    case 3
    have l: "10 \<le> length (da_rest a msg)" "10 + num16 (da_rest a msg) 8 \<le> length (da_rest a msg)"
      using dns_step_short_body [OF Suc.prems(1) 3] e(1) by force+
    obtain T where T: "da_rest a msg = wire_body (body_at a msg) @ T" using body_at_wire(1) [OF l] by blast
    let ?r = "body_at a msg"
    have b: "body_ok ty ?r" "\<exists>a1. dns_answers_step a msg = (False, a1) \<and> walking ty msg a1 \<and> body_done a ty ?r a1"
      using dns_step_body [OF Suc.prems(1) 3 T body_at_wire(2,3) [OF l]] e by (auto split: if_splits)
    then obtain a1 where a1: "dns_answers_step a msg = (False, a1)" "walking ty msg a1" "body_done a ty ?r a1" by blast
    have R1: "da_rest a1 msg = T" using da_rest_add [OF T] a1(3) by (simp add: body_done_def)
    have "scanned ty msg a1 k a'" by (rule go [OF a1(1,2)])
    then obtain rs T2 where rs: "length rs = da_ancount a1 - da_done a1" "\<forall>r \<in> set rs. owner_ok r \<and> body_ok ty r"
        "da_rest a1 msg = wire_rrs rs @ T2" "(\<Sum>r \<leftarrow> rs. rr_steps r) \<le> k"
        "da_listed a' = da_listed a1 @ listed (da_off a1) ty rs"
        "da_n_recs a' = da_n_recs a1 + length (listed (da_off a1) ty rs)" "da_n_recs a' \<le> 8"
      using a1(3) by (auto simp: scanned_def body_done_def)
    have TT: "da_rest a msg = wire_body ?r @ wire_rrs rs @ T2" using T R1 rs(3) by simp
    have "da_done a < da_ancount a" using Suc.prems(1) 3 by (simp add: walking_def)
    moreover have bd: "da_listed a1 = da_listed a @ rr_addr (da_off a) ty ?r" "da_off a1 = da_off a + length (wire_body ?r)"
      using a1(3) unfolding body_done_def by blast+
    have "da_listed a' = da_listed a @ rr_addr (da_off a) ty ?r @ listed (da_off a + length (wire_body ?r)) ty rs"
      unfolding rs(5) bd by simp
    moreover have "Suc (length rs) = da_ancount a - da_done a" "da_n_recs a' = da_n_recs a + length (rr_addr (da_off a) ty ?r)
            + length (listed (da_off a + length (wire_body ?r)) ty rs)"
      using rs(1,6) a1(3) \<open>da_done a < da_ancount a\<close> by (simp_all add: body_done_def)
    ultimately show ?thesis
      unfolding scanned_def if_not_P [OF 3] using b(1) rs(2,7) TT Suc_le_mono [THEN iffD2, OF rs(4)] by blast
  qed
qed

lemma dns_scan_iff:
  assumes "length msg = 512"
  shows "(\<exists>a. dns_scan_addr_records msg len off an ty zero_answers = (DNS_SCAN_OK, a) \<and> da_listed a = recs
      \<and> da_n_recs a = length recs)
    \<longleftrightarrow> (\<exists>rs rest. drop off (take len msg) = wire_rrs rs @ rest \<and> length rs = an
      \<and> (\<forall>r \<in> set rs. owner_ok r \<and> body_ok ty r) \<and> (\<Sum>r \<leftarrow> rs. rr_steps r) \<le> DNS_SCAN_STEPS
      \<and> recs = listed off ty rs \<and> length recs \<le> DNS_MAX_ADDR_RECORDS)"
proof -
  let ?a = "dns_answers_begin zero_answers len off an ty"
  have f: "da_in_name ?a" "da_done ?a = 0" "da_ancount ?a = an" "da_off ?a = off" "da_n_recs ?a = 0"
      "da_len ?a = (if len > 512 then 512 else len)"
    by (simp_all add: dns_answers_begin_def zero_answers_def Let_def MAX_DNS_PKT_def)
  have w: "walking ty msg ?a"
    using assms by (simp add: walking_def dns_answers_begin_def zero_answers_def Let_def MAX_DNS_PKT_def
        DNS_MAX_ADDR_RECORDS_def)
  have t: "da_rest ?a msg = drop off (take len msg)" unfolding f using assms by simp
  show ?thesis
  proof
    assume "\<exists>a. dns_scan_addr_records msg len off an ty zero_answers = (DNS_SCAN_OK, a) \<and> da_listed a = recs
      \<and> da_n_recs a = length recs"
    then obtain a where a: "dns_answers_end (dns_answers_loop DNS_SCAN_STEPS ?a msg) = (DNS_SCAN_OK, a)"
        "da_listed a = recs" "da_n_recs a = length recs"
      unfolding dns_scan_addr_records_def by blast
    have a2: "take (length recs) (da_recs a) = recs" using a(2) unfolding a(3) .
    from dns_answers_sound [OF w a(1)] obtain rs T where "length rs = an" "\<forall>r \<in> set rs. owner_ok r \<and> body_ok ty r"
        "drop off (take len msg) = wire_rrs rs @ T" "(\<Sum>r \<leftarrow> rs. rr_steps r) \<le> DNS_SCAN_STEPS"
        "da_listed a = listed off ty rs" "da_n_recs a \<le> 8"
      unfolding scanned_def if_P [OF f(1)] f(2-5) t [unfolded f(4)] by auto
    then show "\<exists>rs rest. drop off (take len msg) = wire_rrs rs @ rest \<and> length rs = an
      \<and> (\<forall>r \<in> set rs. owner_ok r \<and> body_ok ty r) \<and> (\<Sum>r \<leftarrow> rs. rr_steps r) \<le> DNS_SCAN_STEPS
      \<and> recs = listed off ty rs \<and> length recs \<le> DNS_MAX_ADDR_RECORDS"
      unfolding a(3) a2 DNS_MAX_ADDR_RECORDS_def by blast
  next
    assume "\<exists>rs rest. drop off (take len msg) = wire_rrs rs @ rest \<and> length rs = an
      \<and> (\<forall>r \<in> set rs. owner_ok r \<and> body_ok ty r) \<and> (\<Sum>r \<leftarrow> rs. rr_steps r) \<le> DNS_SCAN_STEPS
      \<and> recs = listed off ty rs \<and> length recs \<le> DNS_MAX_ADDR_RECORDS"
    then obtain rs rest where r: "drop off (take len msg) = wire_rrs rs @ rest" "length rs = an"
      "\<forall>r \<in> set rs. owner_ok r \<and> body_ok ty r" "(\<Sum>r \<leftarrow> rs. rr_steps r) \<le> DNS_SCAN_STEPS"
      "recs = listed off ty rs" "length recs \<le> DNS_MAX_ADDR_RECORDS" by blast
    have "\<exists>a'. dns_answers_end (dns_answers_loop DNS_SCAN_STEPS ?a msg) = (DNS_SCAN_OK, a')
        \<and> da_listed a' = da_listed ?a @ listed (da_off ?a) ty rs
        \<and> da_n_recs a' = da_n_recs ?a + length (listed (da_off ?a) ty rs)"
      by (rule dns_answers_complete [OF w f(1) _ r(3) _ _ r(4), of rest])
        (use r(2,5,6) r(1)[folded t] f(2-5) in \<open>simp_all add: DNS_MAX_ADDR_RECORDS_def\<close>)
    then show "\<exists>a. dns_scan_addr_records msg len off an ty zero_answers = (DNS_SCAN_OK, a) \<and> da_listed a = recs
      \<and> da_n_recs a = length recs"
      unfolding f(4,5) dns_scan_addr_records_def r(5) by auto
  qed
qed

section \<open>Checksum bytes at an odd offset\<close>

lemma csum_odd_bytes_swap: "csum_odd_bytes (be_word [a, b, c, d]) = be_word [b, a, d, c]"
proof (rule bit_eqI)
  fix n
  assume "possible_bit TYPE(32 word) n"
  then have n: "n < 32" by (simp add: possible_bit_def)
  have c: "(0x00FF00FF :: u32) = mask 8 OR push_bit 16 (mask 8)" by code_simp
  have m: "bit (0x00FF00FF :: u32) k \<longleftrightarrow> k < 8 \<or> 16 \<le> k \<and> k < 24" for k
    unfolding c by (auto simp: bit_or_iff bit_push_bit_iff bit_mask_iff)
  define r where "r = n mod 8"
  have r: "r < 8" by (simp add: r_def)
  have d: "(8 + r) div 8 = 1" "(16 + r) div 8 = 2" "(24 + r) div 8 = 3" "(32 + r) div 8 = 4" "r div 8 = 0"
    "(8 + r) mod 8 = r" "(16 + r) mod 8 = r" "(24 + r) mod 8 = r" "(32 + r) mod 8 = r" "r mod 8 = r"
    using r by presburger+
  have s: "8 + r - 8 = r" "16 + r - 8 = 8 + r" "24 + r - 8 = 16 + r" "8 + (8 + r) = 16 + r" "8 + (16 + r) = 24 + r"
    "8 + (24 + r) = 32 + r" by simp_all
  have "n = r \<or> n = 8 + r \<or> n = 16 + r \<or> n = 24 + r" using n unfolding r_def by presburger
  then show "bit (csum_odd_bytes (be_word [a, b, c, d])) n = bit (be_word [b, a, d, c] :: u32) n"
    unfolding csum_odd_bytes_def bit_or_iff bit_and_iff bit_push_bit_iff bit_drop_bit_eq o_def m
    using r by (elim disjE; simp only: s; simp add: bit_be_word d)
qed

section \<open>Properties\<close>

text \<open>
  C21: the question walk answers \<open>DNS_SCAN_OK\<close> exactly for a NOERROR answer to one question whose
  name is an uncompressed sequence of host labels of fewer than 64 bytes; it then gives the name
  lowercased and dotted, the type, the number of answers and where they start.
\<close>

theorem dns_parse_question_exact:
  assumes "length msg = 512"
  shows "(\<exists>q. dns_parse_question msg len zero_question = (DNS_SCAN_OK, q) \<and> dq_qname q = pad_host name
      \<and> dq_qname_len q = length name \<and> dq_qtype q = ty \<and> dq_ancount q = an \<and> dq_answers_off q = off)
    \<longleftrightarrow> (\<exists>hdr ls t1 t2 c1 c2 rest. take len msg = hdr @ wire_labels ls @ 0 # t1 # t2 # c1 # c2 # rest
      \<and> answer_header hdr an \<and> (\<forall>l \<in> set ls. host_label l) \<and> ls \<noteq> [] \<and> length (dotted ls) < MAX_HOST_LEN
      \<and> name = dotted ls \<and> ty = 256 * unat t1 + unat t2 \<and> off = 12 + length (wire_labels ls) + 5)"
  using dns_parse_question_iff [OF assms] .

text \<open>An answer for \<open>a.b\<close>, type A, with one record: a compression pointer and 1.2.3.4.\<close>

definition example_answer :: bytes where
  "example_answer = [0x12, 0x34, 0x81, 0x80, 0, 1, 0, 1, 0, 0, 0, 0] @ [1, 0x41, 1, 0x62, 0, 0, 1, 0, 1]
     @ [0xC0, 12, 0, 1, 0, 1, 0, 0, 0, 60, 0, 4, 1, 2, 3, 4]"

definition example_msg :: bytes where
  "example_msg = example_answer @ replicate 475 0"

lemma example_msg: "length example_msg = 512" "take 37 example_msg = example_answer"
  by (simp_all add: example_msg_def example_answer_def)

theorem dns_parse_question_exact_witness:
  "\<exists>q. dns_parse_question example_msg 37 zero_question = (DNS_SCAN_OK, q)
     \<and> dq_qname q = pad_host [0x61, 0x2E, 0x62] \<and> dq_qname_len q = 3 \<and> dq_qtype q = 1 \<and> dq_ancount q = 1
     \<and> dq_answers_off q = 21"
proof -
  have d: "dotted [[0x41], [0x62]] = [0x61, 0x2E, 0x62]" by code_simp
  have h: "host_label [0x41]" "host_label [0x62]" by code_simp+
  have "\<exists>hdr ls t1 t2 c1 c2 rest. take 37 example_msg = hdr @ wire_labels ls @ 0 # t1 # t2 # c1 # c2 # rest
      \<and> answer_header hdr 1 \<and> (\<forall>l \<in> set ls. host_label l) \<and> ls \<noteq> [] \<and> length (dotted ls) < MAX_HOST_LEN
      \<and> [0x61, 0x2E, 0x62] = dotted ls \<and> 1 = 256 * unat t1 + unat t2 \<and> 21 = 12 + length (wire_labels ls) + 5"
    unfolding example_msg
    by (rule exI [of _ "take 12 example_answer"], rule exI [of _ "[[0x41], [0x62]]"])
      (auto simp: d h example_answer_def answer_header_def MAX_HOST_LEN_def)
  then show ?thesis
    using dns_parse_question_exact [OF example_msg(1), of 37 "[0x61, 0x2E, 0x62]" 1 1 21]
    by (simp add: numeral_3_eq_3)
qed

text \<open>
  C20: the answer walk answers \<open>DNS_SCAN_OK\<close> exactly when the section holds \<open>an\<close> well-formed records
  within its step budget, every address record of the type having an address of its size and there
  being at most 8; it then lists every one of them, with its offset, TTL and address, and no other.
\<close>

theorem dns_scan_addr_records_exact:
  assumes "length msg = 512"
  shows "(\<exists>a. dns_scan_addr_records msg len off an ty zero_answers = (DNS_SCAN_OK, a)
      \<and> take (da_n_recs a) (da_recs a) = recs \<and> da_n_recs a = length recs)
    \<longleftrightarrow> (\<exists>rs rest. drop off (take len msg) = wire_rrs rs @ rest \<and> length rs = an
      \<and> (\<forall>r \<in> set rs. owner_ok r \<and> body_ok ty r) \<and> (\<Sum>r \<leftarrow> rs. rr_steps r) \<le> DNS_SCAN_STEPS
      \<and> recs = listed off ty rs \<and> length recs \<le> DNS_MAX_ADDR_RECORDS)"
  using dns_scan_iff [OF assms] .

theorem dns_scan_addr_records_exact_witness:
  "\<exists>a. dns_scan_addr_records example_msg 37 21 1 1 zero_answers = (DNS_SCAN_OK, a)
     \<and> take (da_n_recs a) (da_recs a) = [\<lparr>dr_off = 33, dr_ttl = 60, dr_ip = [1, 2, 3, 4] @ replicate 12 0\<rparr>]"
proof -
  let ?r = "\<lparr>rr_labels = [], rr_end = [0xC0, 12], rr_fixed = [0, 1, 0, 1, 0, 0, 0, 60], rr_data = [1, 2, 3, 4]\<rparr>"
  have ok: "owner_ok ?r" "body_ok 1 ?r"
    by (simp_all add: owner_ok_def body_ok_def rr_wanted_def dns_addr_len_def DNS_TYPE_A_def)
  have l: "listed 21 1 [?r] = [\<lparr>dr_off = 33, dr_ttl = 60, dr_ip = [1, 2, 3, 4] @ replicate 12 0\<rparr>]"
    by (simp add: rr_addr_def rr_wanted_def wire_owner_def num16_def dns_addr_len_def DNS_TYPE_A_def DNS_CLASS_IN_def)
  have "drop 21 (take 37 example_msg) = wire_rrs [?r] @ []"
    unfolding example_msg by (simp add: example_answer_def wire_owner_def wire_body_def)
  then show ?thesis
    using dns_scan_addr_records_exact [OF example_msg(1), of 37 21 1 1
        "[\<lparr>dr_off = 33, dr_ttl = 60, dr_ip = [1, 2, 3, 4] @ replicate 12 0\<rparr>]"] ok l
    by (auto simp: rr_steps_def DNS_SCAN_STEPS_def DNS_MAX_ADDR_RECORDS_def intro!: exI [of _ "[?r]"])
qed

end
