(* ===== verification/Aes.thy ===== *)
theory Aes
  imports Prelude
begin

text \<open>
  AES of \<open>helpers.h\<close>: \<open>aes_block_encrypt\<close> over an expanded key schedule and \<open>aes_recover_h\<close>, which
  recomputes the GHASH subkey of a BoringSSL connection.

  The reference is FIPS-197: the field GF(2^8), the S-box as an affine map of the inverse, the
  ShiftRows and MixColumns transformations and the Cipher routine. States and round keys are lists of 16 bytes, column by
  column, as in the code.
\<close>

section \<open>The code\<close>

definition KLOAK_AES_SBOX :: bytes where
  "KLOAK_AES_SBOX =
    [0x63, 0x7c, 0x77, 0x7b, 0xf2, 0x6b, 0x6f, 0xc5, 0x30, 0x01, 0x67, 0x2b, 0xfe, 0xd7, 0xab, 0x76,
     0xca, 0x82, 0xc9, 0x7d, 0xfa, 0x59, 0x47, 0xf0, 0xad, 0xd4, 0xa2, 0xaf, 0x9c, 0xa4, 0x72, 0xc0,
     0xb7, 0xfd, 0x93, 0x26, 0x36, 0x3f, 0xf7, 0xcc, 0x34, 0xa5, 0xe5, 0xf1, 0x71, 0xd8, 0x31, 0x15,
     0x04, 0xc7, 0x23, 0xc3, 0x18, 0x96, 0x05, 0x9a, 0x07, 0x12, 0x80, 0xe2, 0xeb, 0x27, 0xb2, 0x75,
     0x09, 0x83, 0x2c, 0x1a, 0x1b, 0x6e, 0x5a, 0xa0, 0x52, 0x3b, 0xd6, 0xb3, 0x29, 0xe3, 0x2f, 0x84,
     0x53, 0xd1, 0x00, 0xed, 0x20, 0xfc, 0xb1, 0x5b, 0x6a, 0xcb, 0xbe, 0x39, 0x4a, 0x4c, 0x58, 0xcf,
     0xd0, 0xef, 0xaa, 0xfb, 0x43, 0x4d, 0x33, 0x85, 0x45, 0xf9, 0x02, 0x7f, 0x50, 0x3c, 0x9f, 0xa8,
     0x51, 0xa3, 0x40, 0x8f, 0x92, 0x9d, 0x38, 0xf5, 0xbc, 0xb6, 0xda, 0x21, 0x10, 0xff, 0xf3, 0xd2,
     0xcd, 0x0c, 0x13, 0xec, 0x5f, 0x97, 0x44, 0x17, 0xc4, 0xa7, 0x7e, 0x3d, 0x64, 0x5d, 0x19, 0x73,
     0x60, 0x81, 0x4f, 0xdc, 0x22, 0x2a, 0x90, 0x88, 0x46, 0xee, 0xb8, 0x14, 0xde, 0x5e, 0x0b, 0xdb,
     0xe0, 0x32, 0x3a, 0x0a, 0x49, 0x06, 0x24, 0x5c, 0xc2, 0xd3, 0xac, 0x62, 0x91, 0x95, 0xe4, 0x79,
     0xe7, 0xc8, 0x37, 0x6d, 0x8d, 0xd5, 0x4e, 0xa9, 0x6c, 0x56, 0xf4, 0xea, 0x65, 0x7a, 0xae, 0x08,
     0xba, 0x78, 0x25, 0x2e, 0x1c, 0xa6, 0xb4, 0xc6, 0xe8, 0xdd, 0x74, 0x1f, 0x4b, 0xbd, 0x8b, 0x8a,
     0x70, 0x3e, 0xb5, 0x66, 0x48, 0x03, 0xf6, 0x0e, 0x61, 0x35, 0x57, 0xb9, 0x86, 0xc1, 0x1d, 0x9e,
     0xe1, 0xf8, 0x98, 0x11, 0x69, 0xd9, 0x8e, 0x94, 0x9b, 0x1e, 0x87, 0xe9, 0xce, 0x55, 0x28, 0xdf,
     0x8c, 0xa1, 0x89, 0x0d, 0xbf, 0xe6, 0x42, 0x68, 0x41, 0x99, 0x2d, 0x0f, 0xb0, 0x54, 0xbb, 0x16]"

definition aes_mul2 :: "u8 \<Rightarrow> u8" where
  "aes_mul2 x = push_bit 1 x XOR (if x AND 0x80 \<noteq> 0 then 0x1b else 0)"

definition aes_mul3 :: "u8 \<Rightarrow> u8" where "aes_mul3 x = aes_mul2 x XOR x"

definition aes_shift_rows :: "bytes \<Rightarrow> bytes" where
  "aes_shift_rows s =
     (let t = s ! 1; s = s[1 := s ! 5]; s = s[5 := s ! 9]; s = s[9 := s ! 13]; s = s[13 := t];
          t = s ! 2; s = s[2 := s ! 10]; s = s[10 := t];
          t = s ! 6; s = s[6 := s ! 14]; s = s[14 := t];
          t = s ! 15; s = s[15 := s ! 11]; s = s[11 := s ! 7]; s = s[7 := s ! 3]; s = s[3 := t]
      in s)"

definition aes_mix_columns :: "bytes \<Rightarrow> bytes" where
  "aes_mix_columns s = fold (\<lambda>c s.
     let a0 = s ! (4 * c + 0); a1 = s ! (4 * c + 1); a2 = s ! (4 * c + 2); a3 = s ! (4 * c + 3);
         s = s[4 * c + 0 := aes_mul2 a0 XOR aes_mul3 a1 XOR a2 XOR a3];
         s = s[4 * c + 1 := a0 XOR aes_mul2 a1 XOR aes_mul3 a2 XOR a3];
         s = s[4 * c + 2 := a0 XOR a1 XOR aes_mul2 a2 XOR aes_mul3 a3];
         s = s[4 * c + 3 := aes_mul3 a0 XOR a1 XOR a2 XOR aes_mul2 a3]
     in s) [0..<4] s"

text \<open>The loops \<open>state[i] ^= k[i]\<close>, with \<open>k = rk + off\<close>, and \<open>state[i] = KLOAK_AES_SBOX[state[i]]\<close>.\<close>

definition aes_add_round_key :: "bytes \<Rightarrow> nat \<Rightarrow> bytes \<Rightarrow> bytes" where
  "aes_add_round_key rk off s = fold (\<lambda>i s. s[i := s ! i XOR rk ! (off + i)]) [0..<16] s"

definition aes_sub_bytes :: "bytes \<Rightarrow> bytes" where
  "aes_sub_bytes s = fold (\<lambda>i s. s[i := KLOAK_AES_SBOX ! unat (s ! i)]) [0..<16] s"

text \<open>The round loop from \<open>round\<close>, with \<open>n\<close> rounds left of its constant bound.\<close>

fun aes_rounds :: "nat \<Rightarrow> nat \<Rightarrow> bytes \<Rightarrow> nat \<Rightarrow> bytes \<Rightarrow> bytes" where
  "aes_rounds 0 rnd rk nr s = s"
| "aes_rounds (Suc n) rnd rk nr s =
     (if rnd \<ge> nr then s
      else aes_rounds n (rnd + 1) rk nr
        (aes_add_round_key rk (16 * rnd) (aes_mix_columns (aes_shift_rows (aes_sub_bytes s)))))"

definition aes_block_encrypt :: "bytes \<Rightarrow> nat \<Rightarrow> bytes \<Rightarrow> bytes" where
  "aes_block_encrypt rk nr state =
     (let state = aes_add_round_key rk 0 state;
          state = aes_rounds 13 1 rk nr state;
          state = aes_shift_rows (aes_sub_bytes state)
      in aes_add_round_key rk (if nr = 14 then 16 * 14 else 16 * 10) state)"

text \<open>The result (true for 1) and \<open>h_out\<close>.\<close>

definition aes_recover_h :: "bytes \<Rightarrow> u32 \<Rightarrow> bool \<times> bytes" where
  "aes_recover_h rd_key rounds =
     (let h_out = replicate 16 0 in
      if rounds = 10 \<or> rounds = 9 then (True, aes_block_encrypt rd_key 10 h_out)
      else if rounds = 14 \<or> rounds = 13 then (True, aes_block_encrypt rd_key 14 h_out)
      else (False, h_out))"

section \<open>FIPS-197\<close>

text \<open>
  Multiplication in GF(2^8): \<open>xtime\<close> multiplies by \<open>x\<close>, and a product is the sum of such multiples
  of the first factor, one for each bit of the second.
\<close>

definition xtime :: "u8 \<Rightarrow> u8" where
  "xtime x = (if bit x 7 then push_bit 1 x XOR 0x1b else push_bit 1 x)"

fun gf8_mul_loop :: "nat \<Rightarrow> u8 \<Rightarrow> u8 \<Rightarrow> u8 \<Rightarrow> u8" where
  "gf8_mul_loop 0 x y acc = acc"
| "gf8_mul_loop (Suc n) x y acc = gf8_mul_loop n (xtime x) (drop_bit 1 y) (if bit y 0 then acc XOR x else acc)"

definition gf8_mul :: "u8 \<Rightarrow> u8 \<Rightarrow> u8" where "gf8_mul x y = gf8_mul_loop 8 x y 0"

definition all_u8 :: bytes where "all_u8 = map of_nat [0..<256]"

text \<open>The inverse, which maps 0 to 0, and the S-box.\<close>

definition gf8_inv :: "u8 \<Rightarrow> u8" where
  "gf8_inv x = (case List.find (\<lambda>y. gf8_mul x y = 1) all_u8 of Some y \<Rightarrow> y | None \<Rightarrow> 0)"

definition rot8 :: "nat \<Rightarrow> u8 \<Rightarrow> u8" where "rot8 k b = push_bit k b OR drop_bit (8 - k) b"

definition affine :: "u8 \<Rightarrow> u8" where
  "affine b = b XOR rot8 1 b XOR rot8 2 b XOR rot8 3 b XOR rot8 4 b XOR 0x63"

definition sub_byte :: "u8 \<Rightarrow> u8" where "sub_byte x = affine (gf8_inv x)"

text \<open>Byte \<open>r + 4 * c\<close> of a state is row \<open>r\<close> of column \<open>c\<close>.\<close>

definition shift_rows :: "bytes \<Rightarrow> bytes" where
  "shift_rows s = map (\<lambda>i. s ! (i mod 4 + 4 * ((i div 4 + i mod 4) mod 4))) [0..<16]"

definition mix_columns :: "bytes \<Rightarrow> bytes" where
  "mix_columns s = map (\<lambda>i. foldr (\<lambda>k acc. gf8_mul (s ! (k + 4 * (i div 4))) ([2, 3, 1, 1] ! ((k + 4 - i mod 4) mod 4)) XOR acc)
     [0..<4] 0) [0..<16]"

definition round_key :: "bytes \<Rightarrow> nat \<Rightarrow> bytes" where "round_key rk r = take 16 (drop (16 * r) rk)"

definition aes_round :: "bytes \<Rightarrow> nat \<Rightarrow> bytes \<Rightarrow> bytes" where
  "aes_round rk r s = xor_bytes (mix_columns (shift_rows (map sub_byte s))) (round_key rk r)"

definition aes_cipher :: "nat \<Rightarrow> bytes \<Rightarrow> bytes \<Rightarrow> bytes" where
  "aes_cipher nr rk block =
     xor_bytes (shift_rows (map sub_byte (fold (aes_round rk) [1..<nr] (xor_bytes block (round_key rk 0)))))
       (round_key rk nr)"

section \<open>The field\<close>

lemma aes_mul2_xtime: "aes_mul2 x = xtime x"
proof -
  have "(x AND 0x80 \<noteq> 0) = bit x 7"
    using and_exp_eq_0_iff_not_bit [of x 7] by simp
  then show ?thesis by (simp add: aes_mul2_def xtime_def)
qed

lemma push_bit_xor8: "push_bit n (x XOR y :: u8) = push_bit n x XOR push_bit n y"
  by (rule bit_eqI) (auto simp: bit_simps)

lemma xtime_add: "xtime (x XOR y) = xtime x XOR xtime y"
  by (simp add: xtime_def push_bit_xor8 bit_xor_iff xor.assoc xor.left_commute xor.commute)

lemma gf8_mul_loop_numeral [simp]:
  "gf8_mul_loop (numeral k) x y acc =
    gf8_mul_loop (pred_numeral k) (xtime x) (drop_bit 1 y) (if bit y 0 then acc XOR x else acc)"
  by (simp add: numeral_eq_Suc)

lemma gf8_mul_loop_hom:
  assumes "\<And>x y. f (x XOR y) = f x XOR f y" "\<And>x. f (xtime x) = xtime (f x)"
  shows "f (gf8_mul_loop n x y acc) = gf8_mul_loop n (f x) y (f acc)"
  by (induction n arbitrary: x y acc) (simp_all add: assms)

lemma aes_mul3_hom: "aes_mul3 (x XOR y) = aes_mul3 x XOR aes_mul3 y" "aes_mul3 (xtime x) = xtime (aes_mul3 x)"
  by (simp_all add: aes_mul3_def aes_mul2_xtime xtime_add xor.assoc xor.left_commute)

lemma gf8_mul_consts: "gf8_mul x 1 = x" "gf8_mul x 2 = aes_mul2 x" "gf8_mul x 3 = aes_mul3 x"
  by (simp_all add: gf8_mul_def aes_mul2_xtime aes_mul3_def xor.commute)

lemma gf8_mul_mul3: "gf8_mul (aes_mul3 x) y = aes_mul3 (gf8_mul x y)"
proof -
  have "aes_mul3 0 = 0" by (simp add: aes_mul3_def aes_mul2_def)
  then show ?thesis
    using gf8_mul_loop_hom [of aes_mul3 8 x y 0] aes_mul3_hom by (simp add: gf8_mul_def)
qed

text \<open>Facts about every byte are checked one byte at a time.\<close>

lemma all_u8_eq: "all_u8 =
    [0, 1, 2, 3, 4, 5, 6, 7, 8, 9, 10, 11, 12, 13, 14, 15, 16, 17, 18, 19,
     20, 21, 22, 23, 24, 25, 26, 27, 28, 29, 30, 31, 32, 33, 34, 35, 36, 37, 38, 39,
     40, 41, 42, 43, 44, 45, 46, 47, 48, 49, 50, 51, 52, 53, 54, 55, 56, 57, 58, 59,
     60, 61, 62, 63, 64, 65, 66, 67, 68, 69, 70, 71, 72, 73, 74, 75, 76, 77, 78, 79,
     80, 81, 82, 83, 84, 85, 86, 87, 88, 89, 90, 91, 92, 93, 94, 95, 96, 97, 98, 99,
     100, 101, 102, 103, 104, 105, 106, 107, 108, 109, 110, 111, 112, 113, 114, 115, 116, 117, 118, 119,
     120, 121, 122, 123, 124, 125, 126, 127, 128, 129, 130, 131, 132, 133, 134, 135, 136, 137, 138, 139,
     140, 141, 142, 143, 144, 145, 146, 147, 148, 149, 150, 151, 152, 153, 154, 155, 156, 157, 158, 159,
     160, 161, 162, 163, 164, 165, 166, 167, 168, 169, 170, 171, 172, 173, 174, 175, 176, 177, 178, 179,
     180, 181, 182, 183, 184, 185, 186, 187, 188, 189, 190, 191, 192, 193, 194, 195, 196, 197, 198, 199,
     200, 201, 202, 203, 204, 205, 206, 207, 208, 209, 210, 211, 212, 213, 214, 215, 216, 217, 218, 219,
     220, 221, 222, 223, 224, 225, 226, 227, 228, 229, 230, 231, 232, 233, 234, 235, 236, 237, 238, 239,
     240, 241, 242, 243, 244, 245, 246, 247, 248, 249, 250, 251, 252, 253, 254, 255]"
  unfolding all_u8_def by code_simp

lemma in_all_u8: "x \<in> set all_u8"
proof -
  have "unat x < 256" using unsigned_less [of x] by simp
  moreover have "x = of_nat (unat x)" by simp
  ultimately show ?thesis unfolding all_u8_def set_map by (metis atLeastLessThan_iff image_eqI set_upt zero_le)
qed

lemma gf8_one_mul: "gf8_mul 1 y = y"
proof -
  have "map (gf8_mul 1) all_u8 = all_u8" unfolding all_u8_eq by (simp add: gf8_mul_def xtime_def)
  then have "\<forall>y \<in> set all_u8. gf8_mul 1 y = y" using map_eq_conv [of "gf8_mul 1" all_u8 "\<lambda>y. y"] by simp
  then show ?thesis using in_all_u8 [of y] by blast
qed

text \<open>The powers of 3: they are the 255 non-zero bytes. \<open>gf8_log\<close> lists the exponents of 1, 2, ..., 255.\<close>

definition gf8_powers :: bytes where
  "gf8_powers =
    [1, 3, 5, 15, 17, 51, 85, 255, 26, 46, 114, 150, 161, 248, 19, 53, 95, 225, 56, 72,
     216, 115, 149, 164, 247, 2, 6, 10, 30, 34, 102, 170, 229, 52, 92, 228, 55, 89, 235, 38,
     106, 190, 217, 112, 144, 171, 230, 49, 83, 245, 4, 12, 20, 60, 68, 204, 79, 209, 104, 184,
     211, 110, 178, 205, 76, 212, 103, 169, 224, 59, 77, 215, 98, 166, 241, 8, 24, 40, 120, 136,
     131, 158, 185, 208, 107, 189, 220, 127, 129, 152, 179, 206, 73, 219, 118, 154, 181, 196, 87, 249,
     16, 48, 80, 240, 11, 29, 39, 105, 187, 214, 97, 163, 254, 25, 43, 125, 135, 146, 173, 236,
     47, 113, 147, 174, 233, 32, 96, 160, 251, 22, 58, 78, 210, 109, 183, 194, 93, 231, 50, 86,
     250, 21, 63, 65, 195, 94, 226, 61, 71, 201, 64, 192, 91, 237, 44, 116, 156, 191, 218, 117,
     159, 186, 213, 100, 172, 239, 42, 126, 130, 157, 188, 223, 122, 142, 137, 128, 155, 182, 193, 88,
     232, 35, 101, 175, 234, 37, 111, 177, 200, 67, 197, 84, 252, 31, 33, 99, 165, 244, 7, 9,
     27, 45, 119, 153, 176, 203, 70, 202, 69, 207, 74, 222, 121, 139, 134, 145, 168, 227, 62, 66,
     198, 81, 243, 14, 18, 54, 90, 238, 41, 123, 141, 140, 143, 138, 133, 148, 167, 242, 13, 23,
     57, 75, 221, 124, 132, 151, 162, 253, 28, 36, 108, 180, 199, 82, 246]"

definition gf8_logs :: "nat list" where
  "gf8_logs =
    [0, 25, 1, 50, 2, 26, 198, 75, 199, 27, 104, 51, 238, 223, 3, 100, 4, 224, 14, 52,
     141, 129, 239, 76, 113, 8, 200, 248, 105, 28, 193, 125, 194, 29, 181, 249, 185, 39, 106, 77,
     228, 166, 114, 154, 201, 9, 120, 101, 47, 138, 5, 33, 15, 225, 36, 18, 240, 130, 69, 53,
     147, 218, 142, 150, 143, 219, 189, 54, 208, 206, 148, 19, 92, 210, 241, 64, 70, 131, 56, 102,
     221, 253, 48, 191, 6, 139, 98, 179, 37, 226, 152, 34, 136, 145, 16, 126, 110, 72, 195, 163,
     182, 30, 66, 58, 107, 40, 84, 250, 133, 61, 186, 43, 121, 10, 21, 155, 159, 94, 202, 78,
     212, 172, 229, 243, 115, 167, 87, 175, 88, 168, 80, 244, 234, 214, 116, 79, 174, 233, 213, 231,
     230, 173, 232, 44, 215, 117, 122, 235, 22, 11, 245, 89, 203, 95, 176, 156, 169, 81, 160, 127,
     12, 246, 111, 23, 196, 73, 236, 216, 67, 31, 45, 164, 118, 123, 183, 204, 187, 62, 90, 251,
     96, 177, 134, 59, 82, 161, 108, 170, 85, 41, 157, 151, 178, 135, 144, 97, 190, 220, 252, 188,
     149, 207, 205, 55, 63, 91, 209, 83, 57, 132, 60, 65, 162, 109, 71, 20, 42, 158, 93, 86,
     242, 211, 171, 68, 17, 146, 217, 35, 32, 46, 137, 180, 124, 184, 38, 119, 153, 227, 165, 103,
     74, 237, 222, 197, 49, 254, 24, 13, 99, 140, 128, 192, 247, 112, 7]"

lemma gf8_powers_step: "map aes_mul3 gf8_powers = tl gf8_powers @ [1]"
  by (simp add: gf8_powers_def aes_mul3_def aes_mul2_def)

lemma gf8_powers_all: "map (\<lambda>i. gf8_powers ! i) gf8_logs = tl all_u8"
  unfolding all_u8_eq by (simp add: gf8_powers_def gf8_logs_def)

lemma gf8_logs_less: "\<forall>i \<in> set gf8_logs. i < 255"
  by (simp add: gf8_logs_def)

lemma sbox_powers: "map affine (map (\<lambda>i. gf8_powers ! ((255 - i) mod 255)) gf8_logs) = tl KLOAK_AES_SBOX"
  by (simp add: gf8_powers_def gf8_logs_def KLOAK_AES_SBOX_def affine_def rot8_def)

lemma length_gf8_powers: "length gf8_powers = 255" "gf8_powers ! 0 = 1"
  by (simp_all add: gf8_powers_def)

lemma gf8_powers_nth: "i < 255 \<Longrightarrow> gf8_powers ! i = (aes_mul3 ^^ i) 1"
proof (induction i)
  case 0
  then show ?case by (simp add: length_gf8_powers)
next
  case (Suc i)
  have "aes_mul3 (gf8_powers ! i) = map aes_mul3 gf8_powers ! i" using Suc.prems by (simp add: length_gf8_powers)
  also have "\<dots> = gf8_powers ! Suc i"
    unfolding gf8_powers_step using Suc.prems by (simp add: nth_append nth_tl length_gf8_powers)
  finally show ?case using Suc by simp
qed

lemma mul3_power_255: "(aes_mul3 ^^ 255) y = y"
proof -
  have m: "gf8_mul ((aes_mul3 ^^ i) x) y = (aes_mul3 ^^ i) (gf8_mul x y)" for i x y
    by (induction i) (simp_all add: gf8_mul_mul3)
  have "aes_mul3 (gf8_powers ! 254) = map aes_mul3 gf8_powers ! 254" by (simp add: length_gf8_powers)
  also have "\<dots> = 1" unfolding gf8_powers_step by (simp add: nth_append length_gf8_powers)
  finally have "aes_mul3 ((aes_mul3 ^^ 254) 1) = 1" using gf8_powers_nth [of 254] by simp
  then have "(aes_mul3 ^^ 255) 1 = 1" using funpow_add [of 1 254 aes_mul3] by simp
  then have "gf8_mul 1 y = (aes_mul3 ^^ 255) (gf8_mul 1 y)" using m [of 255 1 y] by metis
  then show ?thesis by (simp add: gf8_one_mul)
qed

lemma gf8_mul_power: "gf8_mul ((aes_mul3 ^^ i) 1) y = (aes_mul3 ^^ i) y"
  by (induction i) (simp_all add: gf8_mul_mul3 gf8_one_mul)

lemma gf8_power_inverse:
  assumes "i \<le> 255"
  shows "gf8_mul ((aes_mul3 ^^ i) 1) y = 1 \<longleftrightarrow> y = (aes_mul3 ^^ (255 - i)) 1"
proof -
  have e: "(aes_mul3 ^^ j) ((aes_mul3 ^^ k) x) = x" if "j + k = 255" for j k x
    using mul3_power_255 [of x] funpow_add [of j k aes_mul3] that by (simp only: o_apply)
  have "(aes_mul3 ^^ (255 - i)) ((aes_mul3 ^^ i) y) = y" "(aes_mul3 ^^ i) ((aes_mul3 ^^ (255 - i)) 1) = 1"
    using assms by (auto intro!: e)
  then show ?thesis unfolding gf8_mul_power by metis
qed

lemma gf8_inv_power:
  assumes "i < 255"
  shows "gf8_inv (gf8_powers ! i) = gf8_powers ! ((255 - i) mod 255)"
proof -
  let ?y = "(aes_mul3 ^^ (255 - i)) 1"
  have e: "gf8_mul (gf8_powers ! i) y = 1 \<longleftrightarrow> y = ?y" for y
    unfolding gf8_powers_nth [OF assms] using gf8_power_inverse assms by simp
  have "List.find (\<lambda>y. gf8_mul (gf8_powers ! i) y = 1) all_u8 = Some ?y"
  proof (cases "List.find (\<lambda>y. gf8_mul (gf8_powers ! i) y = 1) all_u8")
    case None
    then show ?thesis using e in_all_u8 [of ?y] by (auto simp: find_None_iff)
  next
    case (Some z)
    then show ?thesis using e [of z] by (auto simp: find_Some_iff)
  qed
  moreover have "?y = gf8_powers ! ((255 - i) mod 255)"
    using assms mul3_power_255 [of 1] gf8_powers_nth [of "(255 - i) mod 255"] by (cases "i = 0") auto
  ultimately show ?thesis by (simp add: gf8_inv_def)
qed

lemma gf8_mul_zero: "gf8_mul 0 y = 0"
  by (simp add: gf8_mul_def xtime_def)

lemma sbox_table: "map sub_byte all_u8 = KLOAK_AES_SBOX"
proof -
  have z: "sub_byte 0 = 0x63"
    by (simp add: sub_byte_def gf8_inv_def gf8_mul_zero find_None_iff affine_def rot8_def split: option.splits)
      (simp add: find_Some_iff gf8_mul_zero)
  have "map sub_byte (tl all_u8) = map (\<lambda>i. affine (gf8_inv (gf8_powers ! i))) gf8_logs"
    unfolding gf8_powers_all [symmetric] by (simp add: sub_byte_def)
  also have "\<dots> = map affine (map (\<lambda>i. gf8_powers ! ((255 - i) mod 255)) gf8_logs)"
    using gf8_inv_power gf8_logs_less by simp
  also have "\<dots> = tl KLOAK_AES_SBOX" by (rule sbox_powers)
  finally have t: "map sub_byte (tl all_u8) = tl KLOAK_AES_SBOX" .
  have "all_u8 = 0 # tl all_u8" "KLOAK_AES_SBOX = 0x63 # tl KLOAK_AES_SBOX"
    by (simp_all add: all_u8_eq KLOAK_AES_SBOX_def)
  then show ?thesis using z t by (metis list.simps(9))
qed

lemma sbox_sub_byte: "KLOAK_AES_SBOX ! unat x = sub_byte x"
proof -
  have "unat x < 256" using unsigned_less [of x] by simp
  then show ?thesis unfolding sbox_table [symmetric] by (simp add: all_u8_def)
qed

section \<open>The rounds\<close>

lemma fold_update:
  assumes "n \<le> length s"
  shows "fold (\<lambda>i s. s[i := f i (s ! i)]) [0..<n] s = map (\<lambda>i. if i < n then f i (s ! i) else s ! i) [0..<length s]"
  using assms
proof (induction n)
  case 0
  then show ?case by (simp add: map_nth)
next
  case (Suc n)
  then show ?case by (auto intro!: nth_equalityI simp: nth_list_update)
qed

lemma aes_add_round_key_xor:
  assumes "length s = 16" "off + 16 \<le> length rk"
  shows "aes_add_round_key rk off s = xor_bytes s (take 16 (drop off rk))"
  unfolding aes_add_round_key_def using fold_update [of 16 s "\<lambda>i x. x XOR rk ! (off + i)"] assms
  by (simp add: list_eq_iff_nth_eq)

lemma aes_sub_bytes_map:
  assumes "length s = 16"
  shows "aes_sub_bytes s = map sub_byte s"
  unfolding aes_sub_bytes_def using fold_update [of 16 s "\<lambda>i x. KLOAK_AES_SBOX ! unat x"] assms
  by (simp add: list_eq_iff_nth_eq sbox_sub_byte)

lemma upt16: "[0..<16] = [0, 1, 2, 3, 4, 5, 6, 7, 8, 9, 10, 11, 12, 13, 14, 15]"
  and upt4: "[0..<4] = [0, 1, 2, 3]"
  by (simp_all add: upt_rec)

lemma state_cases:
  assumes "length s = 16"
  obtains a0 a1 a2 a3 a4 a5 a6 a7 a8 a9 b0 b1 b2 b3 b4 b5
  where "s = [a0, a1, a2, a3, a4, a5, a6, a7, a8, a9, b0, b1, b2, b3, b4, b5]"
proof -
  have "s = map ((!) s) [0..<16]" by (simp add: map_nth flip: assms)
  then show thesis unfolding upt16 list.map by (rule that)
qed

lemma aes_shift_rows_spec: "length s = 16 \<Longrightarrow> aes_shift_rows s = shift_rows s"
  by (erule state_cases) (simp add: aes_shift_rows_def shift_rows_def upt16)

lemma aes_mix_columns_spec: "length s = 16 \<Longrightarrow> aes_mix_columns s = mix_columns s"
  by (erule state_cases) (simp add: aes_mix_columns_def mix_columns_def upt16 upt4 gf8_mul_consts xor.assoc)

lemma length_rounds [simp]: "length (shift_rows s) = 16" "length (mix_columns s) = 16"
  by (simp_all add: shift_rows_def mix_columns_def)

lemma aes_rounds_spec:
  assumes "length s = 16" "1 \<le> rnd" "16 * (nr + 1) \<le> length rk" "nr \<le> rnd + n"
  shows "aes_rounds n rnd rk nr s = fold (aes_round rk) [rnd..<nr] s \<and> length (aes_rounds n rnd rk nr s) = 16"
  using assms
proof (induction n arbitrary: rnd s)
  case 0
  then show ?case by simp
next
  case (Suc n)
  show ?case
  proof (cases "nr \<le> rnd")
    case False
    let ?s = "aes_round rk rnd s"
    have k: "16 * rnd + 16 \<le> length rk" using Suc.prems(3) False by simp
    then have l: "length ?s = 16" by (simp add: aes_round_def round_key_def)
    have "aes_add_round_key rk (16 * rnd) (aes_mix_columns (aes_shift_rows (aes_sub_bytes s))) = ?s"
      using Suc.prems(1) k
      by (simp add: aes_sub_bytes_map aes_shift_rows_spec aes_mix_columns_spec aes_add_round_key_xor aes_round_def round_key_def)
    moreover have "[rnd..<nr] = rnd # [Suc rnd..<nr]" using False by (simp add: upt_rec)
    ultimately show ?thesis using Suc.IH [of ?s "rnd + 1"] Suc.prems l False by auto
  qed (use Suc.prems in simp)
qed

lemma aes_block_encrypt_spec:
  assumes "nr = 10 \<or> nr = 14" "length block = 16" "16 * (nr + 1) \<le> length rk"
  shows "aes_block_encrypt rk nr block = aes_cipher nr rk block"
proof -
  let ?s = "xor_bytes block (round_key rk 0)"
  have k0: "aes_add_round_key rk 0 block = ?s" "length ?s = 16"
    using assms by (auto simp: aes_add_round_key_xor round_key_def)
  have r: "aes_rounds 13 1 rk nr ?s = fold (aes_round rk) [1..<nr] ?s" "length (fold (aes_round rk) [1..<nr] ?s) = 16"
    using aes_rounds_spec [of ?s 1 nr rk 13] k0(2) assms by auto
  have "(if nr = 14 then 16 * 14 else 16 * 10) = 16 * nr" using assms(1) by auto
  then show ?thesis
    unfolding aes_block_encrypt_def aes_cipher_def Let_def k0 r using assms(3) r(2)
    by (simp add: aes_sub_bytes_map aes_shift_rows_spec aes_add_round_key_xor round_key_def)
qed

section \<open>Properties\<close>

text \<open>
  C15: \<open>aes_block_encrypt\<close> is the Cipher of FIPS-197 for 10 and 14 rounds, over every expanded key:
  its table is the S-box, the in-place row and column steps are ShiftRows and MixColumns.
\<close>

theorem aes_block_encrypt_cipher:
  assumes "nr = 10 \<or> nr = 14" "length block = 16" "16 * (nr + 1) \<le> length rk"
  shows "aes_block_encrypt rk nr block = aes_cipher nr rk block"
  using aes_block_encrypt_spec [OF assms] .

text \<open>The schedule of the zero AES-128 key, and the GHASH subkey it is known to give.\<close>

definition zero_schedule :: bytes where
  "zero_schedule =
    [0, 0, 0, 0, 0, 0, 0, 0, 0, 0, 0, 0, 0, 0, 0, 0, 98, 99, 99, 99,
     98, 99, 99, 99, 98, 99, 99, 99, 98, 99, 99, 99, 155, 152, 152, 201, 249, 251, 251, 170,
     155, 152, 152, 201, 249, 251, 251, 170, 144, 151, 52, 80, 105, 108, 207, 250, 242, 244, 87, 51,
     11, 15, 172, 153, 238, 6, 218, 123, 135, 106, 21, 129, 117, 158, 66, 178, 126, 145, 238, 43,
     127, 46, 43, 136, 248, 68, 62, 9, 141, 218, 124, 187, 243, 75, 146, 144, 236, 97, 75, 133,
     20, 37, 117, 140, 153, 255, 9, 55, 106, 180, 155, 167, 33, 117, 23, 135, 53, 80, 98, 11,
     172, 175, 107, 60, 198, 27, 240, 155, 14, 249, 3, 51, 59, 169, 97, 56, 151, 6, 10, 4,
     81, 29, 250, 159, 177, 212, 216, 226, 138, 125, 185, 218, 29, 123, 179, 222, 76, 102, 73, 65,
     180, 239, 91, 203, 62, 146, 226, 17, 35, 233, 81, 207, 111, 143, 24, 142]"

definition zero_subkey :: bytes where
  "zero_subkey = [102, 233, 75, 212, 239, 138, 44, 59, 136, 76, 250, 89, 202, 52, 43, 46]"

lemma aes_rounds_numeral:
  "aes_rounds (numeral k) rnd rk nr s =
     (if rnd \<ge> nr then s
      else aes_rounds (pred_numeral k) (rnd + 1) rk nr
        (aes_add_round_key rk (16 * rnd) (aes_mix_columns (aes_shift_rows (aes_sub_bytes s)))))"
  by (simp add: numeral_eq_Suc)

lemma aes_rounds_add: "aes_rounds (m + n) rnd rk nr s = aes_rounds n (rnd + m) rk nr (aes_rounds m rnd rk nr s)"
proof (induction m arbitrary: rnd s)
  case (Suc m)
  have "rnd \<ge> nr \<Longrightarrow> aes_rounds n (rnd + Suc m) rk nr s = s" by (cases n) auto
  then show ?case using Suc by simp
qed simp

lemmas aes_eval = aes_rounds_numeral aes_add_round_key_def aes_mix_columns_def aes_shift_rows_def aes_sub_bytes_def
  Let_def upt16 upt4 KLOAK_AES_SBOX_def aes_mul3_def aes_mul2_def

lemma zero_key_rounds_1_5:
  "aes_rounds 5 1 zero_schedule 10 [0, 0, 0, 0, 0, 0, 0, 0, 0, 0, 0, 0, 0, 0, 0, 0] =
    [212, 111, 79, 108, 85, 184, 150, 51, 126, 5, 187, 61, 121, 121, 222, 35]"
  unfolding zero_schedule_def by (simp add: aes_eval)

lemma zero_key_rounds_6_9:
  "aes_rounds 8 6 zero_schedule 10 [212, 111, 79, 108, 85, 184, 150, 51, 126, 5, 187, 61, 121, 121, 222, 35] =
    [127, 254, 14, 149, 81, 165, 102, 53, 14, 52, 124, 71, 41, 41, 236, 203]"
  unfolding zero_schedule_def by (simp add: aes_eval)

lemma zero_key_final_round:
  "aes_add_round_key zero_schedule 160 (aes_shift_rows (aes_sub_bytes
     [127, 254, 14, 149, 81, 165, 102, 53, 14, 52, 124, 71, 41, 41, 236, 203])) = zero_subkey"
  unfolding zero_schedule_def zero_subkey_def by (simp add: aes_eval)

lemma zero_key_answer: "aes_block_encrypt zero_schedule 10 (replicate 16 0) = zero_subkey"
proof -
  have a: "aes_add_round_key zero_schedule 0 (replicate 16 0) = [0, 0, 0, 0, 0, 0, 0, 0, 0, 0, 0, 0, 0, 0, 0, 0]"
    unfolding zero_schedule_def by (simp add: aes_add_round_key_def upt16 numeral_eq_Suc)
  have b: "aes_rounds 13 1 zero_schedule 10 s = aes_rounds 8 6 zero_schedule 10 (aes_rounds 5 1 zero_schedule 10 s)" for s
    using aes_rounds_add [of 5 8 1 zero_schedule 10 s] by simp
  show ?thesis
    unfolding aes_block_encrypt_def Let_def a b zero_key_rounds_1_5 zero_key_rounds_6_9
    using zero_key_final_round by simp
qed

theorem aes_block_encrypt_cipher_witness: "aes_cipher 10 zero_schedule (replicate 16 0) = zero_subkey"
  using aes_block_encrypt_cipher [of 10 "replicate 16 0" zero_schedule] zero_key_answer
  by (simp add: zero_schedule_def)

text \<open>
  C36: from the persisted key schedule of a BoringSSL AES-128 or AES-256 connection \<open>aes_recover_h\<close>
  recovers the GHASH subkey of GCM, the encryption of the zero block, for both round counts an
  AES_KEY can hold; every other round count is refused.
\<close>

theorem aes_recover_h_subkey:
  assumes "rounds \<in> {9, 10} \<longrightarrow> 176 \<le> length rd_key" "rounds \<in> {13, 14} \<longrightarrow> 240 \<le> length rd_key"
  shows "aes_recover_h rd_key rounds =
    (if rounds \<in> {9, 10} then (True, aes_cipher 10 rd_key (replicate 16 0))
     else if rounds \<in> {13, 14} then (True, aes_cipher 14 rd_key (replicate 16 0))
     else (False, replicate 16 0))"
proof -
  have "aes_block_encrypt rd_key 10 (replicate 16 0) = aes_cipher 10 rd_key (replicate 16 0)" if "176 \<le> length rd_key"
    using that by (intro aes_block_encrypt_spec) simp_all
  moreover have "aes_block_encrypt rd_key 14 (replicate 16 0) = aes_cipher 14 rd_key (replicate 16 0)" if "240 \<le> length rd_key"
    using that by (intro aes_block_encrypt_spec) simp_all
  ultimately show ?thesis using assms by (auto simp: aes_recover_h_def Let_def)
qed

theorem aes_recover_h_subkey_witness: "aes_recover_h zero_schedule 9 = (True, zero_subkey)"
proof -
  have "aes_recover_h zero_schedule 9 = (True, aes_cipher 10 zero_schedule (replicate 16 0))"
    using aes_recover_h_subkey [of 9 zero_schedule] by (simp add: zero_schedule_def)
  moreover have "aes_cipher 10 zero_schedule (replicate 16 0) = zero_subkey"
    using aes_block_encrypt_spec [of 10 "replicate 16 0" zero_schedule] zero_key_answer by (simp add: zero_schedule_def)
  ultimately show ?thesis by simp
qed

end
