(* ===== verification/Bpf.thy ===== *)
theory Bpf
  imports Prelude
begin

text \<open>
  The platform of the programs of \<open>tls_uprobe.c\<close>: the BPF helpers they call, with the behaviour
  the kernel documents.

  A helper that may fail returns an option or a flag; what the environment decides (which user
  addresses are mapped, whether a packet is writable, whether a map has room) is an argument.
\<close>

section \<open>Loops\<close>

text \<open>
  \<open>bpf_loop\<close> runs its callback with the indices from 0 up until it returns 1 (here \<open>True\<close>), at
  most \<open>n\<close> times; more than 2^23 rounds are refused.
\<close>

fun bpf_loop_from :: "nat \<Rightarrow> nat \<Rightarrow> (nat \<Rightarrow> 's \<Rightarrow> bool \<times> 's) \<Rightarrow> 's \<Rightarrow> 's" where
  "bpf_loop_from 0 i f s = s"
| "bpf_loop_from (Suc n) i f s =
     (let (stop, s') = f i s in if stop then s' else bpf_loop_from n (Suc i) f s')"

definition BPF_MAX_LOOPS :: nat where "BPF_MAX_LOOPS = 8388608"

definition bpf_loop :: "nat \<Rightarrow> (nat \<Rightarrow> 's \<Rightarrow> bool \<times> 's) \<Rightarrow> 's \<Rightarrow> 's" where
  "bpf_loop n f s = (if n > BPF_MAX_LOOPS then s else bpf_loop_from n 0 f s)"

lemma bpf_loop_from_invariant:
  assumes "P i s" "\<And>j t. P j t \<Longrightarrow> i \<le> j \<Longrightarrow> j < i + n \<Longrightarrow> fst (f j t) = False \<and> P (Suc j) (snd (f j t))"
  shows "P (i + n) (bpf_loop_from n i f s)"
  using assms
proof (induction n arbitrary: i s)
  case (Suc n)
  have "fst (f i s) = False \<and> P (Suc i) (snd (f i s))"
    using Suc.prems(2) [OF Suc.prems(1)] by simp
  then obtain t where t: "f i s = (False, t)" "P (Suc i) t" by (metis prod.collapse snd_conv)
  show ?case
    using Suc.IH [OF t(2)] Suc.prems(2) t(1) by simp
qed simp

text \<open>A loop whose callback never stops, through the state its rounds reach.\<close>

lemma bpf_loop_invariant:
  assumes "P 0 s" "n \<le> BPF_MAX_LOOPS"
    and "\<And>j t. P j t \<Longrightarrow> j < n \<Longrightarrow> fst (f j t) = False \<and> P (Suc j) (snd (f j t))"
  shows "P n (bpf_loop n f s)"
  using bpf_loop_from_invariant [of P 0 s n f] assms by (simp add: bpf_loop_def)

section \<open>User memory\<close>

type_synonym umem = "u64 \<Rightarrow> u8 option"

text \<open>
  \<open>bpf_probe_read_user\<close>: whether every byte is mapped, and what the destination then holds; a
  failed read zeroes it.
\<close>

definition probe_read_user :: "umem \<Rightarrow> nat \<Rightarrow> u64 \<Rightarrow> bool \<times> bytes" where
  "probe_read_user mem n a =
     (if list_all (\<lambda>i. mem (a + of_nat i) \<noteq> None) [0..<n]
      then (True, map (\<lambda>i. the (mem (a + of_nat i))) [0..<n])
      else (False, replicate n 0))"

lemma length_probe_read_user [simp]: "length (snd (probe_read_user mem n a)) = n"
  by (simp add: probe_read_user_def)

text \<open>Native (little-endian) numbers.\<close>

definition le_word :: "bytes \<Rightarrow> 'a::len word" where
  "le_word bs = be_word (rev bs)"

definition read_user_word :: "umem \<Rightarrow> nat \<Rightarrow> u64 \<Rightarrow> bool \<times> 'a::len word" where
  "read_user_word mem n a = (let (ok, bs) = probe_read_user mem n a in (ok, le_word bs))"

definition bswap16 :: "u16 \<Rightarrow> u16" where
  "bswap16 x = push_bit 8 x OR drop_bit 8 x"

lemma bswap16_bswap16 [simp]: "bswap16 (bswap16 x) = x"
  by (rule bit_eqI) (auto simp: bswap16_def bit_simps)

section \<open>Packets\<close>

text \<open>
  What a tc program sees of a packet: its bytes, how many of them direct access reaches
  (\<open>data_end - data\<close>), the protocol as the network-order number the CPU loads, its socket
  (the inner \<open>None\<close>: not a full socket, \<open>bpf_sk_fullsock\<close> returns NULL), its cgroup, and
  whether a helper can make it writable.
\<close>

record bpf_sock =
  bs_dst_ip4 :: bytes
  bs_dst_ip6 :: bytes

record sk_buff =
  skb_data :: bytes
  skb_headlen :: nat
  skb_protocol :: u16
  skb_sk :: "bpf_sock option option"
  skb_cgroup_id :: u64
  skb_writable :: bool

definition put_at :: "nat \<Rightarrow> 'a list \<Rightarrow> 'a list \<Rightarrow> 'a list" where
  "put_at o' xs d = take o' d @ xs @ drop (o' + length xs) d"

definition skb_load_bytes :: "sk_buff \<Rightarrow> u32 \<Rightarrow> nat \<Rightarrow> bytes option" where
  "skb_load_bytes skb off n =
     (if off > 0x7fffffff \<or> unat off + n > length (skb_data skb) then None
      else Some (take n (drop (unat off) (skb_data skb))))"

definition skb_store_bytes :: "u32 \<Rightarrow> bytes \<Rightarrow> sk_buff \<Rightarrow> sk_buff" where
  "skb_store_bytes off bs skb =
     (if off > 0x7fffffff \<or> unat off + length bs > length (skb_data skb) \<or> \<not> skb_writable skb then skb
      else skb\<lparr>skb_data := put_at (unat off) bs (skb_data skb)\<rparr>)"

lemma length_put_at [simp]: "o' + length xs \<le> length d \<Longrightarrow> length (put_at o' xs d) = length d"
  by (simp add: put_at_def)

lemma nth_put_at:
  "o' + length xs \<le> length d \<Longrightarrow> i < length d \<Longrightarrow>
    put_at o' xs d ! i = (if o' \<le> i \<and> i < o' + length xs then xs ! (i - o') else d ! i)"
  by (auto simp: put_at_def nth_append min_def)

lemma skb_load_bytes_length: "skb_load_bytes skb off n = Some bs \<Longrightarrow> length bs = n"
  by (auto simp: skb_load_bytes_def split: if_splits)

lemma length_skb_store_bytes [simp]: "length (skb_data (skb_store_bytes off bs skb)) = length (skb_data skb)"
  by (auto simp: skb_store_bytes_def)

lemma skb_store_bytes_fields [simp]:
  "skb_headlen (skb_store_bytes off bs skb) = skb_headlen skb"
  "skb_protocol (skb_store_bytes off bs skb) = skb_protocol skb"
  "skb_sk (skb_store_bytes off bs skb) = skb_sk skb"
  "skb_cgroup_id (skb_store_bytes off bs skb) = skb_cgroup_id skb"
  "skb_writable (skb_store_bytes off bs skb) = skb_writable skb"
  by (auto simp: skb_store_bytes_def)

section \<open>Maps\<close>

text \<open>
  An update of a hash map with a bounded number of entries: a new key needs \<open>room\<close>. (An LRU map
  always has: an update may evict other entries, which is a step of the environment.)
\<close>

definition map_put :: "bool \<Rightarrow> 'k \<Rightarrow> 'v \<Rightarrow> ('k \<rightharpoonup> 'v) \<Rightarrow> ('k \<rightharpoonup> 'v)" where
  "map_put room k v m = (if room \<or> m k \<noteq> None then m(k \<mapsto> v) else m)"

definition map_del :: "'k \<Rightarrow> ('k \<rightharpoonup> 'v) \<Rightarrow> ('k \<rightharpoonup> 'v)" where
  "map_del k m = m(k := None)"

lemma map_put_other [simp]: "k' \<noteq> k \<Longrightarrow> map_put room k v m k' = m k'"
  by (simp add: map_put_def)

lemma map_del_apply [simp]: "map_del k m k' = (if k' = k then None else m k')"
  by (simp add: map_del_def)

end
