(* ===== verification/State.thy ===== *)
theory State
  imports Bpf Text_Match TLS_Record SNI_Parse Vip_Address
begin

text \<open>
  The data of \<open>tls_uprobe.c\<close>: its structs as records (padding left out, arrays as lists) and its
  BPF maps as the fields of a state.

  The maps the programs only read (secrets, bindings, modes, offsets, virtual IPs), which the
  control plane writes, are a record of their own, \<open>config\<close>. The state the programs write grows
  along the record extensions \<open>counters\<close>, \<open>ghash_cpu\<close>, \<open>tc_maps\<close>, \<open>kmaps\<close>, so that a program
  is a function on the part it uses.
\<close>

section \<open>Counters\<close>

datatype dbg = DBG_XOR_CONN_CHECK | DBG_XOR_CONN_HIT | DBG_XOR_PRESCAN_MATCH | DBG_XOR_TAILCALL
  | DBG_XOR_PATH_ENTERED | DBG_XOR_SECRET_FOUND | DBG_XOR_DELTA_DONE | DBG_TC_ENTRY | DBG_TC_MATCH
  | DBG_TC_PATCHED | DBG_KPROBE_BRIDGE | DBG_KPROBE_BRIDGE_NO_ENTRY | DBG_KPROBE_BRIDGE_H_FAIL
  | DBG_EVP_INIT_ENTRY | DBG_EVP_INIT_H_OK | DBG_EVP_INIT_H_ZERO | DBG_EVP_INIT_CHAIN_FAIL
  | DBG_H_EXTRACT_CACHE_HIT | DBG_H_EXTRACT_CACHE_MISS | DBG_KPROBE_BRIDGE_FROM_PENDING
  | DBG_KPROBE_WALK_LEGACY | DBG_H_EXTRACT_LIVE_WALK | DBG_BSSL_REACHED | DBG_BSSL_H_OK
  | DBG_BSSL_S3_NULL | DBG_BSSL_AEAD_NULL | DBG_BSSL_RDKEY_FAIL | DBG_BSSL_ROUNDS_BAD
  | DBG_BSSL_HZERO | DBG_OSSL_GCM_GATE_FAIL | DBG_OSSL_H_FROM_HKEY1 | DBG_SECRET_BINDING_DENY
  | DBG_SECRET_BINDING_AUDIT | DBG_SNI_CAPTURED | DBG_SNI_DENY | DBG_SNI_AUDIT
  | DBG_VIP_DNS_REWRITTEN | DBG_VIP_DNS_UNCHANGED | DBG_VIP_CONNECT_REDIRECT
  | DBG_VIP_CONNECT_REFUSED | DBG_VIP_DNS_UNBOUND | DBG_VIP_SOCK_HOST_DENY | DBG_VIP_SOCK_ADDR_DENY

record counters =
  debug_counters :: "dbg \<Rightarrow> u64"

definition dbg_inc :: "dbg \<Rightarrow> 'a counters_scheme \<Rightarrow> 'a counters_scheme" where
  "dbg_inc idx s = s\<lparr>debug_counters := (debug_counters s)(idx := debug_counters s idx + 1)\<rparr>"

section \<open>Secrets and their bindings\<close>

type_synonym secret_key = bytes

record secret_value =
  sv_len :: u32
  real_secret :: bytes
  sv_host_len :: u32
  allowed_host :: bytes
  ip_len :: u32
  allowed_ip :: bytes
  sv_port :: u16
  protocol :: u8
  prefix_len :: u32
  full_prefix :: bytes

definition SECRET_BINDING_AUDIT :: u32 where "SECRET_BINDING_AUDIT = 1"
definition SNI_CHECK_AUDIT :: u32 where "SNI_CHECK_AUDIT = 1"

record secret_acl_key =
  ak_cgroup_id :: u64
  ak_key :: secret_key

datatype secret_evt_reason = SECRET_EVT_BINDING | SECRET_EVT_SNI

record secret_binding_event =
  se_cgroup_id :: u64
  se_tgid :: u32
  se_audit :: bool
  se_reason :: secret_evt_reason
  se_sni_status :: sni_status
  se_memory_bio :: bool
  se_key :: secret_key
  se_sni :: bytes

section \<open>Connections and processes\<close>

record conn_ip_key =
  cik_tgid :: u32
  cik_fd :: u32

record conn_ip_val =
  civ_ip :: bytes
  civ_port :: u16

record connect_pending_val =
  cp_fd :: u32
  cp_ip :: bytes
  cp_port :: u16

record kloak_proc_event =
  pe_tgid :: u32
  pe_type :: u8
  pe_cgroup_id :: u64

record sni_state_val =
  ss_status :: sni_status
  ss_len :: nat
  ss_sni :: bytes

section \<open>TLS connections and pending patches\<close>

record tls_conn_key =
  ck_tgid :: u32
  ck_ssl_ptr :: u64

record tls_conn_state_val =
  cs_ghash_h :: bytes
  cs_cipher_type :: cipher_type
  cs_nonce_len :: u8

record evp_h_key =
  ek_tgid :: u32
  ek_evp_ctx_ptr :: u64

record evp_h_val =
  ev_ghash_h :: bytes
  ev_cipher_type :: cipher_type
  ev_nonce_len :: u8

record xor_patch =
  secret_offset :: u32
  secret_len :: u32
  xor_delta :: bytes
  patch_key :: secret_key

definition XOR_MAX_PATCHES :: nat where "XOR_MAX_PATCHES = 4"
definition XOR_MAX_MATCHES :: nat where "XOR_MAX_MATCHES = 4"

text \<open>A zeroed patch slot.\<close>

definition no_patch :: xor_patch where
  "no_patch = \<lparr>secret_offset = 0, secret_len = 0, xor_delta = replicate SECRET_MAX_LEN 0,
     patch_key = replicate SECRET_KEY_LEN 0\<rparr>"

datatype chain_type = CHAIN_SSL | CHAIN_GO_TLS

record xor_pending_val =
  xp_ssl_ptr :: u64
  xp_tgid :: u32
  xp_patch_count :: u32
  xp_patches :: "xor_patch list"
  xp_active :: bool
  xp_chain_type :: chain_type
  xp_memory_bio :: bool
  xp_h_valid :: bool
  xp_plaintext_len :: u32
  xp_created_at :: u64
  xp_ghash_h :: bytes
  xp_cipher_type :: cipher_type
  xp_nonce_len :: u8

record xor_match =
  xm_pos :: u32
  xm_key :: secret_key

record scratch_buf =
  sb_user_data_ptr :: u64
  sb_ssl_ptr :: u64
  sb_read_len :: u32
  sb_total_data_len :: u32
  sb_chain_type :: chain_type
  sb_h_fresh :: bool
  sb_memory_bio :: bool
  sb_xor_match_count :: u32
  sb_xor_current_match :: u32
  sb_xor_matches :: "xor_match list"
  sb_data :: bytes

section \<open>Packets waiting for their patches\<close>

record tc_dest_key =
  dk_dst_ip :: bytes
  dk_src_port :: u16
  dk_cgroup_id :: u64

record tc_pending_val =
  tp_tgid :: u32
  tp_ssl_ptr :: u64
  tp_patch_count :: u32
  tp_patches :: "xor_patch list"
  tp_active :: bool
  tp_plaintext_len :: u32
  tp_write_seq :: u32

record tc_tag_val =
  tv_tag_delta :: bytes
  tv_tag_tcp_seq :: u32

text \<open>The scratch of the XOR path and of the GHASH callbacks.\<close>

record ghash_work =
  staged_pending :: xor_pending_val
  staged_tc :: tc_pending_val
  ct_buf :: bytes
  old_tag :: bytes
  tag_delta :: bytes
  new_tag :: bytes
  block_delta :: bytes
  h_pow :: bytes
  mul_a :: bytes
  mul_v :: bytes
  mul_z :: bytes
  ghash_ct_len :: u32
  ghash_tgid :: u32
  ghash_ssl_ptr :: u64
  ghash_secret_offset :: u32
  ghash_patch_len :: u32
  ghash_nonce_len :: u32
  ghash_payload_off :: u32
  ghash_xor_delta :: bytes
  ghash_active :: bool
  ghash_first_block :: u32
  ghash_ct_blocks :: u32
  ghash_h_power_val :: u32
  ghash_conn_key :: tc_dest_key
  ghash_pkt_seq :: u32
  ghash_record_tcp_off :: u32

section \<open>TLS library layouts\<close>

text \<open>The key of the offsets: the binary of a container.\<close>

record tls_binary_key =
  bk_cgroup_id :: u64
  bk_exe_inode :: u64

datatype tls_lib = TLS_LIB_OPENSSL | TLS_LIB_BORINGSSL

record tls_offsets =
  ssl_to_wrl :: u32
  wrl_to_enc_ctx :: u32
  enc_ctx_to_algctx :: u32
  algctx_to_h :: u32
  ssl_to_version :: u32
  ssl_to_wbio :: u32
  of_tls_lib :: tls_lib
  bssl_ssl_to_s3 :: u32
  bssl_s3_to_aead :: u32
  bssl_aead_to_aeskey :: u32
  ossl_algctx_to_gcm_key :: u32
  ossl_algctx_to_ks :: u32
  ossl_algctx_to_vaes_hkey1 :: u32

record go_tls_offsets =
  conn_to_cipher :: u32
  aead_iface_off :: u32
  h2_hi_off :: u32
  h2_lo_off :: u32
  conn_vers_off :: u32

section \<open>Virtual IPs\<close>

text \<open>Hosts are padded to 64 bytes; addresses are lists of 16 bytes, or of 4 for an IPv4 one.\<close>

record vip_host_val =
  vh_ip4 :: bytes
  vh_ip6 :: bytes

record vip_ip_val =
  vi_host :: bytes
  vi_host_len :: u32
  vi_flags :: u32
  vi_retired_at :: u64

record vip_config_val =
  vc_net4 :: u32
  vc_mask4 :: u32
  vc_net6 :: bytes
  vc_mask6 :: bytes

record vip_sock_val =
  vs_fake_ip :: bytes
  vs_real_ip :: bytes
  vs_port :: u32

record vip_sock_dst_val =
  vd_ip :: bytes
  vd_port :: u16

record vip_pod_host_key =
  pod_ip :: bytes
  pod_host :: bytes

section \<open>The state\<close>

record ghash_cpu = counters +
  ghash_scratch :: ghash_work
  h_power_entries :: "bytes list"
  tls_conn_state :: "tls_conn_key \<rightharpoonup> tls_conn_state_val"

record tc_maps = ghash_cpu +
  tc_pending :: "tc_dest_key \<rightharpoonup> tc_pending_val"
  tc_tag_pending :: "tc_dest_key \<rightharpoonup> tc_tag_val"

text \<open>
  The maps of the programs that watch processes and writes. A ring buffer is the list of its events,
  a per-CPU array the entry of the CPU that runs; a socket's storage is keyed by the socket.
\<close>

record kmaps = tc_maps +
  secret_binding_events :: "secret_binding_event list"
  proc_events :: "kloak_proc_event list"
  tracked_tgids :: "u32 \<rightharpoonup> u8"
  tracked_cgroups :: "u64 \<rightharpoonup> u8"
  conn_ip_map :: "conn_ip_key \<rightharpoonup> conn_ip_val"
  connect_pending :: "u64 \<rightharpoonup> connect_pending_val"
  evp_init_scratch :: "u64 \<rightharpoonup> u64"
  evp_h_cache :: "evp_h_key \<rightharpoonup> evp_h_val"
  xor_pending :: "u32 \<rightharpoonup> xor_pending_val"
  scratch :: scratch_buf
  sni_state :: "u64 \<rightharpoonup> sni_state_val"
  vip_upstream :: "bytes \<rightharpoonup> vip_upstream_val"
  vip_sock :: "u64 \<rightharpoonup> vip_sock_val"
  vip_sock_host :: "u64 \<rightharpoonup> bytes"
  vip_sock_dst :: "u64 \<rightharpoonup> vip_sock_dst_val"

section \<open>What the control plane writes\<close>

text \<open>The maps the programs only read; an array not written yet holds zeros.\<close>

record config =
  secret_map :: "secret_key \<rightharpoonup> secret_value"
  secret_acl :: "secret_acl_key \<rightharpoonup> u8"
  secret_binding_mode :: u32
  sni_check_mode :: u32
  tls_offset_config :: "tls_binary_key \<rightharpoonup> tls_offsets"
  go_tls_offset_config :: "tls_binary_key \<rightharpoonup> go_tls_offsets"
  tls_strategy :: "u32 \<rightharpoonup> u8"
  trusted_dns_servers :: "bytes \<rightharpoonup> u8"
  dns_whitelist_enabled :: u8
  vip_config :: vip_config_val
  vip_host_ip :: "bytes \<rightharpoonup> vip_host_val"
  vip_ip_host :: "bytes \<rightharpoonup> vip_ip_val"
  vip_pod_host :: "vip_pod_host_key \<rightharpoonup> u8"

section \<open>What the kernel provides\<close>

text \<open>
  The environment of one run: the calling task and its user memory (which does not change during
  the run), the clocks, a random number, the sockets, whether a hash map has room for a new key and
  whether the ring buffer has room for its n-th event.
\<close>

datatype hash_map = CONNECT_PENDING | EVP_INIT_SCRATCH | XOR_PENDING | TRACKED_TGIDS | TRACKED_CGROUPS
  | VIP_UPSTREAM | VIP_SOCK

text \<open>The fields of \<open>struct sock\<close> the programs read; addresses as bytes, \<open>skc_dport\<close> as loaded.\<close>

record sock =
  skc_family :: u16
  skc_v6_daddr :: bytes
  skc_daddr :: bytes
  skc_dport :: u16
  skc_num :: u16
  skc_cookie :: u64
  write_seq :: u32

record kenv =
  ke_pid_tgid :: u64
  ke_cgroup_id :: u64
  ke_exe_inode :: u64
  ke_mem :: umem
  ke_ktime :: u64
  ke_boottime :: u64
  ke_random :: u32
  ke_sock :: "u64 \<Rightarrow> sock"
  ke_room :: "hash_map \<Rightarrow> bool"
  ke_ring :: "nat \<Rightarrow> bool"

definition cur_tgid :: "kenv \<Rightarrow> u32" where
  "cur_tgid e = ucast (drop_bit 32 (ke_pid_tgid e))"

lemma dbg_inc_ghash [simp]:
  "ghash_scratch (dbg_inc i s) = ghash_scratch s"
  "h_power_entries (dbg_inc i s) = h_power_entries s"
  "tls_conn_state (dbg_inc i s) = tls_conn_state s"
  by (simp_all add: dbg_inc_def)

lemma dbg_inc_tc [simp]:
  "tc_pending (dbg_inc i s) = tc_pending s"
  "tc_tag_pending (dbg_inc i s) = tc_tag_pending s"
  by (simp_all add: dbg_inc_def)

end
