(* ===== verification/Ghash_Spec.thy ===== *)
theory Ghash_Spec
  imports GF128 Bpf
begin

text \<open>
  The reference for the tag correction: GHASH of NIST SP 800-38D over any commutative ring of
  characteristic 2, the tag of AES-GCM, and how the tag changes when bytes of the ciphertext are
  exclusive-ored with a delta.

  The interface \<open>ghash_buffers\<close> is what the correction needs of the arithmetic on 16-byte
  buffers; \<open>GF128\<close> provides it.
\<close>

section \<open>GHASH\<close>

definition ghash :: "'f::comm_ring_1 \<Rightarrow> 'f list \<Rightarrow> 'f" where
  "ghash h xs = foldl (\<lambda>y x. (y + x) * h) 0 xs"

lemma foldl_ghash: "foldl (\<lambda>y x. (y + x) * h) a xs = a * h ^ length xs + ghash h xs"
proof (induction xs arbitrary: a)
  case (Cons x xs)
  have "foldl (\<lambda>y x. (y + x) * h) a (x # xs) = foldl (\<lambda>y x. (y + x) * h) ((a + x) * h) xs" by simp
  also have "\<dots> = (a + x) * h * h ^ length xs + ghash h xs" by (rule Cons.IH)
  also have "ghash h (x # xs) = x * h * h ^ length xs + ghash h xs"
    using Cons.IH [of "x * h"] by (simp add: ghash_def)
  then have "(a + x) * h * h ^ length xs + ghash h xs = a * h ^ length (x # xs) + ghash h (x # xs)"
    by (simp add: algebra_simps)
  finally show ?case .
qed (simp add: ghash_def)

lemma ghash_Nil [simp]: "ghash h [] = 0"
  by (simp add: ghash_def)

lemma ghash_append: "ghash h (xs @ ys) = ghash h xs * h ^ length ys + ghash h ys"
proof -
  have "ghash h (xs @ ys) = foldl (\<lambda>y x. (y + x) * h) (ghash h xs) ys" by (simp add: ghash_def)
  then show ?thesis by (simp add: foldl_ghash)
qed

lemma ghash_Cons: "ghash h (x # xs) = x * h ^ Suc (length xs) + ghash h xs"
  using ghash_append [of h "[x]" xs] by (simp add: ghash_def mult.assoc)

lemma ghash_add:
  "length xs = length ys \<Longrightarrow> ghash h (map2 (+) xs ys) = ghash h xs + ghash h ys"
  by (induction xs ys rule: list_induct2) (simp_all add: ghash_Cons algebra_simps)

lemma ghash_sum: "ghash h xs = (\<Sum>i<length xs. xs ! i * h ^ (length xs - i))"
proof (induction xs)
  case (Cons x xs)
  then show ?case
    by (simp add: ghash_Cons sum.lessThan_Suc_shift del: sum.lessThan_Suc)
qed simp

section \<open>Blocks of a byte string\<close>

text \<open>The \<open>b\<close>-th 16-byte block, padded with zeros, and the blocks of a string.\<close>

definition block :: "bytes \<Rightarrow> nat \<Rightarrow> bytes" where
  "block bs b = map (\<lambda>i. if 16 * b + i < length bs then bs ! (16 * b + i) else 0) [0..<16]"

definition n_blocks :: "bytes \<Rightarrow> nat" where
  "n_blocks bs = (length bs + 15) div 16"

definition blocks :: "bytes \<Rightarrow> bytes list" where
  "blocks bs = map (block bs) [0..<n_blocks bs]"

lemma length_block [simp]: "length (block bs b) = 16"
  by (simp add: block_def)

lemma length_blocks [simp]: "length (blocks bs) = n_blocks bs"
  by (simp add: blocks_def)

lemma block_xor:
  assumes "length ds = length cs"
  shows "block (xor_bytes cs ds) b = xor_bytes (block cs b) (block ds b)"
  using assms by (intro nth_equalityI) (auto simp: block_def)

section \<open>The delta of a patch\<close>

text \<open>\<open>delta_at n off d\<close>: a string of \<open>n\<close> zeros with \<open>d\<close> at offset \<open>off\<close>.\<close>

definition delta_at :: "nat \<Rightarrow> nat \<Rightarrow> bytes \<Rightarrow> bytes" where
  "delta_at n off d = put_at off d (replicate n 0)"

lemma length_delta_at [simp]: "off + length d \<le> n \<Longrightarrow> length (delta_at n off d) = n"
  by (simp add: delta_at_def)

lemma nth_delta_at:
  "off + length d \<le> n \<Longrightarrow> i < n \<Longrightarrow>
    delta_at n off d ! i = (if off \<le> i \<and> i < off + length d then d ! (i - off) else 0)"
  by (simp add: delta_at_def nth_put_at)

text \<open>The patch: the delta exclusive-ored into the string at its offset.\<close>

definition xor_at :: "nat \<Rightarrow> bytes \<Rightarrow> bytes \<Rightarrow> bytes" where
  "xor_at off d bs = put_at off (xor_bytes (take (length d) (drop off bs)) d) bs"

lemma length_xor_at [simp]: "off + length d \<le> length bs \<Longrightarrow> length (xor_at off d bs) = length bs"
  by (simp add: xor_at_def)

lemma nth_xor_at:
  "off + length d \<le> length bs \<Longrightarrow> i < length bs \<Longrightarrow>
    xor_at off d bs ! i = (if off \<le> i \<and> i < off + length d then bs ! i XOR d ! (i - off) else bs ! i)"
  by (auto simp: xor_at_def nth_put_at)

lemma xor_at_delta:
  assumes "off + length d \<le> length bs"
  shows "xor_at off d bs = xor_bytes bs (delta_at (length bs) off d)"
proof (rule nth_equalityI)
  show "length (xor_at off d bs) = length (xor_bytes bs (delta_at (length bs) off d))"
    using assms by simp
  fix i assume "i < length (xor_at off d bs)"
  then have i: "i < length bs" using assms by simp
  then show "xor_at off d bs ! i = xor_bytes bs (delta_at (length bs) off d) ! i"
    using assms nth_delta_at [OF assms i] by (simp add: nth_xor_at)
qed

text \<open>Blocks a patch does not touch have a zero delta.\<close>

lemma block_delta_outside:
  assumes "off + length d \<le> n" "d \<noteq> []"
    and "b < off div 16 \<or> (off + length d - 1) div 16 < b"
  shows "block (delta_at n off d) b = replicate 16 0"
proof (rule nth_equalityI)
  fix i assume "i < length (block (delta_at n off d) b)"
  then have i: "i < 16" by simp
  have "\<not> (off \<le> 16 * b + i \<and> 16 * b + i < off + length d)"
  proof
    assume p: "off \<le> 16 * b + i \<and> 16 * b + i < off + length d"
    then have "off div 16 \<le> (16 * b + i) div 16" by (intro div_le_mono) simp
    moreover from p have "(16 * b + i) div 16 \<le> (off + length d - 1) div 16"
      by (intro div_le_mono) linarith
    moreover have "(16 * b + i) div 16 = b" using i by simp
    ultimately show False using assms(3) by linarith
  qed
  then show "block (delta_at n off d) b ! i = replicate 16 0 ! i"
    using assms(1) i by (auto simp: block_def nth_delta_at)
qed simp

text \<open>The hash of a record, \<open>val\<close> reading a 16-byte block: GHASH over the padded associated data, the padded ciphertext and the lengths.\<close>

definition tag_hash :: "(bytes \<Rightarrow> 'f) \<Rightarrow> 'f::comm_ring_1 \<Rightarrow> bytes \<Rightarrow> bytes \<Rightarrow> bytes \<Rightarrow> 'f" where
  "tag_hash val h aad ct lens = ghash h (map val (blocks aad) @ map val (blocks ct) @ [val lens])"

text \<open>The weighted blocks of a delta: the change of the hash (\<open>tag_hash_xor\<close> below).\<close>

definition delta_sum :: "(bytes \<Rightarrow> 'f) \<Rightarrow> 'f::comm_ring_1 \<Rightarrow> bytes \<Rightarrow> 'f" where
  "delta_sum val h ds = (\<Sum>b<n_blocks ds. val (block ds b) * h ^ (n_blocks ds - b + 1))"

section \<open>The buffers a GHASH runs on\<close>

text \<open>
  The laws of the 16-byte arithmetic: a reading \<open>val\<close> of a buffer as a ring element under which
  exclusive or is addition and \<open>mul\<close> the product, and a buffer for every element.
\<close>

locale ghash_buffers =
  fixes mul :: "bytes \<Rightarrow> bytes \<Rightarrow> bytes"
    and val :: "bytes \<Rightarrow> 'f::comm_ring_1"
    and buf :: "'f \<Rightarrow> bytes"
  assumes mul_val: "length a = 16 \<Longrightarrow> length b = 16 \<Longrightarrow> val (mul a b) = val a * val b"
    and mul_length: "length a = 16 \<Longrightarrow> length b = 16 \<Longrightarrow> length (mul a b) = 16"
    and xor_val: "length a = 16 \<Longrightarrow> length b = 16 \<Longrightarrow> val (xor_bytes a b) = val a + val b"
    and zero_val: "val (replicate 16 0) = 0"
    and buf_val: "length a = 16 \<Longrightarrow> buf (val a) = a"
begin

lemma val_inject: "length a = 16 \<Longrightarrow> length b = 16 \<Longrightarrow> val a = val b \<longleftrightarrow> a = b"
  using buf_val by metis

lemma map_val_xor:
  assumes "length ds = length cs"
  shows "map val (blocks (xor_bytes cs ds)) = map2 (+) (map val (blocks cs)) (map val (blocks ds))"
proof (rule nth_equalityI)
  show l: "length (map val (blocks (xor_bytes cs ds)))
      = length (map2 (+) (map val (blocks cs)) (map val (blocks ds)))"
    using assms by (simp add: n_blocks_def)
  fix i assume "i < length (map val (blocks (xor_bytes cs ds)))"
  then show "map val (blocks (xor_bytes cs ds)) ! i
      = map2 (+) (map val (blocks cs)) (map val (blocks ds)) ! i"
    using assms by (simp add: blocks_def n_blocks_def block_xor xor_val)
qed

text \<open>
  Exclusive-oring \<open>ds\<close> into the ciphertext adds the weighted blocks of \<open>ds\<close> to the hash; the
  associated data and the lengths cancel.
\<close>

lemma tag_hash_xor:
  assumes "length ds = length cs"
  shows "tag_hash val h aad (xor_bytes cs ds) lens = tag_hash val h aad cs lens + delta_sum val h ds"
proof -
  have n: "n_blocks (xor_bytes cs ds) = n_blocks cs" "n_blocks ds = n_blocks cs"
    using assms by (simp_all add: n_blocks_def)
  have c: "ghash h (map val (blocks (xor_bytes cs ds)))
      = ghash h (map val (blocks cs)) + ghash h (map val (blocks ds))"
    unfolding map_val_xor [OF assms] by (rule ghash_add) (simp add: n)
  have d: "ghash h (map val (blocks ds)) * h = delta_sum val h ds"
    by (simp add: ghash_sum delta_sum_def blocks_def sum_distrib_right mult.assoc power_commutes)
  show ?thesis
    unfolding tag_hash_def ghash_append c
    by (simp add: n ghash_Cons algebra_simps d [symmetric])
qed

text \<open>The sum over the blocks a patch touches is the sum over all blocks.\<close>

lemma delta_sum_touched:
  assumes "off + length d \<le> n" "d \<noteq> []"
  shows "delta_sum val h (delta_at n off d)
    = (\<Sum>b = off div 16..(off + length d - 1) div 16.
         val (block (delta_at n off d) b) * h ^ (n_blocks (delta_at n off d) - b + 1))"
proof -
  let ?d = "delta_at n off d"
  have n: "n_blocks ?d = (n + 15) div 16" using assms(1) by (simp add: n_blocks_def)
  have "off + length d - 1 < n" using assms by (cases d) auto
  then have "(off + length d - 1) div 16 < (n + 15) div 16" by linarith
  then have s: "{off div 16..(off + length d - 1) div 16} \<subseteq> {..<n_blocks ?d}"
    unfolding n by auto
  show ?thesis
    unfolding delta_sum_def
  proof (rule sum.mono_neutral_right [OF finite_lessThan s], intro ballI)
    fix b assume "b \<in> {..<n_blocks ?d} - {off div 16..(off + length d - 1) div 16}"
    then have "b < off div 16 \<or> (off + length d - 1) div 16 < b" by auto
    then show "val (block ?d b) * h ^ (n_blocks ?d - b + 1) = 0"
      by (simp add: block_delta_outside [OF assms] zero_val)
  qed
qed

end

interpretation gf: ghash_buffers gf128_mul gf_of gf_bytes
  by unfold_locales (auto simp: gf128_mul_spec gf_of_xor gf_of_zero gf_bytes_gf_of)

end
