(* ===== verification/Ghash_Update.thy ===== *)
theory Ghash_Update
  imports State Ghash_Spec
begin

text \<open>
  The tag correction of a patched TLS record: \<open>ghash_block_delta\<close> of \<open>helpers.h\<close>, the
  \<open>bpf_loop\<close> callbacks of \<open>tls_uprobe.c\<close> that accumulate it (\<open>gf128_mul_iter\<close>,
  \<open>copy_h_power_step\<close>, \<open>h_power_step\<close>, \<open>ghash_block_iter\<close>, \<open>ghash_patch_iter\<close>) and the tc
  program \<open>tc_ghash_update\<close> that runs them and writes the corrected tag.

  The callbacks keep their operands in the per-CPU scratch, as in the code; a lookup of the
  per-CPU arrays never fails.
\<close>

section \<open>The code\<close>

definition ghash_block_delta :: "bytes \<Rightarrow> u32 \<Rightarrow> u32 \<Rightarrow> u32 \<Rightarrow> bytes" where
  "ghash_block_delta xd blk sec_off len =
     (let start = ucast (blk AND 0x3FF) * 16 - ucast sec_off :: u64
      in map (\<lambda>i. let d = start + of_nat i;
                      in' = ucast (drop_bit 63 (NOT d AND (d - ucast len))) :: u8
                  in xd ! unat (d AND (of_nat SECRET_MAX_LEN - 1)) AND - in') [0..<16])"

definition upd_work :: "(ghash_work \<Rightarrow> ghash_work) \<Rightarrow> 'a ghash_cpu_scheme \<Rightarrow> 'a ghash_cpu_scheme" where
  "upd_work f s = s\<lparr>ghash_scratch := f (ghash_scratch s)\<rparr>"

definition gf128_mul_iter :: "nat \<Rightarrow> 'a ghash_cpu_scheme \<Rightarrow> bool \<times> 'a ghash_cpu_scheme" where
  "gf128_mul_iter i s =
     (let w = ghash_scratch s;
          (v, z) = gf128_mul_step (mul_a w) (mul_v w) (mul_z w) i
      in (False, upd_work (\<lambda>w. w\<lparr>mul_v := v, mul_z := z\<rparr>) s))"

text \<open>The multiplication as the callbacks set it up: operands, zeroed accumulator, 128 rounds.\<close>

definition gf128_mul_loop :: "bytes \<Rightarrow> bytes \<Rightarrow> 'a ghash_cpu_scheme \<Rightarrow> 'a ghash_cpu_scheme" where
  "gf128_mul_loop a v s =
     bpf_loop 128 gf128_mul_iter (upd_work (\<lambda>w. w\<lparr>mul_a := a, mul_z := replicate 16 0, mul_v := v\<rparr>) s)"

definition copy_h_power_step :: "nat \<Rightarrow> 'a ghash_cpu_scheme \<Rightarrow> bool \<times> 'a ghash_cpu_scheme" where
  "copy_h_power_step i s =
     (if i \<ge> 11 then (True, s)
      else let w = ghash_scratch s in
        case tls_conn_state s \<lparr>ck_tgid = ghash_tgid w, ck_ssl_ptr = ghash_ssl_ptr w\<rparr> of
          None \<Rightarrow> (True, s)
        | Some conn \<Rightarrow>
            if i = 0 then (False, s\<lparr>h_power_entries := (h_power_entries s)[0 := cs_ghash_h conn]\<rparr>)
            else let prev_val = h_power_entries s ! (i - 1);
                     s1 = gf128_mul_loop prev_val prev_val s;
                     entry = mul_z (ghash_scratch s1)
                 in (False, s1\<lparr>h_power_entries := (h_power_entries s1)[i := entry]\<rparr>))"

definition h_power_step :: "nat \<Rightarrow> 'a ghash_cpu_scheme \<Rightarrow> bool \<times> 'a ghash_cpu_scheme" where
  "h_power_step b s =
     (let w = ghash_scratch s in
      if b \<ge> 11 then (True, s)
      else if ghash_h_power_val w AND push_bit b 1 = 0 then (False, s)
      else let hp_val = h_power_entries s ! b;
               s1 = gf128_mul_loop (h_pow w) hp_val s
           in (False, upd_work (\<lambda>w. w\<lparr>h_pow := mul_z w\<rparr>) s1))"

definition ghash_block_iter :: "nat \<Rightarrow> 'a ghash_cpu_scheme \<Rightarrow> bool \<times> 'a ghash_cpu_scheme" where
  "ghash_block_iter block_idx s =
     (let w = ghash_scratch s;
          b = ghash_first_block w + of_nat block_idx
      in if b \<ge> ghash_ct_blocks w then (True, s)
         else let delta = ghash_block_delta (ghash_xor_delta w) b (ghash_secret_offset w) (ghash_patch_len w);
                  s1 = upd_work (\<lambda>w. w\<lparr>block_delta := delta\<rparr>) s;
                  pow = ghash_ct_blocks w - b + 1;
                  s2 = upd_work (\<lambda>w. w\<lparr>ghash_h_power_val := pow, h_pow := (replicate 16 0)[0 := 0x80]\<rparr>) s1;
                  s3 = bpf_loop 11 h_power_step s2;
                  s4 = gf128_mul_loop (block_delta (ghash_scratch s3)) (h_pow (ghash_scratch s3)) s3
              in (False, upd_work (\<lambda>w. w\<lparr>tag_delta := xor_bytes (tag_delta w) (mul_z w)\<rparr>) s4))"

definition ghash_patch_iter :: "nat \<Rightarrow> 'a ghash_cpu_scheme \<Rightarrow> bool \<times> 'a ghash_cpu_scheme" where
  "ghash_patch_iter p s =
     (let w = ghash_scratch s;
          patch = xp_patches (staged_pending w) ! (p mod XOR_MAX_PATCHES);
          raw_len = secret_len patch
      in if raw_len = 0 then (False, s)
         else let sec_off = secret_offset patch;
                  sec_len = clamp_write_len raw_len;
                  s1 = upd_work (\<lambda>w. w\<lparr>ghash_secret_offset := sec_off, ghash_patch_len := sec_len,
                         ghash_xor_delta := xor_delta patch, ghash_first_block := sec_off div 16\<rparr>) s;
                  n = (sec_off + sec_len - 1) div 16 - sec_off div 16 + 1;
                  num_blocks = (if n > 9 then 9 else n)
              in (False, bpf_loop (unat num_blocks) ghash_block_iter s1))"

text \<open>The tag of this segment is rewritten, or its delta is kept for the segment that has it.\<close>

definition tc_ghash_tag :: "sk_buff \<Rightarrow> u32 \<Rightarrow> 'a tc_maps_scheme \<Rightarrow> sk_buff \<times> 'a tc_maps_scheme" where
  "tc_ghash_tag skb tag_offset s =
     (let w = ghash_scratch s in
      case skb_load_bytes skb tag_offset 16 of
        Some old \<Rightarrow>
          let s1 = upd_work (\<lambda>w. w\<lparr>old_tag := old, new_tag := xor_bytes old (tag_delta w)\<rparr>) s
          in (skb_store_bytes tag_offset (new_tag (ghash_scratch s1)) skb, s1)
      | None \<Rightarrow>
          let tv = \<lparr>tv_tag_delta = tag_delta w,
                    tv_tag_tcp_seq = ghash_pkt_seq w + ghash_record_tcp_off w + 5
                      + ghash_nonce_len w + ghash_ct_len w\<rparr>
          in (skb, s\<lparr>tc_tag_pending := (tc_tag_pending s)(ghash_conn_key w \<mapsto> tv)\<rparr>))"

definition tc_ghash_update :: "sk_buff \<Rightarrow> 'a tc_maps_scheme \<Rightarrow> sk_buff \<times> 'a tc_maps_scheme" where
  "tc_ghash_update skb s =
     (if \<not> ghash_active (ghash_scratch s) then (skb, s)
      else let s1 = upd_work (\<lambda>w. w\<lparr>ghash_active := False\<rparr>) s;
               s2 = bpf_loop 11 copy_h_power_step s1;
               w = ghash_scratch s2;
               ct_len = ghash_ct_len w; nonce_len = ghash_nonce_len w; payload_off = ghash_payload_off w;
               ct_blocks = (ct_len + 15) div 16;
               tag_offset = payload_off + 5 + nonce_len + ct_len;
               pc = xp_patch_count (staged_pending w);
               pc = (if pc > of_nat XOR_MAX_PATCHES then of_nat XOR_MAX_PATCHES else pc);
               s3 = upd_work (\<lambda>w. w\<lparr>tag_delta := replicate 16 0, ghash_ct_blocks := ct_blocks\<rparr>) s2;
               s4 = bpf_loop (unat pc) ghash_patch_iter s3
           in tc_ghash_tag skb tag_offset s4)"

section \<open>The delta of one block\<close>

lemma bit_63: "bit (x :: u64) 63 \<longleftrightarrow> 2 ^ 63 \<le> unat x"
proof -
  have "bit x 63 \<longleftrightarrow> bit (unat x) 63" by (simp add: bit_unsigned_iff)
  also have "\<dots> \<longleftrightarrow> odd (unat x div 2 ^ 63)" by (simp add: bit_iff_odd)
  also have "\<dots> \<longleftrightarrow> 2 ^ 63 \<le> unat x"
  proof -
    have "unat x < 2 ^ 64" using unsigned_less [of x] by simp
    then have "unat x div 2 ^ 63 < 2" by (simp add: less_mult_imp_div_less)
    moreover have "unat x div 2 ^ 63 = 0 \<longleftrightarrow> unat x < 2 ^ 63" by (simp add: div_eq_0_iff)
    ultimately show ?thesis by auto
  qed
  finally show ?thesis .
qed

lemma drop_bit_63: "drop_bit 63 (x :: u64) = of_bool (bit x 63)"
proof (rule bit_word_eqI)
  fix n assume "n < LENGTH(64)"
  show "bit (drop_bit 63 x) n \<longleftrightarrow> bit (of_bool (bit x 63) :: u64) n"
    using bit_imp_le_length [of x "n + 63"]
    by (cases "n = 0") (auto simp: bit_drop_bit_eq bit_simps add.commute)
qed

text \<open>The arithmetic range check: position \<open>p\<close> is in the patch at \<open>o'\<close> of length \<open>l\<close>.\<close>

lemma range_check:
  assumes "p < 2 ^ 32" "o' < 2 ^ 32" "l < 2 ^ 32"
  shows "drop_bit 63 (NOT (of_nat p - of_nat o') AND ((of_nat p - of_nat o') - of_nat l) :: u64)
    = of_bool (o' \<le> p \<and> p < o' + l)"
proof -
  let ?d = "of_nat p - of_nat o' :: u64"
  have u: "unat (of_nat k - of_nat m :: u64) = (if m \<le> k then k - m else 2 ^ 64 + k - m)"
    if "k < 2 ^ 63" "m < 2 ^ 63" for k m
  proof (cases "m \<le> k")
    case True
    then have e: "of_nat k - of_nat m = (of_nat (k - m) :: u64)" by (simp add: of_nat_diff)
    show ?thesis unfolding e using True that by (simp add: unat_of_nat del: of_nat_diff)
  next
    case False
    have "(of_nat (2 ^ 64 + k - m) :: u64) = of_nat (2 ^ 64 + k) - of_nat m"
      using that by (intro of_nat_diff) simp
    also have "\<dots> = of_nat k - of_nat m" by simp
    finally have e: "of_nat k - of_nat m = (of_nat (2 ^ 64 + k - m) :: u64)" by simp
    show ?thesis unfolding e using False that by (simp add: unat_of_nat del: of_nat_diff)
  qed
  have a: "bit ?d 63 \<longleftrightarrow> p < o'"
    using assms u [of p o'] unfolding bit_63 by auto
  have b: "bit (?d - of_nat l) 63 \<longleftrightarrow> p < o' + l"
  proof -
    have e: "?d - of_nat l = of_nat p - of_nat (o' + l)" by simp
    have "unat (of_nat p - of_nat (o' + l) :: u64)
        = (if o' + l \<le> p then p - (o' + l) else 2 ^ 64 + p - (o' + l))"
      by (rule u) (use assms in auto)
    then show ?thesis using assms unfolding bit_63 e by auto
  qed
  show ?thesis
    unfolding drop_bit_63 using a b by (simp add: bit_and_iff bit_not_iff not_less)
qed

lemma ucast_u32_u64: "(ucast (x :: u32) :: u64) = of_nat (unat x)"
  by (rule word_unat_eq_iff [THEN iffD2]) (simp add: unat_of_nat unsigned_ucast_eq take_bit_eq_mod)

lemma and_mask_id: "unat (x :: 'a::len word) < 2 ^ n \<Longrightarrow> x AND mask n = x"
  unfolding take_bit_eq_mask [symmetric]
  by (simp add: word_unat_eq_iff unsigned_take_bit_eq take_bit_nat_eq_self)

lemma and_3FF: "unat (b :: u32) < 1024 \<Longrightarrow> b AND 0x3FF = b"
  using and_mask_id [of b 10] by (simp add: mask_eq_exp_minus_1)

lemma ghash_block_delta_nth:
  assumes "unat blk < 1024" "unat len \<le> 128" "length xd = 128" "i < 16"
  shows "ghash_block_delta xd blk sec_off len ! i
    = (if unat sec_off \<le> 16 * unat blk + i \<and> 16 * unat blk + i < unat sec_off + unat len
       then xd ! (16 * unat blk + i - unat sec_off) else 0)"
proof -
  let ?p = "16 * unat blk + i" and ?o = "unat sec_off" and ?l = "unat len"
  have m: "blk AND 0x3FF = blk" by (rule and_3FF [OF assms(1)])
  have d: "(ucast (blk AND 0x3FF) * 16 - ucast sec_off) + of_nat i = (of_nat ?p - of_nat ?o :: u64)"
    unfolding m ucast_u32_u64 by simp
  have b: "?p < 2 ^ 32" "?o < 2 ^ 32" "?l < 2 ^ 32"
    using assms(1,2,4) unsigned_less [of sec_off] by simp_all
  show ?thesis
  proof (cases "?o \<le> ?p \<and> ?p < ?o + ?l")
    case True
    have e: "of_nat ?p - of_nat ?o = (of_nat (?p - ?o) :: u64)" using True by (simp add: of_nat_diff)
    have x: "unat ((of_nat ?p - of_nat ?o :: u64) AND (of_nat SECRET_MAX_LEN - 1)) = ?p - ?o"
    proof -
      have s: "?p - ?o < 128" using True assms(2) by linarith
      then have "unat (of_nat (?p - ?o) :: u64) = ?p - ?o" by (simp add: unat_of_nat del: of_nat_diff)
      with s show ?thesis unfolding e using and_mask_id [of "of_nat (?p - ?o) :: u64" 7]
        by (simp add: SECRET_MAX_LEN_def mask_eq_exp_minus_1 del: of_nat_diff)
    qed
    show ?thesis
      using assms(4) True unfolding ghash_block_delta_def Let_def
      by (simp only: nth_map_upt diff_zero add_0 d) (simp only: ucast_u32_u64 x range_check [OF b], simp)
  next
    case False
    then show ?thesis
      using assms(4) unfolding ghash_block_delta_def Let_def
      by (simp only: nth_map_upt diff_zero add_0 d) (simp only: ucast_u32_u64 range_check [OF b], simp)
  qed
qed

lemma length_ghash_block_delta [simp]: "length (ghash_block_delta xd b o' l) = 16"
  by (simp add: ghash_block_delta_def Let_def)

text \<open>The code's block of a patch is that block of the whole delta.\<close>

lemma ghash_block_delta_spec:
  assumes "unat blk < 1024" "unat len \<le> 128" "length xd = 128" "unat sec_off + unat len \<le> n"
  shows "ghash_block_delta xd blk sec_off len
    = block (delta_at n (unat sec_off) (take (unat len) xd)) (unat blk)"
proof (rule nth_equalityI)
  fix i assume "i < length (ghash_block_delta xd blk sec_off len)"
  then have i: "i < 16" by simp
  show "ghash_block_delta xd blk sec_off len ! i
      = block (delta_at n (unat sec_off) (take (unat len) xd)) (unat blk) ! i"
    using assms i unfolding ghash_block_delta_nth [OF assms(1-3) i]
    by (auto simp: block_def nth_delta_at)
qed simp

section \<open>What the callbacks leave alone\<close>

text \<open>The state without the buffers the arithmetic callbacks use.\<close>

definition ghash_frame :: "'a ghash_cpu_scheme \<Rightarrow> 'a ghash_cpu_scheme" where
  "ghash_frame s = upd_work (\<lambda>w. w\<lparr>tag_delta := [], block_delta := [], h_pow := [], mul_a := [],
     mul_v := [], mul_z := [], ghash_h_power_val := 0\<rparr>) s"

lemma upd_work_sel [simp]:
  "ghash_scratch (upd_work f s) = f (ghash_scratch s)"
  "h_power_entries (upd_work f s) = h_power_entries s"
  "tls_conn_state (upd_work f s) = tls_conn_state s"
  "debug_counters (upd_work f s) = debug_counters s"
  "ghash_cpu.more (upd_work f s) = ghash_cpu.more s"
  by (simp_all add: upd_work_def)

lemma ghash_frame_entries: "ghash_frame (s\<lparr>h_power_entries := es\<rparr>) = (ghash_frame s)\<lparr>h_power_entries := es\<rparr>"
  by (cases s) (simp add: ghash_frame_def upd_work_def)

lemma ghash_frameD:
  assumes "ghash_frame s = ghash_frame t"
  shows "h_power_entries s = h_power_entries t" "tls_conn_state s = tls_conn_state t"
    "staged_pending (ghash_scratch s) = staged_pending (ghash_scratch t)"
    "ghash_ct_blocks (ghash_scratch s) = ghash_ct_blocks (ghash_scratch t)"
    "ghash_first_block (ghash_scratch s) = ghash_first_block (ghash_scratch t)"
    "ghash_xor_delta (ghash_scratch s) = ghash_xor_delta (ghash_scratch t)"
    "ghash_secret_offset (ghash_scratch s) = ghash_secret_offset (ghash_scratch t)"
    "ghash_patch_len (ghash_scratch s) = ghash_patch_len (ghash_scratch t)"
  using arg_cong [OF assms, of h_power_entries] arg_cong [OF assms, of tls_conn_state]
    arg_cong [OF assms, of "\<lambda>s. staged_pending (ghash_scratch s)"]
    arg_cong [OF assms, of "\<lambda>s. ghash_ct_blocks (ghash_scratch s)"]
    arg_cong [OF assms, of "\<lambda>s. ghash_first_block (ghash_scratch s)"]
    arg_cong [OF assms, of "\<lambda>s. ghash_xor_delta (ghash_scratch s)"]
    arg_cong [OF assms, of "\<lambda>s. ghash_secret_offset (ghash_scratch s)"]
    arg_cong [OF assms, of "\<lambda>s. ghash_patch_len (ghash_scratch s)"]
  by (simp_all add: ghash_frame_def)

section \<open>The multiplication\<close>

text \<open>128 rounds of the callback are \<open>gf128_mul\<close> of the two operands.\<close>

lemma gf128_mul_loop_eq:
  obtains v' where "gf128_mul_loop a v s = upd_work (\<lambda>w. w\<lparr>mul_a := a, mul_v := v', mul_z := gf128_mul a v\<rparr>) s"
proof -
  let ?r = "\<lambda>j. fold (\<lambda>i (v, z). gf128_mul_step a v z i) [0..<j] (v, replicate 16 0)"
  have "gf128_mul_loop a v s = upd_work (\<lambda>w. w\<lparr>mul_a := a, mul_v := fst (?r 128), mul_z := snd (?r 128)\<rparr>) s"
    unfolding gf128_mul_loop_def
    by (rule bpf_loop_invariant [where P = "\<lambda>j t. t = upd_work (\<lambda>w. w\<lparr>mul_a := a, mul_v := fst (?r j), mul_z := snd (?r j)\<rparr>) s"])
      (simp_all add: upd_work_def BPF_MAX_LOOPS_def gf128_mul_iter_def Let_def case_prod_beta)
  then show ?thesis using that unfolding gf128_mul_def by blast
qed

lemma gf128_mul_loop_spec:
  shows "ghash_frame (gf128_mul_loop a v s) = ghash_frame s"
    and "mul_z (ghash_scratch (gf128_mul_loop a v s)) = gf128_mul a v"
    and "tag_delta (ghash_scratch (gf128_mul_loop a v s)) = tag_delta (ghash_scratch s)"
    and "block_delta (ghash_scratch (gf128_mul_loop a v s)) = block_delta (ghash_scratch s)"
    and "h_pow (ghash_scratch (gf128_mul_loop a v s)) = h_pow (ghash_scratch s)"
    and "ghash_h_power_val (ghash_scratch (gf128_mul_loop a v s)) = ghash_h_power_val (ghash_scratch s)"
    and "h_power_entries (gf128_mul_loop a v s) = h_power_entries s"
    and "tls_conn_state (gf128_mul_loop a v s) = tls_conn_state s"
  by (rule gf128_mul_loop_eq [of a v s]; simp add: ghash_frame_def upd_work_def)+

section \<open>The powers of H\<close>

text \<open>The entries hold the powers H^(2^i).\<close>

definition powers_ok :: "gf128 \<Rightarrow> bytes list \<Rightarrow> bool" where
  "powers_ok h es \<longleftrightarrow> length es = 16 \<and> (\<forall>i < 11. length (es ! i) = 16 \<and> gf_of (es ! i) = h ^ (2 ^ i))"

lemma copy_h_powers:
  assumes "tls_conn_state s \<lparr>ck_tgid = ghash_tgid (ghash_scratch s), ck_ssl_ptr = ghash_ssl_ptr (ghash_scratch s)\<rparr> = Some conn"
    and "length (cs_ghash_h conn) = 16" "length (h_power_entries s) = 16"
  shows "powers_ok (gf_of (cs_ghash_h conn)) (h_power_entries (bpf_loop 11 copy_h_power_step s))"
    and "\<exists>es. ghash_frame (bpf_loop 11 copy_h_power_step s) = ghash_frame (s\<lparr>h_power_entries := es\<rparr>)"
proof -
  let ?h = "gf_of (cs_ghash_h conn)"
  let ?P = "\<lambda>j t. length (h_power_entries t) = 16
      \<and> (\<forall>i < j. length (h_power_entries t ! i) = 16 \<and> gf_of (h_power_entries t ! i) = ?h ^ (2 ^ i))
      \<and> (\<exists>es. ghash_frame t = ghash_frame (s\<lparr>h_power_entries := es\<rparr>))"
  have "?P 11 (bpf_loop 11 copy_h_power_step s)"
  proof (rule bpf_loop_invariant [where P = ?P])
    show "?P 0 s" using assms(3) by (auto intro: exI [of _ "h_power_entries s"])
    show "11 \<le> BPF_MAX_LOOPS" by (simp add: BPF_MAX_LOOPS_def)
    fix j and t :: "'a ghash_cpu_scheme"
    assume P: "?P j t" and j: "j < 11"
    then obtain es where f: "ghash_frame t = ghash_frame (s\<lparr>h_power_entries := es\<rparr>)" by blast
    have k: "tls_conn_state t \<lparr>ck_tgid = ghash_tgid (ghash_scratch t), ck_ssl_ptr = ghash_ssl_ptr (ghash_scratch t)\<rparr> = Some conn"
      using assms(1) ghash_frameD(2) [OF f] arg_cong [OF f, of "\<lambda>s. ghash_tgid (ghash_scratch s)"]
        arg_cong [OF f, of "\<lambda>s. ghash_ssl_ptr (ghash_scratch s)"]
      by (simp add: ghash_frame_def)
    show "fst (copy_h_power_step j t) = False \<and> ?P (Suc j) (snd (copy_h_power_step j t))"
    proof (cases j)
      case 0
      have "ghash_frame (t\<lparr>h_power_entries := (h_power_entries t)[0 := cs_ghash_h conn]\<rparr>)
          = ghash_frame (s\<lparr>h_power_entries := (h_power_entries t)[0 := cs_ghash_h conn]\<rparr>)"
        by (simp add: f ghash_frame_entries)
      then show ?thesis using P k 0 assms(2) by (auto simp: copy_h_power_step_def)
    next
      case (Suc m)
      let ?e = "h_power_entries t ! m"
      let ?t1 = "gf128_mul_loop ?e ?e t"
      let ?es = "(h_power_entries t)[j := gf128_mul ?e ?e]"
      have e: "length ?e = 16" "gf_of ?e = ?h ^ (2 ^ m)" using P Suc by auto
      have m: "length (gf128_mul ?e ?e) = 16" "gf_of (gf128_mul ?e ?e) = ?h ^ (2 ^ j)"
        using gf128_mul_spec [OF e(1) e(1)] e(2) Suc
        by (simp_all add: power_mult power2_eq_square power_mult_distrib)
      have st: "copy_h_power_step j t = (False, ?t1\<lparr>h_power_entries := ?es\<rparr>)"
        using k j Suc by (simp add: copy_h_power_step_def Let_def gf128_mul_loop_spec)
      have "ghash_frame (?t1\<lparr>h_power_entries := ?es\<rparr>) = ghash_frame (s\<lparr>h_power_entries := ?es\<rparr>)"
        by (simp add: f ghash_frame_entries gf128_mul_loop_spec)
      moreover have "length (?es ! i) = 16 \<and> gf_of (?es ! i) = ?h ^ (2 ^ i)" if "i < Suc j" for i
        using P m that j by (cases "i = j") auto
      ultimately show ?thesis using P st by auto
    qed
  qed
  then show "powers_ok ?h (h_power_entries (bpf_loop 11 copy_h_power_step s))"
    and "\<exists>es. ghash_frame (bpf_loop 11 copy_h_power_step s) = ghash_frame (s\<lparr>h_power_entries := es\<rparr>)"
    by (auto simp: powers_ok_def)
qed

text \<open>Square and multiply over the entries.\<close>

lemma h_power_loop:
  assumes "powers_ok h (h_power_entries s)" "h_pow (ghash_scratch s) = (replicate 16 0)[0 := 0x80]"
    and "unat (ghash_h_power_val (ghash_scratch s)) < 2048"
  defines "t \<equiv> bpf_loop 11 h_power_step s"
  shows "length (h_pow (ghash_scratch t)) = 16
    \<and> gf_of (h_pow (ghash_scratch t)) = h ^ unat (ghash_h_power_val (ghash_scratch s))
    \<and> ghash_frame t = ghash_frame s \<and> tag_delta (ghash_scratch t) = tag_delta (ghash_scratch s)
    \<and> block_delta (ghash_scratch t) = block_delta (ghash_scratch s)"
proof -
  let ?pw = "ghash_h_power_val (ghash_scratch s)"
  let ?P = "\<lambda>j t. length (h_pow (ghash_scratch t)) = 16
    \<and> gf_of (h_pow (ghash_scratch t)) = h ^ unat (take_bit j ?pw)
    \<and> ghash_h_power_val (ghash_scratch t) = ?pw \<and> ghash_frame t = ghash_frame s
    \<and> tag_delta (ghash_scratch t) = tag_delta (ghash_scratch s)
    \<and> block_delta (ghash_scratch t) = block_delta (ghash_scratch s)"
  have "?P 11 t"
    unfolding t_def
  proof (rule bpf_loop_invariant [where P = ?P])
    show "?P 0 s" using assms(2) gf_of_identity by (simp add: gf128_identity_def)
    show "11 \<le> BPF_MAX_LOOPS" by (simp add: BPF_MAX_LOOPS_def)
    fix j and t :: "'a ghash_cpu_scheme"
    assume P: "?P j t" and j: "j < 11"
    let ?e = "h_power_entries t ! j"
    have e: "length ?e = 16" "gf_of ?e = h ^ (2 ^ j)"
      using P assms(1) j ghash_frameD(1) [of t s] by (auto simp: powers_ok_def)
    have b: "unat (take_bit (Suc j) ?pw) = unat (take_bit j ?pw) + (if bit ?pw j then 2 ^ j else 0)"
      by (simp add: unsigned_take_bit_eq take_bit_Suc_from_most bit_unsigned_iff)
    show "fst (h_power_step j t) = False \<and> ?P (Suc j) (snd (h_power_step j t))"
    proof (cases "bit ?pw j")
      case True
      let ?t1 = "gf128_mul_loop (h_pow (ghash_scratch t)) ?e t"
      have "h_power_step j t = (False, upd_work (\<lambda>w. w\<lparr>h_pow := mul_z w\<rparr>) ?t1)"
        using P j True and_push_bit_1 [of ?pw j] by (auto simp: h_power_step_def Let_def)
      moreover have "ghash_frame (upd_work (\<lambda>w. w\<lparr>h_pow := mul_z w\<rparr>) ?t1) = ghash_frame ?t1"
        by (simp add: ghash_frame_def upd_work_def)
      ultimately show ?thesis
        using P e b True by (simp add: gf128_mul_loop_spec gf128_mul_spec power_add)
    next
      case False
      then have "h_power_step j t = (False, t)"
        using P j and_push_bit_1 [of ?pw j] by (auto simp: h_power_step_def Let_def)
      then show ?thesis using P b False by simp
    qed
  qed
  moreover have "unat (take_bit 11 ?pw) = unat ?pw"
    using assms(3) by (simp add: unsigned_take_bit_eq take_bit_nat_eq_self)
  ultimately show ?thesis by simp
qed

section \<open>The contribution of one block\<close>

lemma ghash_block_iter_spec:
  assumes P: "powers_ok h (h_power_entries s)"
    and w: "w = ghash_scratch s" and b: "b = ghash_first_block w + of_nat idx" and d: "length (ghash_xor_delta w) = 128"
    and lt: "b < ghash_ct_blocks w" and n: "unat (ghash_ct_blocks w) = (n + 15) div 16" "n \<le> 18432"
    and l: "unat (ghash_patch_len w) \<le> 128" "unat (ghash_secret_offset w) + unat (ghash_patch_len w) \<le> n"
    and m: "unat b < 1024" and td: "length (tag_delta w) = 16"
  defines "D \<equiv> delta_at n (unat (ghash_secret_offset w)) (take (unat (ghash_patch_len w)) (ghash_xor_delta w))"
  shows "\<exists>t. ghash_block_iter idx s = (False, t) \<and> ghash_frame t = ghash_frame s
    \<and> length (tag_delta (ghash_scratch t)) = 16
    \<and> gf_of (tag_delta (ghash_scratch t))
        = gf_of (tag_delta w) + gf_of (block D (unat b)) * h ^ (n_blocks D - unat b + 1)"
proof -
  let ?bd = "ghash_block_delta (ghash_xor_delta w) b (ghash_secret_offset w) (ghash_patch_len w)"
  let ?pw = "ghash_ct_blocks w - b + 1"
  let ?s2 = "upd_work (\<lambda>w. w\<lparr>ghash_h_power_val := ?pw, h_pow := (replicate 16 0)[0 := 0x80]\<rparr>)
      (upd_work (\<lambda>w. w\<lparr>block_delta := ?bd\<rparr>) s)"
  let ?s3 = "bpf_loop 11 h_power_step ?s2"
  let ?s4 = "gf128_mul_loop (block_delta (ghash_scratch ?s3)) (h_pow (ghash_scratch ?s3)) ?s3"
  let ?t = "upd_work (\<lambda>w. w\<lparr>tag_delta := xor_bytes (tag_delta w) (mul_z w)\<rparr>) ?s4"
  have nb: "n_blocks D = unat (ghash_ct_blocks w)"
    using l d n by (simp add: D_def n_blocks_def)
  have c: "unat (ghash_ct_blocks w) \<le> 1152" using n by simp
  have "unat (ghash_ct_blocks w - b) = unat (ghash_ct_blocks w) - unat b"
    using lt by (intro unat_minus_noof) simp
  moreover have "unat (ghash_ct_blocks w - b) + unat (1 :: u32) < 2 ^ LENGTH(32)"
    using c calculation by simp
  ultimately have pw: "unat ?pw = unat (ghash_ct_blocks w) - unat b + 1"
    using unat_plus_noof [of "ghash_ct_blocks w - b" 1] by simp
  define hpw where "hpw = h_pow (ghash_scratch ?s3)"
  have hp: "length hpw = 16" "gf_of hpw = h ^ unat ?pw" "ghash_frame ?s3 = ghash_frame s"
      "tag_delta (ghash_scratch ?s3) = tag_delta w" "block_delta (ghash_scratch ?s3) = ?bd"
    using h_power_loop [of h ?s2] P pw c w by (simp_all add: hpw_def ghash_frame_def upd_work_def)
  have bd: "?bd = block D (unat b)"
    unfolding D_def by (rule ghash_block_delta_spec) (use m l d in auto)
  have i: "ghash_block_iter idx s = (False, ?t)"
    using iffD2 [OF not_le lt] unfolding w b ghash_block_iter_def Let_def by simp
  have "ghash_frame ?t = ghash_frame ?s4" by (simp add: ghash_frame_def upd_work_def)
  then have f: "ghash_frame ?t = ghash_frame s"
    by (simp add: gf128_mul_loop_spec hp)
  have ta: "tag_delta (ghash_scratch ?t) = xor_bytes (tag_delta w) (gf128_mul ?bd hpw)"
    by (simp add: gf128_mul_loop_spec hp hpw_def)
  have "length (tag_delta (ghash_scratch ?t)) = 16"
    unfolding ta using td hp(1) by (simp add: gf128_mul_spec)
  moreover have "gf_of (tag_delta (ghash_scratch ?t))
      = gf_of (tag_delta w) + gf_of (block D (unat b)) * h ^ (n_blocks D - unat b + 1)"
    unfolding ta using td hp(1) by (simp add: gf_of_xor gf128_mul_spec hp(2) pw nb bd)
  ultimately show ?thesis using i f by blast
qed

text \<open>The blocks \<open>first\<close> to \<open>first + k - 1\<close>.\<close>

lemma ghash_block_loop:
  assumes P: "powers_ok h (h_power_entries s)"
    and w: "w = ghash_scratch s" and d: "length (ghash_xor_delta w) = 128"
    and n: "unat (ghash_ct_blocks w) = (n + 15) div 16" "n \<le> 18432"
    and l: "unat (ghash_patch_len w) \<le> 128" "unat (ghash_secret_offset w) + unat (ghash_patch_len w) \<le> n"
    and m: "unat (ghash_first_block w) + k \<le> 1024" "unat (ghash_first_block w) + k \<le> unat (ghash_ct_blocks w)"
    and td: "length (tag_delta w) = 16"
  defines "D \<equiv> delta_at n (unat (ghash_secret_offset w)) (take (unat (ghash_patch_len w)) (ghash_xor_delta w))"
    and "f \<equiv> unat (ghash_first_block w)"
  defines "t \<equiv> bpf_loop k ghash_block_iter s"
  shows "ghash_frame t = ghash_frame s \<and> length (tag_delta (ghash_scratch t)) = 16
    \<and> gf_of (tag_delta (ghash_scratch t))
        = gf_of (tag_delta w) + (\<Sum>b = f..<f + k. gf_of (block D b) * h ^ (n_blocks D - b + 1))"
proof -
  let ?P = "\<lambda>j t. ghash_frame t = ghash_frame s \<and> length (tag_delta (ghash_scratch t)) = 16
    \<and> gf_of (tag_delta (ghash_scratch t))
        = gf_of (tag_delta w) + (\<Sum>b = f..<f + j. gf_of (block D b) * h ^ (n_blocks D - b + 1))"
  show ?thesis
    unfolding t_def
  proof (rule bpf_loop_invariant [where P = ?P])
    show "?P 0 s" using td w by simp
    show "k \<le> BPF_MAX_LOOPS" using m(1) by (simp add: BPF_MAX_LOOPS_def)
    fix j and t :: "'a ghash_cpu_scheme"
    assume P': "?P j t" and j: "j < k"
    let ?w = "ghash_scratch t"
    have fr: "h_power_entries t = h_power_entries s" "ghash_ct_blocks ?w = ghash_ct_blocks w"
        "ghash_first_block ?w = ghash_first_block w" "ghash_xor_delta ?w = ghash_xor_delta w"
        "ghash_secret_offset ?w = ghash_secret_offset w" "ghash_patch_len ?w = ghash_patch_len w"
      using ghash_frameD [of t s] P' w by simp_all
    have ub: "unat (ghash_first_block ?w + of_nat j) = f + j"
      using unat_plus_noof [of "ghash_first_block ?w" "of_nat j"] j m(1) fr(3) by (simp add: f_def)
    have lt: "ghash_first_block ?w + of_nat j < ghash_ct_blocks ?w"
      unfolding word_less_nat_alt ub using j m(2) fr(2) by (simp add: f_def)
    obtain t' where t': "ghash_block_iter j t = (False, t')" "ghash_frame t' = ghash_frame t"
        "length (tag_delta (ghash_scratch t')) = 16"
        "gf_of (tag_delta (ghash_scratch t'))
          = gf_of (tag_delta ?w) + gf_of (block D (f + j)) * h ^ (n_blocks D - (f + j) + 1)"
      using ghash_block_iter_spec [of h t ?w "ghash_first_block ?w + of_nat j" j n] P fr d n l lt ub P' m(1) j
      unfolding D_def f_def by auto
    show "fst (ghash_block_iter j t) = False \<and> ?P (Suc j) (snd (ghash_block_iter j t))"
      using t' P' by simp
  qed
qed

section \<open>One patch, and all of them\<close>

text \<open>The delta a staged patch stands for, in a ciphertext of \<open>n\<close> bytes.\<close>

definition patch_len :: "xor_patch \<Rightarrow> nat" where
  "patch_len p = unat (clamp_write_len (secret_len p))"

definition patch_delta :: "nat \<Rightarrow> xor_patch \<Rightarrow> bytes" where
  "patch_delta n p = (if secret_len p = 0 then replicate n 0
     else delta_at n (unat (secret_offset p)) (take (patch_len p) (xor_delta p)))"

definition patch_fits :: "nat \<Rightarrow> xor_patch \<Rightarrow> bool" where
  "patch_fits n p \<longleftrightarrow> length (xor_delta p) = 128
     \<and> (secret_len p \<noteq> 0 \<longrightarrow> unat (secret_offset p) + patch_len p \<le> min n 16384)"

definition patch_frame :: "'a ghash_cpu_scheme \<Rightarrow> 'a ghash_cpu_scheme" where
  "patch_frame s = upd_work (\<lambda>w. w\<lparr>ghash_secret_offset := 0, ghash_patch_len := 0,
     ghash_xor_delta := [], ghash_first_block := 0\<rparr>) (ghash_frame s)"

lemma delta_sum_zero: "delta_sum gf_of h (replicate n 0) = 0"
proof -
  have "block (replicate n 0) b = replicate 16 0" for b
    by (rule nth_equalityI) (auto simp: block_def)
  then show ?thesis by (simp add: delta_sum_def gf_of_zero)
qed

lemma ghash_patch_iter_spec:
  assumes P: "powers_ok h (h_power_entries s)"
    and n: "unat (ghash_ct_blocks (ghash_scratch s)) = (n + 15) div 16" "n \<le> 18432"
    and p: "p < 4" "patch_fits n (xp_patches (staged_pending (ghash_scratch s)) ! p)"
    and td: "length (tag_delta (ghash_scratch s)) = 16"
  defines "D \<equiv> patch_delta n (xp_patches (staged_pending (ghash_scratch s)) ! p)"
  shows "\<exists>t. ghash_patch_iter p s = (False, t) \<and> patch_frame t = patch_frame s
    \<and> length (tag_delta (ghash_scratch t)) = 16
    \<and> gf_of (tag_delta (ghash_scratch t)) = gf_of (tag_delta (ghash_scratch s)) + delta_sum gf_of h D"
proof -
  let ?q = "xp_patches (staged_pending (ghash_scratch s)) ! p"
  have pm: "p mod XOR_MAX_PATCHES = p" using p(1) by (simp add: XOR_MAX_PATCHES_def)
  show ?thesis
  proof (cases "secret_len ?q = 0")
    case True
    then show ?thesis
      using pm td by (simp add: ghash_patch_iter_def Let_def D_def patch_delta_def delta_sum_zero)
  next
    case False
    let ?o = "secret_offset ?q" and ?l = "clamp_write_len (secret_len ?q)"
    let ?s1 = "upd_work (\<lambda>w. w\<lparr>ghash_secret_offset := ?o, ghash_patch_len := ?l,
        ghash_xor_delta := xor_delta ?q, ghash_first_block := ?o div 16\<rparr>) s"
    have l: "1 \<le> unat ?l" "unat ?l \<le> 128" using clamp_write_len_bounds by auto
    have f: "unat ?o + unat ?l \<le> n" "unat ?o + unat ?l \<le> 16384" "length (xor_delta ?q) = 128"
      using p(2) False by (auto simp: patch_fits_def patch_len_def)
    have ol: "unat (?o + ?l) = unat ?o + unat ?l" using f(2) by (intro unat_plus_noof) simp
    then have "1 \<le> ?o + ?l" using l(1) by (simp add: word_le_nat_alt)
    then have ol1: "unat (?o + ?l - 1) = unat ?o + unat ?l - 1" using ol by (simp add: unat_minus_noof)
    let ?f = "unat ?o div 16" and ?g = "(unat ?o + unat ?l - 1) div 16"
    have d16: "unat ((x :: u32) div 16) = unat x div 16" for x by (simp add: unat_div_distrib)
    have fg: "?f \<le> ?g" "?g \<le> ?f + 8" "?g < 1024" "?g < (n + 15) div 16"
      using l f by (auto intro!: div_le_mono)
    have "?o div 16 \<le> (?o + ?l - 1) div 16" using fg(1) by (simp add: word_le_nat_alt d16 ol1)
    then have nn: "unat ((?o + ?l - 1) div 16 - ?o div 16) = ?g - ?f"
      by (simp add: unat_minus_noof d16 ol1)
    have "?g - ?f + unat (1 :: u32) < 2 ^ LENGTH(32)" using fg(2) by simp
    then have k1: "unat ((?o + ?l - 1) div 16 - ?o div 16 + 1) = ?g - ?f + 1"
      using unat_plus_noof [of "(?o + ?l - 1) div 16 - ?o div 16" 1] nn by simp
    have "?g - ?f + 1 \<le> 9" using fg(2) by linarith
    then have k9: "\<not> (?o + ?l - 1) div 16 - ?o div 16 + 1 > 9"
      unfolding not_less word_le_nat_alt k1 by simp
    define k where "k = ?g - ?f + 1"
    have k: "?f + k \<le> 1024" "?f + k \<le> (n + 15) div 16"
      unfolding k_def using fg by linarith+
    have iv: "{?f..<?f + k} = {?f..?g}" unfolding k_def using fg(1) by auto
    let ?t = "bpf_loop k ghash_block_iter ?s1"
    have i: "ghash_patch_iter p s = (False, ?t)"
      using False k9 pm unfolding ghash_patch_iter_def Let_def k_def k1 [symmetric] by simp
    let ?D = "delta_at n (unat ?o) (take (unat ?l) (xor_delta ?q))"
    have D: "D = ?D" using False by (simp add: D_def patch_delta_def patch_len_def)
    define w1 where "w1 = ghash_scratch ?s1"
    have w1: "ghash_xor_delta w1 = xor_delta ?q" "ghash_ct_blocks w1 = ghash_ct_blocks (ghash_scratch s)"
      "ghash_patch_len w1 = ?l" "ghash_secret_offset w1 = ?o" "unat (ghash_first_block w1) = ?f"
      "tag_delta w1 = tag_delta (ghash_scratch s)" "h_power_entries ?s1 = h_power_entries s"
      by (simp_all add: w1_def d16)
    have r: "ghash_frame ?t = ghash_frame ?s1 \<and> length (tag_delta (ghash_scratch ?t)) = 16
      \<and> gf_of (tag_delta (ghash_scratch ?t)) = gf_of (tag_delta (ghash_scratch s))
        + (\<Sum>b = ?f..<?f + k. gf_of (block ?D b) * h ^ (n_blocks ?D - b + 1))"
      using ghash_block_loop [OF _ w1_def, of h n k] unfolding w1
      using P f(1,3) n l(2) k(1) k(2) [folded n(1)] td by simp
    have lt: "length (take (unat ?l) (xor_delta ?q)) = unat ?l" "take (unat ?l) (xor_delta ?q) \<noteq> []"
      using l f(3) by auto
    have "delta_sum gf_of h D = (\<Sum>b = ?f..?g. gf_of (block ?D b) * h ^ (n_blocks ?D - b + 1))"
      unfolding D using gf.delta_sum_touched [of "unat ?o" "take (unat ?l) (xor_delta ?q)" n h] lt f(1)
      by simp
    moreover have "patch_frame ?t = patch_frame s"
      unfolding patch_frame_def conjunct1 [OF r] by (simp add: ghash_frame_def upd_work_def)
    ultimately show ?thesis using i r unfolding iv by auto
  qed
qed

lemma patch_frameD:
  assumes "patch_frame s = patch_frame t"
  shows "h_power_entries s = h_power_entries t" "ghash_cpu.more s = ghash_cpu.more t"
    "debug_counters s = debug_counters t" "tls_conn_state s = tls_conn_state t"
    "staged_pending (ghash_scratch s) = staged_pending (ghash_scratch t)"
    "staged_tc (ghash_scratch s) = staged_tc (ghash_scratch t)"
    "ghash_active (ghash_scratch s) = ghash_active (ghash_scratch t)"
    "ghash_ct_blocks (ghash_scratch s) = ghash_ct_blocks (ghash_scratch t)"
    "ghash_ct_len (ghash_scratch s) = ghash_ct_len (ghash_scratch t)"
    "ghash_nonce_len (ghash_scratch s) = ghash_nonce_len (ghash_scratch t)"
    "ghash_pkt_seq (ghash_scratch s) = ghash_pkt_seq (ghash_scratch t)"
    "ghash_record_tcp_off (ghash_scratch s) = ghash_record_tcp_off (ghash_scratch t)"
    "ghash_conn_key (ghash_scratch s) = ghash_conn_key (ghash_scratch t)"
    "ghash_payload_off (ghash_scratch s) = ghash_payload_off (ghash_scratch t)"
  using arg_cong [OF assms, of h_power_entries] arg_cong [OF assms, of ghash_cpu.more]
    arg_cong [OF assms, of debug_counters] arg_cong [OF assms, of tls_conn_state]
    arg_cong [OF assms, of "\<lambda>s. staged_pending (ghash_scratch s)"]
    arg_cong [OF assms, of "\<lambda>s. staged_tc (ghash_scratch s)"]
    arg_cong [OF assms, of "\<lambda>s. ghash_active (ghash_scratch s)"]
    arg_cong [OF assms, of "\<lambda>s. ghash_ct_blocks (ghash_scratch s)"]
    arg_cong [OF assms, of "\<lambda>s. ghash_ct_len (ghash_scratch s)"]
    arg_cong [OF assms, of "\<lambda>s. ghash_nonce_len (ghash_scratch s)"]
    arg_cong [OF assms, of "\<lambda>s. ghash_pkt_seq (ghash_scratch s)"]
    arg_cong [OF assms, of "\<lambda>s. ghash_record_tcp_off (ghash_scratch s)"]
    arg_cong [OF assms, of "\<lambda>s. ghash_conn_key (ghash_scratch s)"]
    arg_cong [OF assms, of "\<lambda>s. ghash_payload_off (ghash_scratch s)"]
  by (simp_all add: patch_frame_def ghash_frame_def)

lemma ghash_patch_loop:
  assumes P: "powers_ok h (h_power_entries s)"
    and n: "unat (ghash_ct_blocks (ghash_scratch s)) = (n + 15) div 16" "n \<le> 18432"
    and ps: "ps = xp_patches (staged_pending (ghash_scratch s))"
    and k: "k \<le> 4" "\<forall>p < k. patch_fits n (ps ! p)"
    and td: "length (tag_delta (ghash_scratch s)) = 16"
  defines "t \<equiv> bpf_loop k ghash_patch_iter s"
  shows "patch_frame t = patch_frame s \<and> length (tag_delta (ghash_scratch t)) = 16
    \<and> gf_of (tag_delta (ghash_scratch t))
        = gf_of (tag_delta (ghash_scratch s)) + (\<Sum>p<k. delta_sum gf_of h (patch_delta n (ps ! p)))"
proof -
  let ?P = "\<lambda>j t. patch_frame t = patch_frame s \<and> length (tag_delta (ghash_scratch t)) = 16
    \<and> gf_of (tag_delta (ghash_scratch t))
        = gf_of (tag_delta (ghash_scratch s)) + (\<Sum>p<j. delta_sum gf_of h (patch_delta n (ps ! p)))"
  show ?thesis
    unfolding t_def
  proof (rule bpf_loop_invariant [where P = ?P])
    show "?P 0 s" using td by simp
    show "k \<le> BPF_MAX_LOOPS" using k(1) by (simp add: BPF_MAX_LOOPS_def)
    fix j and t :: "'a ghash_cpu_scheme"
    assume P': "?P j t" and j: "j < k"
    note f = patch_frameD [OF conjunct1 [OF P']]
    obtain t' where "ghash_patch_iter j t = (False, t')" "patch_frame t' = patch_frame t"
        "length (tag_delta (ghash_scratch t')) = 16"
        "gf_of (tag_delta (ghash_scratch t')) = gf_of (tag_delta (ghash_scratch t))
          + delta_sum gf_of h (patch_delta n (ps ! j))"
      using ghash_patch_iter_spec [of h t n j] P n k j P' unfolding f ps by auto
    then show "fst (ghash_patch_iter j t) = False \<and> ?P (Suc j) (snd (ghash_patch_iter j t))"
      using P' by simp
  qed
qed

section \<open>Patches on the ciphertext\<close>

definition apply_patch :: "xor_patch \<Rightarrow> bytes \<Rightarrow> bytes" where
  "apply_patch p ct = (if secret_len p = 0 then ct
     else xor_at (unat (secret_offset p)) (take (patch_len p) (xor_delta p)) ct)"

definition apply_patches :: "xor_patch list \<Rightarrow> bytes \<Rightarrow> bytes" where
  "apply_patches ps ct = fold apply_patch ps ct"

text \<open>
  \<open>valid_tag h aad lens ek ct tag\<close>: \<open>tag\<close> authenticates the ciphertext \<open>ct\<close> under the hash key
  \<open>h\<close> and the encrypted nonce block \<open>ek\<close>, for the associated data and the length block given.
\<close>

definition valid_tag :: "gf128 \<Rightarrow> bytes \<Rightarrow> bytes \<Rightarrow> gf128 \<Rightarrow> bytes \<Rightarrow> bytes \<Rightarrow> bool" where
  "valid_tag h aad lens ek ct tag \<longleftrightarrow> length tag = 16 \<and> gf_of tag = tag_hash gf_of h aad ct lens + ek"

lemma patch_len_bounds: "1 \<le> patch_len p \<and> patch_len p \<le> 128"
  unfolding patch_len_def by (rule clamp_write_len_bounds)

lemma apply_patch_delta:
  assumes "patch_fits (length ct) p"
  shows "apply_patch p ct = xor_bytes ct (patch_delta (length ct) p)"
    and "length (patch_delta (length ct) p) = length ct"
proof -
  have "xor_bytes ct (replicate (length ct) 0) = ct"
    by (rule nth_equalityI) auto
  then show "apply_patch p ct = xor_bytes ct (patch_delta (length ct) p)"
    using assms patch_len_bounds [of p]
    by (auto simp: apply_patch_def patch_delta_def patch_fits_def xor_at_delta)
  show "length (patch_delta (length ct) p) = length ct"
    using assms patch_len_bounds [of p] by (auto simp: patch_delta_def patch_fits_def)
qed

lemma apply_patches_tag_hash:
  assumes "\<forall>p \<in> set ps. patch_fits (length ct) p"
  shows "tag_hash gf_of h aad (apply_patches ps ct) lens
      = tag_hash gf_of h aad ct lens + (\<Sum>p<length ps. delta_sum gf_of h (patch_delta (length ct) (ps ! p)))
    \<and> length (apply_patches ps ct) = length ct"
  using assms
proof (induction ps rule: rev_induct)
  case (snoc p ps)
  let ?c = "apply_patches ps ct"
  have l: "length ?c = length ct" and p: "patch_fits (length ?c) p"
    using snoc by auto
  have a: "apply_patches (ps @ [p]) ct = xor_bytes ?c (patch_delta (length ct) p)"
    using apply_patch_delta(1) [OF p] l by (simp add: apply_patches_def)
  have "tag_hash gf_of h aad (xor_bytes ?c (patch_delta (length ct) p)) lens
      = tag_hash gf_of h aad ?c lens + delta_sum gf_of h (patch_delta (length ct) p)"
    using gf.tag_hash_xor apply_patch_delta(2) [OF p] l by simp
  then show ?case
    using snoc apply_patch_delta(2) [OF p] l unfolding a by (simp add: nth_append add.assoc)
qed (simp add: apply_patches_def)

text \<open>The accumulated delta turns the old tag into the tag of the patched ciphertext.\<close>

lemma valid_tag_patched:
  assumes "valid_tag h aad lens ek ct tag" "\<forall>p \<in> set ps. patch_fits (length ct) p"
    and "length d = 16" "gf_of d = (\<Sum>p<length ps. delta_sum gf_of h (patch_delta (length ct) (ps ! p)))"
  shows "valid_tag h aad lens ek (apply_patches ps ct) (xor_bytes tag d)"
  using assms conjunct1 [OF apply_patches_tag_hash [OF assms(2), of h aad lens]]
  by (simp add: valid_tag_def gf_of_xor)

section \<open>The tc program\<close>

text \<open>
  What \<open>tc_egress_patch\<close> hands over: the hash key of the connection, the length of the
  ciphertext, the patches it applied (a length of 0 marks one it did not).
\<close>

definition ghash_input ::
  "'a ghash_cpu_scheme \<Rightarrow> gf128 \<Rightarrow> nat \<Rightarrow> xor_patch list \<Rightarrow> bool" where
  "ghash_input s h n ps \<longleftrightarrow>
     (let w = ghash_scratch s in
      ghash_active w \<and> length (h_power_entries s) = 16
      \<and> (case tls_conn_state s \<lparr>ck_tgid = ghash_tgid w, ck_ssl_ptr = ghash_ssl_ptr w\<rparr> of
           None \<Rightarrow> False | Some conn \<Rightarrow> length (cs_ghash_h conn) = 16 \<and> gf_of (cs_ghash_h conn) = h)
      \<and> unat (ghash_ct_len w) = n \<and> n \<le> 18432
      \<and> unat (xp_patch_count (staged_pending w)) = length ps \<and> length ps \<le> XOR_MAX_PATCHES
      \<and> take (length ps) (xp_patches (staged_pending w)) = ps \<and> (\<forall>p \<in> set ps. patch_fits n p))"

lemma tc_maps_more:
  "ghash_cpu.more s = ghash_cpu.more t \<Longrightarrow> tc_pending s = tc_pending t \<and> tc_tag_pending s = tc_tag_pending t"
  by (cases s; cases t) simp

lemma tc_ghash_update_spec:
  assumes "ghash_input s h n ps"
  obtains d s' where "length d = 16"
    "gf_of d = (\<Sum>p<length ps. delta_sum gf_of h (patch_delta n (ps ! p)))"
    "tag_delta (ghash_scratch s') = d" "tc_pending s' = tc_pending s" "tc_tag_pending s' = tc_tag_pending s"
    "ghash_active (ghash_scratch s') = False"
    "ghash_ct_len (ghash_scratch s') = ghash_ct_len (ghash_scratch s)"
    "ghash_nonce_len (ghash_scratch s') = ghash_nonce_len (ghash_scratch s)"
    "ghash_pkt_seq (ghash_scratch s') = ghash_pkt_seq (ghash_scratch s)"
    "ghash_record_tcp_off (ghash_scratch s') = ghash_record_tcp_off (ghash_scratch s)"
    "ghash_conn_key (ghash_scratch s') = ghash_conn_key (ghash_scratch s)"
    "tc_ghash_update skb s = tc_ghash_tag skb (ghash_payload_off (ghash_scratch s) + 5
       + ghash_nonce_len (ghash_scratch s) + ghash_ct_len (ghash_scratch s)) s'"
proof -
  let ?w = "ghash_scratch s"
  let ?s1 = "upd_work (\<lambda>w. w\<lparr>ghash_active := False\<rparr>) s"
  let ?s2 = "bpf_loop 11 copy_h_power_step ?s1"
  let ?s3 = "upd_work (\<lambda>w. w\<lparr>tag_delta := replicate 16 0, ghash_ct_blocks := (ghash_ct_len ?w + 15) div 16\<rparr>) ?s2"
  let ?s4 = "bpf_loop (length ps) ghash_patch_iter ?s3"
  obtain conn where c: "tls_conn_state s \<lparr>ck_tgid = ghash_tgid ?w, ck_ssl_ptr = ghash_ssl_ptr ?w\<rparr> = Some conn"
      "length (cs_ghash_h conn) = 16" "gf_of (cs_ghash_h conn) = h"
    using assms by (auto simp: ghash_input_def Let_def split: option.splits)
  have a: "ghash_active ?w" "length (h_power_entries s) = 16" "unat (ghash_ct_len ?w) = n" "n \<le> 18432"
      "unat (xp_patch_count (staged_pending ?w)) = length ps" "length ps \<le> 4"
      "take (length ps) (xp_patches (staged_pending ?w)) = ps" "\<forall>p \<in> set ps. patch_fits n p"
    using assms by (auto simp: ghash_input_def Let_def XOR_MAX_PATCHES_def)
  have pw: "powers_ok h (h_power_entries ?s2)"
    using copy_h_powers(1) [of ?s1 conn] c a(2) by simp
  obtain es where f2: "ghash_frame ?s2 = ghash_frame (?s1\<lparr>h_power_entries := es\<rparr>)"
    using copy_h_powers(2) [of ?s1 conn] c a(2) by auto
  then have p2: "patch_frame ?s2 = patch_frame (?s1\<lparr>h_power_entries := es\<rparr>)"
    by (simp add: patch_frame_def)
  note g2 = patch_frameD [OF p2]
  have pc: "\<not> of_nat XOR_MAX_PATCHES < xp_patch_count (staged_pending ?w)"
    using a(5,6) by (simp add: word_less_nat_alt XOR_MAX_PATCHES_def)
  have u: "tc_ghash_update skb s = tc_ghash_tag skb (ghash_payload_off ?w + 5 + ghash_nonce_len ?w + ghash_ct_len ?w) ?s4"
    using a(1) unfolding tc_ghash_update_def Let_def by (simp add: g2 pc a(5))
  have fr: "patch_frame ?s3 = upd_work (\<lambda>w. w\<lparr>ghash_ct_blocks := (ghash_ct_len ?w + 15) div 16\<rparr>) (patch_frame ?s2)"
    by (simp add: patch_frame_def ghash_frame_def upd_work_def)
  have "unat (ghash_ct_len ?w + 15) = n + 15"
    using unat_plus_noof [of "ghash_ct_len ?w" 15] a(3,4) by simp
  then have nb: "unat ((ghash_ct_len ?w + 15) div 16) = (n + 15) div 16"
    by (simp add: unat_div_distrib)
  let ?ps = "xp_patches (staged_pending ?w)"
  have np: "?ps ! p = ps ! p" if "p < length ps" for p
    using that a(7) by (metis nth_take)
  have k: "\<forall>p < length ps. patch_fits n (?ps ! p)"
    using a(8) np by simp
  have l: "patch_frame ?s4 = patch_frame ?s3 \<and> length (tag_delta (ghash_scratch ?s4)) = 16
    \<and> gf_of (tag_delta (ghash_scratch ?s4))
        = gf_of (replicate 16 0) + (\<Sum>p<length ps. delta_sum gf_of h (patch_delta n (?ps ! p)))"
    using ghash_patch_loop [of h ?s3 n ?ps "length ps"] pw nb a(4,6) k g2(5) by simp
  note g4 = patch_frameD [OF conjunct1 [OF l]]
  show thesis
  proof (rule that [of "tag_delta (ghash_scratch ?s4)" ?s4])
    show "gf_of (tag_delta (ghash_scratch ?s4)) = (\<Sum>p<length ps. delta_sum gf_of h (patch_delta n (ps ! p)))"
      using l np by (simp add: gf_of_zero)
    show "tc_pending ?s4 = tc_pending s" "tc_tag_pending ?s4 = tc_tag_pending s"
      using tc_maps_more [of ?s4 s] g4(2) g2(2) by simp_all
  qed (use l g4 g2 u in simp_all)
qed

text \<open>The corrected tag, in this segment or later.\<close>

lemma tc_ghash_update_inline:
  assumes "ghash_input s h (length ct) ps" "valid_tag h aad lens ek ct old"
    and "skb_load_bytes skb (ghash_payload_off (ghash_scratch s) + 5 + ghash_nonce_len (ghash_scratch s)
           + ghash_ct_len (ghash_scratch s)) 16 = Some old"
  shows "\<exists>new s'. tc_ghash_update skb s
      = (skb_store_bytes (ghash_payload_off (ghash_scratch s) + 5 + ghash_nonce_len (ghash_scratch s)
           + ghash_ct_len (ghash_scratch s)) new skb, s')
    \<and> valid_tag h aad lens ek (apply_patches ps ct) new
    \<and> tc_tag_pending s' = tc_tag_pending s \<and> tc_pending s' = tc_pending s"
proof -
  obtain d s' where d: "length d = 16"
    "gf_of d = (\<Sum>p<length ps. delta_sum gf_of h (patch_delta (length ct) (ps ! p)))"
    "tag_delta (ghash_scratch s') = d" "tc_pending s' = tc_pending s" "tc_tag_pending s' = tc_tag_pending s"
    "tc_ghash_update skb s = tc_ghash_tag skb (ghash_payload_off (ghash_scratch s) + 5
       + ghash_nonce_len (ghash_scratch s) + ghash_ct_len (ghash_scratch s)) s'"
    using tc_ghash_update_spec [OF assms(1), of skb] by metis
  have ps: "\<forall>p \<in> set ps. patch_fits (length ct) p"
    using assms(1) by (simp add: ghash_input_def Let_def)
  show ?thesis
    unfolding d(6) tc_ghash_tag_def assms(3)
    using valid_tag_patched [OF assms(2) ps d(1,2)] d(3,4,5)
    by (simp add: Let_def upd_work_def) blast
qed

lemma tc_ghash_update_deferred:
  assumes "ghash_input s h n ps"
    and "skb_load_bytes skb (ghash_payload_off (ghash_scratch s) + 5 + ghash_nonce_len (ghash_scratch s)
           + ghash_ct_len (ghash_scratch s)) 16 = None"
  shows "\<exists>d s'. tc_ghash_update skb s = (skb, s')
    \<and> tc_tag_pending s' = (tc_tag_pending s)(ghash_conn_key (ghash_scratch s) \<mapsto>
        \<lparr>tv_tag_delta = d, tv_tag_tcp_seq = ghash_pkt_seq (ghash_scratch s)
           + ghash_record_tcp_off (ghash_scratch s) + 5 + ghash_nonce_len (ghash_scratch s)
           + ghash_ct_len (ghash_scratch s)\<rparr>)
    \<and> tc_pending s' = tc_pending s \<and> length d = 16
    \<and> (\<forall>aad lens ek ct tag. length ct = n \<longrightarrow> valid_tag h aad lens ek ct tag \<longrightarrow>
         valid_tag h aad lens ek (apply_patches ps ct) (xor_bytes tag d))"
proof -
  obtain d s' where d: "length d = 16"
    "gf_of d = (\<Sum>p<length ps. delta_sum gf_of h (patch_delta n (ps ! p)))"
    "tag_delta (ghash_scratch s') = d" "tc_pending s' = tc_pending s" "tc_tag_pending s' = tc_tag_pending s"
    "ghash_ct_len (ghash_scratch s') = ghash_ct_len (ghash_scratch s)"
    "ghash_nonce_len (ghash_scratch s') = ghash_nonce_len (ghash_scratch s)"
    "ghash_pkt_seq (ghash_scratch s') = ghash_pkt_seq (ghash_scratch s)"
    "ghash_record_tcp_off (ghash_scratch s') = ghash_record_tcp_off (ghash_scratch s)"
    "ghash_conn_key (ghash_scratch s') = ghash_conn_key (ghash_scratch s)"
    "tc_ghash_update skb s = tc_ghash_tag skb (ghash_payload_off (ghash_scratch s) + 5
       + ghash_nonce_len (ghash_scratch s) + ghash_ct_len (ghash_scratch s)) s'"
    using tc_ghash_update_spec [OF assms(1), of skb] by metis
  have ps: "\<forall>p \<in> set ps. patch_fits n p"
    using assms(1) by (simp add: ghash_input_def Let_def)
  have v: "\<forall>aad lens ek ct tag. length ct = n \<longrightarrow> valid_tag h aad lens ek ct tag \<longrightarrow>
         valid_tag h aad lens ek (apply_patches ps ct) (xor_bytes tag d)"
    using valid_tag_patched [of h _ _ _ _ _ ps d] ps d(1,2) by blast
  show ?thesis
    unfolding d(11) tc_ghash_tag_def assms(2)
    using d v by (auto simp: Let_def)
qed

section \<open>Properties\<close>

text \<open>
  the block of a patch that \<open>ghash_block_delta\<close> builds with arithmetic alone holds, at each
  of its 16 positions, the delta byte of that position when the position lies in the patch and 0
  otherwise, for every block of a TLS record and every patch of at most 128 bytes.
\<close>

theorem ghash_block_delta_exact:
  assumes "unat blk < 1024" "unat len \<le> SECRET_MAX_LEN" "length xd = SECRET_MAX_LEN" "i < 16"
  shows "ghash_block_delta xd blk sec_off len ! i
    = (let pos = 16 * unat blk + i in
       if unat sec_off \<le> pos \<and> pos < unat sec_off + unat len then xd ! (pos - unat sec_off) else 0)"
  using ghash_block_delta_nth [of blk len xd i sec_off] assms by (simp add: SECRET_MAX_LEN_def Let_def)

theorem ghash_block_delta_exact_witness:
  "ghash_block_delta (replicate SECRET_MAX_LEN 7) 2 39 5 ! 6 = 0
   \<and> ghash_block_delta (replicate SECRET_MAX_LEN 7) 2 39 5 ! 7 = 7"
  using ghash_block_delta_exact [of 2 5 "replicate SECRET_MAX_LEN 7" 6 39]
    ghash_block_delta_exact [of 2 5 "replicate SECRET_MAX_LEN 7" 7 39]
  by (simp add: SECRET_MAX_LEN_def)

text \<open>
  C6: when the tag is in the patched segment, \<open>tc_ghash_update\<close> overwrites it with the tag of the
  patched ciphertext: if the old tag authenticated the ciphertext before the patches (for any
  associated data, length block and nonce), the new one authenticates it after them, for up to four
  patches anywhere in the record.
\<close>

theorem tc_ghash_update_tag:
  assumes "ghash_input s h (length ct) ps" "valid_tag h aad lens ek ct old"
    and "tag_off = ghash_payload_off (ghash_scratch s) + 5 + ghash_nonce_len (ghash_scratch s)
           + ghash_ct_len (ghash_scratch s)"
    and "skb_load_bytes skb tag_off 16 = Some old"
  shows "\<exists>new s'. tc_ghash_update skb s = (skb_store_bytes tag_off new skb, s')
    \<and> valid_tag h aad lens ek (apply_patches ps ct) new \<and> tc_tag_pending s' = tc_tag_pending s"
  using tc_ghash_update_inline [OF assms(1,2)] assms(3,4) by blast

text \<open>
  C33: when the tag is in a later segment, \<open>tc_ghash_update\<close> leaves the packet as it is and records,
  under the connection's key, the position of the tag in the TCP stream and a delta that turns every
  valid tag of the ciphertext into a valid tag of the patched ciphertext.
\<close>

theorem tc_ghash_update_defers:
  assumes "ghash_input s h n ps"
    and "tag_off = ghash_payload_off (ghash_scratch s) + 5 + ghash_nonce_len (ghash_scratch s)
           + ghash_ct_len (ghash_scratch s)"
    and "skb_load_bytes skb tag_off 16 = None"
  shows "\<exists>d s'. tc_ghash_update skb s = (skb, s')
    \<and> tc_tag_pending s' (ghash_conn_key (ghash_scratch s)) = Some \<lparr>tv_tag_delta = d,
        tv_tag_tcp_seq = ghash_pkt_seq (ghash_scratch s) + ghash_record_tcp_off (ghash_scratch s) + 5
          + ghash_nonce_len (ghash_scratch s) + ghash_ct_len (ghash_scratch s)\<rparr>
    \<and> (\<forall>aad lens ek ct tag. length ct = n \<longrightarrow> valid_tag h aad lens ek ct tag \<longrightarrow>
         valid_tag h aad lens ek (apply_patches ps ct) (xor_bytes tag d))"
proof -
  obtain d s' where "tc_ghash_update skb s = (skb, s')"
    "tc_tag_pending s' = (tc_tag_pending s)(ghash_conn_key (ghash_scratch s) \<mapsto>
        \<lparr>tv_tag_delta = d, tv_tag_tcp_seq = ghash_pkt_seq (ghash_scratch s)
           + ghash_record_tcp_off (ghash_scratch s) + 5 + ghash_nonce_len (ghash_scratch s)
           + ghash_ct_len (ghash_scratch s)\<rparr>)"
    "\<forall>aad lens ek ct tag. length ct = n \<longrightarrow> valid_tag h aad lens ek ct tag \<longrightarrow>
         valid_tag h aad lens ek (apply_patches ps ct) (xor_bytes tag d)"
    using tc_ghash_update_deferred [OF assms(1)] assms(2,3) by metis
  then show ?thesis by (intro exI [of _ d] exI [of _ s']) simp
qed

section \<open>A concrete record\<close>

text \<open>A 32-byte ciphertext at offset 100 of a packet, a TLS 1.3 record, one 5-byte patch at 14.\<close>

definition example_patch :: xor_patch where
  "example_patch = no_patch\<lparr>secret_offset := 14, secret_len := 5, xor_delta := replicate 128 7\<rparr>"

definition example_work :: ghash_work where
  "example_work = \<lparr>staged_pending = \<lparr>xp_ssl_ptr = 9, xp_tgid = 7, xp_patch_count = 1,
       xp_patches = [example_patch, no_patch, no_patch, no_patch], xp_active = True,
       xp_chain_type = CHAIN_SSL, xp_memory_bio = False, xp_h_valid = True, xp_plaintext_len = 31,
       xp_created_at = 0, xp_ghash_h = [], xp_cipher_type = KLOAK_CIPHER_AES_GCM, xp_nonce_len = 0\<rparr>,
     staged_tc = \<lparr>tp_tgid = 0, tp_ssl_ptr = 0, tp_patch_count = 0, tp_patches = [], tp_active = False,
       tp_plaintext_len = 0, tp_write_seq = 0\<rparr>,
     ct_buf = [], old_tag = [], tag_delta = [], new_tag = [], block_delta = [], h_pow = [], mul_a = [],
     mul_v = [], mul_z = [], ghash_ct_len = 32, ghash_tgid = 7, ghash_ssl_ptr = 9,
     ghash_secret_offset = 0, ghash_patch_len = 0, ghash_nonce_len = 0, ghash_payload_off = 95,
     ghash_xor_delta = [], ghash_active = True, ghash_first_block = 0, ghash_ct_blocks = 0,
     ghash_h_power_val = 0, ghash_conn_key = \<lparr>dk_dst_ip = [], dk_src_port = 5, dk_cgroup_id = 3\<rparr>,
     ghash_pkt_seq = 1000, ghash_record_tcp_off = 41\<rparr>"

definition example_maps :: tc_maps where
  "example_maps = \<lparr>debug_counters = (\<lambda>_. 0), ghash_scratch = example_work,
     h_power_entries = replicate 16 (replicate 16 0),
     tls_conn_state = [\<lparr>ck_tgid = 7, ck_ssl_ptr = 9\<rparr> \<mapsto> \<lparr>cs_ghash_h = gf128_identity,
       cs_cipher_type = KLOAK_CIPHER_AES_GCM, cs_nonce_len = 0\<rparr>],
     tc_pending = Map.empty, tc_tag_pending = Map.empty\<rparr>"

definition example_skb :: "nat \<Rightarrow> sk_buff" where
  "example_skb n = \<lparr>skb_data = replicate n 1, skb_headlen = 60, skb_protocol = 8, skb_sk = None,
     skb_cgroup_id = 3, skb_writable = True\<rparr>"

lemma example_input: "ghash_input example_maps 1 32 [example_patch]"
proof -
  have "clamp_write_len 5 = 5" by (rule clamp_write_len_id) simp_all
  then show ?thesis
    by (simp add: ghash_input_def example_maps_def example_work_def example_patch_def Let_def
      gf_of_identity XOR_MAX_PATCHES_def patch_fits_def patch_len_def)
qed

lemma example_loads:
  "skb_load_bytes (example_skb 148) 132 16 = Some (replicate 16 1)"
  "skb_load_bytes (example_skb 120) 132 16 = None"
  by (simp_all add: skb_load_bytes_def example_skb_def)

theorem tc_ghash_update_tag_witness:
  "\<exists>ek new s'. valid_tag 1 [23] (replicate 16 2) ek (replicate 32 9) (replicate 16 1)
    \<and> tc_ghash_update (example_skb 148) example_maps = (skb_store_bytes 132 new (example_skb 148), s')
    \<and> valid_tag 1 [23] (replicate 16 2) ek (apply_patches [example_patch] (replicate 32 9)) new"
proof -
  define ek where "ek = gf_of (replicate 16 1) - tag_hash gf_of 1 [23] (replicate 32 9) (replicate 16 2)"
  have v: "valid_tag 1 [23] (replicate 16 2) ek (replicate 32 9) (replicate 16 1)"
    by (simp add: valid_tag_def ek_def)
  have "ghash_input example_maps 1 (length (replicate 32 9 :: bytes)) [example_patch]"
    using example_input by simp
  from tc_ghash_update_tag [OF this v, of 132 "example_skb 148"] v show ?thesis
    by (auto simp: example_loads example_maps_def example_work_def)
qed

theorem tc_ghash_update_defers_witness:
  "\<exists>d s'. tc_ghash_update (example_skb 120) example_maps = (example_skb 120, s')
    \<and> tc_tag_pending s' \<lparr>dk_dst_ip = [], dk_src_port = 5, dk_cgroup_id = 3\<rparr>
      = Some \<lparr>tv_tag_delta = d, tv_tag_tcp_seq = 1078\<rparr>"
  using tc_ghash_update_defers [OF example_input, of 132 "example_skb 120"]
  by (auto simp: example_loads example_maps_def example_work_def)

end
