(* ===== verification/Tc_Egress.thy ===== *)
theory Tc_Egress
  imports Ghash_Update
begin

text \<open>
  The tc egress program \<open>tc_egress_patch\<close> of \<open>tls_uprobe.c\<close>: header parsing, the deferred tag,
  the search for the record that carries the staged write, the patches on the ciphertext and the
  tail call to \<open>tc_ghash_update\<close>.

  Every path returns \<open>TC_PASS\<close>: the model returns the packet and the maps. Positions in the
  headers are at most 94 and are natural numbers; from the payload on they are \<open>__u32\<close>.
\<close>

section \<open>The code: headers\<close>

text \<open>The locals the header parsing leaves.\<close>

record tcp_seg =
  ts_key :: tc_dest_key
  ts_pkt_seq :: u32
  ts_payload_off :: u32
  ts_payload_len :: u32

definition ETH_P_IP :: u16 where "ETH_P_IP = 0x0800"
definition ETH_P_IPV6 :: u16 where "ETH_P_IPV6 = 0x86DD"

definition ipv4_to_mapped :: "bytes \<Rightarrow> bytes" where
  "ipv4_to_mapped ipv4 = replicate 10 0 @ [0xff, 0xff, ipv4 ! 0, ipv4 ! 1, ipv4 ! 2, ipv4 ! 3]"

definition bytes_at :: "bytes \<Rightarrow> nat \<Rightarrow> nat \<Rightarrow> bytes" where
  "bytes_at d o' n = take n (drop o' d)"

text \<open>The offset of the IP header: \<open>None\<close> is an early return.\<close>

definition tc_l3_off :: "sk_buff \<Rightarrow> nat option" where
  "tc_l3_off skb =
     (let l3_proto = skb_protocol skb in
      if l3_proto \<noteq> bswap16 ETH_P_IP \<and> l3_proto \<noteq> bswap16 ETH_P_IPV6 then None
      else if 14 > skb_headlen skb then None
      else if le_word (bytes_at (skb_data skb) 12 2) = l3_proto then Some 14 else Some 0)"

text \<open>The IP header: its length, the length of what follows, and the connection's destination.\<close>

definition tc_ip_header :: "sk_buff \<Rightarrow> nat \<Rightarrow> (nat \<times> u32 \<times> bytes) option" where
  "tc_ip_header skb l3_off =
     (let d = drop l3_off (skb_data skb); linear = skb_headlen skb - l3_off in
      if skb_protocol skb = bswap16 ETH_P_IP then
        (if 20 > linear then None
         else if d ! 9 \<noteq> 6 then None
         else let ip_hdr_len = unat (d ! 0 AND 0xF) * 4 in
           if ip_hdr_len < 20 then None
           else let l4_len = be16 (d ! 2) (d ! 3) - of_nat ip_hdr_len;
                    daddr = (case skb_sk skb of Some (Some bsk) \<Rightarrow> bs_dst_ip4 bsk | _ \<Rightarrow> bytes_at d 16 4)
                in Some (ip_hdr_len, l4_len, ipv4_to_mapped daddr))
      else
        (if 40 > linear then None
         else if d ! 6 \<noteq> 6 then None
         else let l4_len = be16 (d ! 4) (d ! 5);
                  daddr = (case skb_sk skb of Some (Some bsk) \<Rightarrow> bs_dst_ip6 bsk | _ \<Rightarrow> bytes_at d 24 16)
              in Some (40, l4_len, daddr)))"

definition tc_parse_headers :: "sk_buff \<Rightarrow> tcp_seg option" where
  "tc_parse_headers skb =
     (case tc_l3_off skb of None \<Rightarrow> None
      | Some l3_off \<Rightarrow>
        case tc_ip_header skb l3_off of None \<Rightarrow> None
        | Some (ip_hdr_len, l4_len, dst) \<Rightarrow>
          let t = l3_off + ip_hdr_len; d = drop t (skb_data skb) in
          if t + 20 > skb_headlen skb then None
          else let tcp_hdr_len = unat (drop_bit 4 (d ! 12)) * 4 in
            if tcp_hdr_len < 20 then None
            else Some \<lparr>ts_key = \<lparr>dk_dst_ip = dst, dk_src_port = le_word (bytes_at d 0 2),
                                dk_cgroup_id = skb_cgroup_id skb\<rparr>,
                       ts_pkt_seq = be_word (bytes_at d 4 4),
                       ts_payload_off = of_nat (t + tcp_hdr_len),
                       ts_payload_len = l4_len - of_nat tcp_hdr_len\<rparr>)"

section \<open>The code: the deferred tag\<close>

definition tc_deferred_tag ::
  "sk_buff \<Rightarrow> tcp_seg \<Rightarrow> tc_tag_val \<Rightarrow> 'a tc_maps_scheme \<Rightarrow> sk_buff \<times> 'a tc_maps_scheme" where
  "tc_deferred_tag skb seg tag s =
     (let tag_seq = tv_tag_tcp_seq tag; pkt_seq = ts_pkt_seq seg;
          pkt_end = pkt_seq + ts_payload_len seg
      in if pkt_seq \<le> tag_seq \<and> tag_seq + 16 \<le> pkt_end then
           let tag_off = ts_payload_off seg + (tag_seq - pkt_seq);
               skb' = (case skb_load_bytes skb tag_off 16 of
                         None \<Rightarrow> skb
                       | Some old \<Rightarrow> skb_store_bytes tag_off (xor_bytes old (tv_tag_delta tag)) skb)
           in (skb', s\<lparr>tc_tag_pending := map_del (ts_key seg) (tc_tag_pending s)\<rparr>)
         else (skb, s))"

section \<open>The code: finding the record\<close>

definition TC_MAX_LEADING_RECORDS :: nat where "TC_MAX_LEADING_RECORDS = 4"
definition TC_MAX_SCAN_RECORDS :: nat where "TC_MAX_SCAN_RECORDS = 4"

text \<open>
  The first application data record at or after \<open>off\<close>, with \<open>n\<close> headers left to read: its
  offset and length. \<open>rlen\<close> is the local \<open>record_len\<close>.
\<close>

fun tc_first_record :: "nat \<Rightarrow> sk_buff \<Rightarrow> u32 \<Rightarrow> u32 \<Rightarrow> (u32 \<times> u32) option" where
  "tc_first_record 0 skb off rlen = None"
| "tc_first_record (Suc n) skb off rlen =
     (case skb_load_bytes skb off 5 of None \<Rightarrow> None
      | Some hdr \<Rightarrow>
        case tls_record_hdr_kind hdr rlen of
          (TLS_REC_SKIPPABLE, rlen') \<Rightarrow> tc_first_record n skb (off + (5 + rlen')) rlen'
        | (TLS_REC_APPDATA, rlen') \<Rightarrow> Some (off, rlen')
        | (TLS_REC_INVALID, rlen') \<Rightarrow> None)"

text \<open>The scan for a record whose length matches, \<open>n\<close> headers left.\<close>

fun tc_scan_records :: "nat \<Rightarrow> sk_buff \<Rightarrow> u32 \<Rightarrow> u32 \<Rightarrow> u32 \<Rightarrow> (u32 \<times> u32 \<times> u32) option" where
  "tc_scan_records 0 skb scan_off pt_len nonce_len = None"
| "tc_scan_records (Suc n) skb scan_off pt_len nonce_len =
     (case skb_load_bytes skb scan_off 5 of None \<Rightarrow> None
      | Some hdr \<Rightarrow>
        let (kind, rlen) = tls_record_hdr_kind hdr 0 in
        if kind = TLS_REC_INVALID then None
        else let (m, matched_nonce) = tls_appdata_reclen_match rlen pt_len nonce_len 0 in
          if kind = TLS_REC_APPDATA \<and> m then Some (scan_off, rlen, matched_nonce)
          else tc_scan_records n skb (scan_off + (5 + rlen)) pt_len nonce_len)"

text \<open>The record to patch and its nonce length.\<close>

definition tc_select_record ::
  "sk_buff \<Rightarrow> u32 \<Rightarrow> u32 \<Rightarrow> u32 \<Rightarrow> u32 \<Rightarrow> u32 \<times> u32 \<times> u32" where
  "tc_select_record skb payload_off record_len pt_len nonce_len =
     (let (matched, matched_nonce) = tls_appdata_reclen_match record_len pt_len nonce_len 0;
          unmatched = (payload_off, record_len,
                       if nonce_len = TLS_NONCE_UNKNOWN then 8 else nonce_len)
      in if matched then (payload_off, record_len, matched_nonce)
         else if pt_len > 0 then
           (case tc_scan_records TC_MAX_SCAN_RECORDS skb (payload_off + 5 + record_len) pt_len nonce_len of
              Some r \<Rightarrow> r | None \<Rightarrow> unmatched)
         else unmatched)"

text \<open>The nonce length the connection's state knows.\<close>

definition tc_nonce_len :: "tc_pending_val \<Rightarrow> 'a tc_maps_scheme \<Rightarrow> u32" where
  "tc_nonce_len pending s =
     (case tls_conn_state s \<lparr>ck_tgid = tp_tgid pending, ck_ssl_ptr = tp_ssl_ptr pending\<rparr> of
        Some conn \<Rightarrow> if ucast (cs_nonce_len conn) \<noteq> TLS_NONCE_UNKNOWN then ucast (cs_nonce_len conn)
                     else TLS_NONCE_UNKNOWN
      | None \<Rightarrow> TLS_NONCE_UNKNOWN)"

text \<open>The sequence check: whether the segment holds the start of the staged write.\<close>

definition tc_seq_ok :: "tcp_seg \<Rightarrow> tc_pending_val \<Rightarrow> bool" where
  "tc_seq_ok seg pending \<longleftrightarrow>
     (if tp_write_seq pending > 0 then
        (let pkt_end = ts_pkt_seq seg + ts_payload_len seg
         in \<not> (ts_pkt_seq seg > tp_write_seq pending \<or> pkt_end \<le> tp_write_seq pending))
      else True)"

section \<open>The code: the patches\<close>

definition tc_stage ::
  "tcp_seg \<Rightarrow> tc_pending_val \<Rightarrow> u32 \<Rightarrow> u32 \<Rightarrow> u32 \<Rightarrow> 'a tc_maps_scheme \<Rightarrow> 'a tc_maps_scheme" where
  "tc_stage seg pending payload_off record_len nonce_len s =
     (let pc = (if tp_patch_count pending > of_nat XOR_MAX_PATCHES then of_nat XOR_MAX_PATCHES
                else tp_patch_count pending)
      in upd_work (\<lambda>w. w\<lparr>
           staged_pending := (staged_pending w)\<lparr>xp_patch_count := pc,
             xp_patches := take (unat pc) (tp_patches pending) @ drop (unat pc) (xp_patches (staged_pending w))\<rparr>,
           ghash_ct_len := record_len - 16 - nonce_len, ghash_nonce_len := nonce_len,
           ghash_payload_off := payload_off, ghash_tgid := tp_tgid pending,
           ghash_ssl_ptr := tp_ssl_ptr pending, ghash_active := True, ghash_conn_key := ts_key seg,
           ghash_pkt_seq := ts_pkt_seq seg,
           ghash_record_tcp_off := payload_off - ts_payload_off seg\<rparr>) s)"

definition upd_patch :: "nat \<Rightarrow> (xor_patch \<Rightarrow> xor_patch) \<Rightarrow> 'a ghash_cpu_scheme \<Rightarrow> 'a ghash_cpu_scheme" where
  "upd_patch p f s = upd_work (\<lambda>w. w\<lparr>staged_pending := (staged_pending w)\<lparr>xp_patches :=
     (xp_patches (staged_pending w))[p := f (xp_patches (staged_pending w) ! p)]\<rparr>\<rparr>) s"

definition tc_apply_patch ::
  "u32 \<Rightarrow> u32 \<Rightarrow> u32 \<Rightarrow> nat \<Rightarrow> sk_buff \<times> 'a tc_maps_scheme \<times> nat \<Rightarrow> sk_buff \<times> 'a tc_maps_scheme \<times> nat" where
  "tc_apply_patch payload_off record_len nonce_len p st =
     (let (skb, s, applied) = st;
          patch = xp_patches (staged_pending (ghash_scratch s)) ! p;
          sec_off = secret_offset patch; sec_len = secret_len patch;
          zero_len = upd_patch p (\<lambda>q. q\<lparr>secret_len := 0\<rparr>) s
      in if record_len < 16 + nonce_len + sec_len then (skb, zero_len, applied)
         else let patch_off = payload_off + 5 + nonce_len + sec_off;
                  n = clamp_write_len sec_len
           in case skb_load_bytes skb patch_off (unat n) of
                None \<Rightarrow> (skb, zero_len, applied)
              | Some ct \<Rightarrow>
                  let ct' = xor_bytes ct (take (unat n) (xor_delta patch));
                      s1 = upd_work (\<lambda>w. w\<lparr>ct_buf := ct' @ drop (unat n) (ct_buf w)\<rparr>) s
                  in (skb_store_bytes patch_off ct' skb, dbg_inc DBG_TC_PATCHED s1, Suc applied))"

definition tc_apply_patches ::
  "u32 \<Rightarrow> u32 \<Rightarrow> u32 \<Rightarrow> nat \<Rightarrow> sk_buff \<Rightarrow> 'a tc_maps_scheme \<Rightarrow> sk_buff \<times> 'a tc_maps_scheme \<times> nat" where
  "tc_apply_patches payload_off record_len nonce_len pc skb s =
     fold (tc_apply_patch payload_off record_len nonce_len) [0..<pc] (skb, s, 0)"

text \<open>
  From the selected record on; \<open>tail\<close> is whether the tail call finds \<open>tc_ghash_update\<close> in
  \<open>tc_prog_array\<close>.
\<close>

definition tc_patch_record ::
  "bool \<Rightarrow> sk_buff \<Rightarrow> tcp_seg \<Rightarrow> tc_pending_val \<Rightarrow> u32 \<Rightarrow> u32 \<Rightarrow> u32 \<Rightarrow> 'a tc_maps_scheme
     \<Rightarrow> sk_buff \<times> 'a tc_maps_scheme" where
  "tc_patch_record tail skb seg pending payload_off record_len nonce_len s =
     (if record_len < 16 + nonce_len then (skb, s)
      else let s1 = tc_stage seg pending payload_off record_len nonce_len s;
               pc = unat (xp_patch_count (staged_pending (ghash_scratch s1)));
               (skb1, s2, applied) = tc_apply_patches payload_off record_len nonce_len pc skb s1
           in if applied = 0 then (skb1, s2)
              else let s3 = s2\<lparr>tc_pending := (case tc_pending s2 (ts_key seg) of None \<Rightarrow> tc_pending s2
                          | Some v \<Rightarrow> (tc_pending s2)(ts_key seg \<mapsto> v\<lparr>tp_active := False\<rparr>))\<rparr>
                   in if tail then tc_ghash_update skb1 s3 else (skb1, s3))"

definition tc_egress_patch ::
  "bool \<Rightarrow> sk_buff \<Rightarrow> 'a tc_maps_scheme \<Rightarrow> sk_buff \<times> 'a tc_maps_scheme" where
  "tc_egress_patch tail skb s0 =
     (let s = dbg_inc DBG_TC_ENTRY s0 in
      case tc_parse_headers skb of None \<Rightarrow> (skb, s)
      | Some seg \<Rightarrow>
        case tc_tag_pending s (ts_key seg) of
          Some tag \<Rightarrow> tc_deferred_tag skb seg tag s
        | None \<Rightarrow>
          if ts_payload_len seg < 5 then (skb, s)
          else case tc_first_record (TC_MAX_LEADING_RECORDS + 1) skb (ts_payload_off seg) 0 of
            None \<Rightarrow> (skb, s)
          | Some (off, rlen) \<Rightarrow>
            case tc_pending s (ts_key seg) of
              None \<Rightarrow> (skb, s)
            | Some pending \<Rightarrow>
              if \<not> tp_active pending \<or> \<not> tc_seq_ok seg pending then (skb, s)
              else let s = dbg_inc DBG_TC_MATCH s;
                       (off', rlen', nonce) = tc_select_record skb off rlen (tp_plaintext_len pending)
                                                (tc_nonce_len pending s)
                   in tc_patch_record tail skb seg pending off' rlen' nonce s)"

section \<open>One patch on the packet\<close>

text \<open>The maps without the counters and the patch buffer, which the patch loop writes.\<close>

definition tc_frame :: "'a tc_maps_scheme \<Rightarrow> 'a tc_maps_scheme" where
  "tc_frame s = s\<lparr>debug_counters := (\<lambda>_. 0), ghash_scratch := (ghash_scratch s)\<lparr>ct_buf := []\<rparr>\<rparr>"

lemma tc_frameD:
  assumes "tc_frame s = tc_frame t"
  shows "h_power_entries s = h_power_entries t" "tls_conn_state s = tls_conn_state t"
    "tc_pending s = tc_pending t" "tc_tag_pending s = tc_tag_pending t"
    "(ghash_scratch s)\<lparr>ct_buf := []\<rparr> = (ghash_scratch t)\<lparr>ct_buf := []\<rparr>"
  using arg_cong [OF assms, of h_power_entries] arg_cong [OF assms, of tls_conn_state]
    arg_cong [OF assms, of tc_pending] arg_cong [OF assms, of tc_tag_pending]
    arg_cong [OF assms, of ghash_scratch]
  by (simp_all add: tc_frame_def)

lemma tc_frame_work:
  assumes "tc_frame s = tc_frame t"
  shows "staged_pending (ghash_scratch s) = staged_pending (ghash_scratch t)"
    "ghash_active (ghash_scratch s) = ghash_active (ghash_scratch t)"
    "ghash_ct_len (ghash_scratch s) = ghash_ct_len (ghash_scratch t)"
    "ghash_tgid (ghash_scratch s) = ghash_tgid (ghash_scratch t)"
    "ghash_ssl_ptr (ghash_scratch s) = ghash_ssl_ptr (ghash_scratch t)"
    "ghash_nonce_len (ghash_scratch s) = ghash_nonce_len (ghash_scratch t)"
    "ghash_payload_off (ghash_scratch s) = ghash_payload_off (ghash_scratch t)"
    "ghash_conn_key (ghash_scratch s) = ghash_conn_key (ghash_scratch t)"
    "ghash_pkt_seq (ghash_scratch s) = ghash_pkt_seq (ghash_scratch t)"
    "ghash_record_tcp_off (ghash_scratch s) = ghash_record_tcp_off (ghash_scratch t)"
proof -
  note e = tc_frameD(5) [OF assms]
  show "staged_pending (ghash_scratch s) = staged_pending (ghash_scratch t)"
    "ghash_active (ghash_scratch s) = ghash_active (ghash_scratch t)"
    "ghash_ct_len (ghash_scratch s) = ghash_ct_len (ghash_scratch t)"
    "ghash_tgid (ghash_scratch s) = ghash_tgid (ghash_scratch t)"
    "ghash_ssl_ptr (ghash_scratch s) = ghash_ssl_ptr (ghash_scratch t)"
    "ghash_nonce_len (ghash_scratch s) = ghash_nonce_len (ghash_scratch t)"
    "ghash_payload_off (ghash_scratch s) = ghash_payload_off (ghash_scratch t)"
    "ghash_conn_key (ghash_scratch s) = ghash_conn_key (ghash_scratch t)"
    "ghash_pkt_seq (ghash_scratch s) = ghash_pkt_seq (ghash_scratch t)"
    "ghash_record_tcp_off (ghash_scratch s) = ghash_record_tcp_off (ghash_scratch t)"
    using arg_cong [OF e, of staged_pending] arg_cong [OF e, of ghash_active]
      arg_cong [OF e, of ghash_ct_len] arg_cong [OF e, of ghash_tgid] arg_cong [OF e, of ghash_ssl_ptr]
      arg_cong [OF e, of ghash_nonce_len] arg_cong [OF e, of ghash_payload_off]
      arg_cong [OF e, of ghash_conn_key] arg_cong [OF e, of ghash_pkt_seq]
      arg_cong [OF e, of ghash_record_tcp_off]
    by simp_all
qed

text \<open>A patch of a secret of 1 to 128 bytes that lies inside a ciphertext of \<open>n\<close> bytes.\<close>

definition patch_valid :: "nat \<Rightarrow> xor_patch \<Rightarrow> bool" where
  "patch_valid n p \<longleftrightarrow> length (xor_delta p) = 128 \<and> 1 \<le> unat (secret_len p) \<and> unat (secret_len p) \<le> 128
     \<and> unat (secret_offset p) + unat (secret_len p) \<le> min n 16384"

lemma patch_valid_fits: "patch_valid n p \<Longrightarrow> patch_fits n p"
  using clamp_write_len_id [of "secret_len p"] by (auto simp: patch_valid_def patch_fits_def patch_len_def)

lemma patch_valid_len: "patch_valid n p \<Longrightarrow> patch_len p = unat (secret_len p) \<and> secret_len p \<noteq> 0"
  using clamp_write_len_id [of "secret_len p"] by (auto simp: patch_valid_def patch_len_def)

lemma put_at_inside:
  "o' + length xs \<le> length c \<Longrightarrow> put_at (length a + o') xs (a @ c @ b) = a @ put_at o' xs c @ b"
  by (simp add: put_at_def)

lemma bytes_at_inside:
  "o' + n \<le> length c \<Longrightarrow> take n (drop (length a + o') (a @ c @ b)) = take n (drop o' c)"
  by simp

text \<open>The packet with the record: \<open>ct\<close> stands at \<open>length a\<close>.\<close>

lemma tc_apply_patch_ok:
  assumes d: "skb_data skb = a @ ct @ b" "skb_writable skb" "length (skb_data skb) < 2 ^ 31"
    and o': "unat (payload_off + 5 + nonce_len) = length a"
    and r: "unat record_len = 16 + unat nonce_len + length ct" "unat nonce_len \<le> 8"
    and q: "q = xp_patches (staged_pending (ghash_scratch s)) ! p" "patch_valid (length ct) q"
  shows "\<exists>s'. tc_apply_patch payload_off record_len nonce_len p (skb, s, k)
      = (skb\<lparr>skb_data := a @ apply_patch q ct @ b\<rparr>, s', Suc k) \<and> tc_frame s' = tc_frame s"
proof -
  let ?o = "secret_offset q" and ?l = "secret_len q"
  have v: "unat ?o + unat ?l \<le> length ct" "unat ?o \<le> 16384" "unat ?l \<le> 128" "length (xor_delta q) = 128" "1 \<le> unat ?l"
    using q(2) by (auto simp: patch_valid_def)
  have cl: "clamp_write_len ?l = ?l" using v by (intro clamp_write_len_id) auto
  have n1: "unat (16 + nonce_len) = 16 + unat nonce_len"
    using unat_plus_noof [of 16 nonce_len] r(2) by simp
  have n2: "unat (16 + nonce_len + ?l) = 16 + unat nonce_len + unat ?l"
    using unat_plus_noof [of "16 + nonce_len" ?l] n1 r(2) v(3) by simp
  then have c: "\<not> record_len < 16 + nonce_len + ?l"
    unfolding word_less_nat_alt n2 r(1) using v(1) by simp
  have po: "unat (payload_off + 5 + nonce_len + ?o) = length a + unat ?o"
    using unat_plus_noof [of "payload_off + 5 + nonce_len" ?o] o' v(1) d by simp
  have po': "\<not> payload_off + 5 + nonce_len + ?o > 0x7fffffff"
    unfolding word_less_nat_alt po using d v(1) by simp
  have ld: "skb_load_bytes skb (payload_off + 5 + nonce_len + ?o) (unat ?l) = Some (take (unat ?l) (drop (unat ?o) ct))"
    using po' v(1) unfolding skb_load_bytes_def po d(1)
    by (simp add: bytes_at_inside)
  let ?c = "xor_bytes (take (unat ?l) (drop (unat ?o) ct)) (take (unat ?l) (xor_delta q))"
  have lc: "length ?c = unat ?l" using v by simp
  have st: "skb_store_bytes (payload_off + 5 + nonce_len + ?o) ?c skb = skb\<lparr>skb_data := a @ put_at (unat ?o) ?c ct @ b\<rparr>"
    using po' d(2) v(1) lc unfolding skb_store_bytes_def po d(1)
    by (simp add: put_at_inside)
  have ap: "apply_patch q ct = put_at (unat ?o) ?c ct"
    using patch_valid_len [OF q(2)] v(4,3) by (simp add: apply_patch_def xor_at_def min_def)
  have e: "tc_apply_patch payload_off record_len nonce_len p (skb, s, k)
      = (skb\<lparr>skb_data := a @ apply_patch q ct @ b\<rparr>,
         dbg_inc DBG_TC_PATCHED (upd_work (\<lambda>w. w\<lparr>ct_buf := ?c @ drop (unat ?l) (ct_buf w)\<rparr>) s), Suc k)"
    unfolding tc_apply_patch_def q(1) [symmetric] Let_def prod.case
    using c by (simp add: cl ld st ap)
  have "tc_frame (dbg_inc DBG_TC_PATCHED (upd_work (\<lambda>w. w\<lparr>ct_buf := ?c @ drop (unat ?l) (ct_buf w)\<rparr>) s)) = tc_frame s"
    by (cases s) (simp add: tc_frame_def dbg_inc_def upd_work_def)
  with e show ?thesis by blast
qed

lemma length_apply_patch: "patch_valid (length ct) p \<Longrightarrow> length (apply_patch p ct) = length ct"
  using apply_patch_delta [of ct p] patch_valid_fits [of "length ct" p] by simp

lemma length_apply_patches:
  "\<forall>p \<in> set ps. patch_valid (length ct) p \<Longrightarrow> length (apply_patches ps ct) = length ct"
  using apply_patches_tag_hash [of ps ct] patch_valid_fits by blast

text \<open>The whole loop.\<close>

lemma tc_apply_patches_ok:
  assumes d: "skb_data skb = a @ ct @ b" "skb_writable skb" "length (skb_data skb) < 2 ^ 31"
    and o': "unat (payload_off + 5 + nonce_len) = length a"
    and r: "unat record_len = 16 + unat nonce_len + length ct" "unat nonce_len \<le> 8"
    and q: "take (length ps) (xp_patches (staged_pending (ghash_scratch s))) = ps"
      "\<forall>p \<in> set ps. patch_valid (length ct) p"
  shows "\<exists>s'. tc_apply_patches payload_off record_len nonce_len (length ps) skb s
      = (skb\<lparr>skb_data := a @ apply_patches ps ct @ b\<rparr>, s', length ps) \<and> tc_frame s' = tc_frame s"
proof -
  let ?ps = "xp_patches (staged_pending (ghash_scratch s))"
  have "\<exists>s'. fold (tc_apply_patch payload_off record_len nonce_len) [0..<m] (skb, s, 0)
      = (skb\<lparr>skb_data := a @ apply_patches (take m ps) ct @ b\<rparr>, s', m) \<and> tc_frame s' = tc_frame s"
    if "m \<le> length ps" for m
    using that
  proof (induction m)
    case 0
    then show ?case using d(1) by (simp add: apply_patches_def)
  next
    case (Suc m)
    let ?c = "apply_patches (take m ps) ct"
    let ?skb = "skb\<lparr>skb_data := a @ ?c @ b\<rparr>"
    obtain s1 where s1: "fold (tc_apply_patch payload_off record_len nonce_len) [0..<m] (skb, s, 0)
        = (?skb, s1, m)" "tc_frame s1 = tc_frame s"
      using Suc by auto
    have l: "length ?c = length ct"
      using q(2) by (intro length_apply_patches) (meson in_set_takeD)
    have m: "?ps ! m = ps ! m" "m < length ps"
      using q(1) Suc.prems by (metis Suc_le_lessD nth_take)+
    then have pv: "patch_valid (length ?c) (ps ! m)" using q(2) l by simp
    obtain s2 where s2: "tc_apply_patch payload_off record_len nonce_len m (?skb, s1, m)
        = (?skb\<lparr>skb_data := a @ apply_patch (ps ! m) ?c @ b\<rparr>, s2, Suc m)" "tc_frame s2 = tc_frame s1"
      using tc_apply_patch_ok [of ?skb a ?c b payload_off nonce_len record_len "ps ! m" s1 m m]
        d o' r pv l m tc_frame_work(1) [OF s1(2)] by auto
    have "apply_patches (take (Suc m) ps) ct = apply_patch (ps ! m) ?c"
      using m by (simp add: take_Suc_conv_app_nth apply_patches_def)
    then show ?case using s1 s2 by simp
  qed
  from this [of "length ps"] show ?thesis by (simp add: tc_apply_patches_def)
qed

section \<open>The selected record\<close>

text \<open>The staged patches of a pending entry, and what they need of a ciphertext of \<open>n\<close> bytes.\<close>

definition pending_patches :: "tc_pending_val \<Rightarrow> xor_patch list" where
  "pending_patches v = take (unat (tp_patch_count v)) (tp_patches v)"

definition pending_ok :: "nat \<Rightarrow> tc_pending_val \<Rightarrow> bool" where
  "pending_ok n v \<longleftrightarrow> 1 \<le> unat (tp_patch_count v) \<and> unat (tp_patch_count v) \<le> XOR_MAX_PATCHES
     \<and> length (tp_patches v) = XOR_MAX_PATCHES \<and> (\<forall>p \<in> set (pending_patches v). patch_valid n p)"

text \<open>The hash key tc finds for the connection.\<close>

definition conn_key_is :: "'a ghash_cpu_scheme \<Rightarrow> u32 \<Rightarrow> u64 \<Rightarrow> gf128 \<Rightarrow> bool" where
  "conn_key_is s tgid ssl_ptr h \<longleftrightarrow>
     (case tls_conn_state s \<lparr>ck_tgid = tgid, ck_ssl_ptr = ssl_ptr\<rparr> of
        None \<Rightarrow> False | Some conn \<Rightarrow> length (cs_ghash_h conn) = 16 \<and> gf_of (cs_ghash_h conn) = h)"

lemma tc_stage_spec:
  assumes "pending_ok n v" "conn_key_is s (tp_tgid v) (tp_ssl_ptr v) h" "length (h_power_entries s) = 16"
    and r: "unat record_len = 16 + unat nonce_len + n" "unat nonce_len \<le> 8" "n \<le> 18432"
    and t_def: "t = tc_stage seg v payload_off record_len nonce_len s"
  shows "ghash_input t h n (pending_patches v)"
    and "unat (xp_patch_count (staged_pending (ghash_scratch t))) = length (pending_patches v)"
    and "take (length (pending_patches v)) (xp_patches (staged_pending (ghash_scratch t))) = pending_patches v"
    and "ghash_payload_off (ghash_scratch t) = payload_off" "ghash_nonce_len (ghash_scratch t) = nonce_len"
    and "ghash_ct_len (ghash_scratch t) = record_len - 16 - nonce_len" "unat (record_len - 16 - nonce_len) = n"
    and "ghash_pkt_seq (ghash_scratch t) = ts_pkt_seq seg"
    and "ghash_record_tcp_off (ghash_scratch t) = payload_off - ts_payload_off seg"
    and "ghash_conn_key (ghash_scratch t) = ts_key seg"
    and "tc_pending t = tc_pending s" "tc_tag_pending t = tc_tag_pending s" "pending_patches v \<noteq> []"
proof -
  have v: "1 \<le> unat (tp_patch_count v)" "unat (tp_patch_count v) \<le> 4" "length (tp_patches v) = 4"
      "\<forall>p \<in> set (pending_patches v). patch_valid n p"
    using assms(1) by (auto simp: pending_ok_def XOR_MAX_PATCHES_def)
  have l: "length (pending_patches v) = unat (tp_patch_count v)"
    using v by (simp add: pending_patches_def)
  have "16 \<le> record_len" using r by (simp add: word_le_nat_alt)
  then have "unat (record_len - 16) = unat nonce_len + n" using r by (simp add: unat_minus_noof)
  moreover from this have "nonce_len \<le> record_len - 16" by (simp add: word_le_nat_alt)
  ultimately show cn: "unat (record_len - 16 - nonce_len) = n" by (simp add: unat_minus_noof)
  have pc: "\<not> tp_patch_count v > of_nat XOR_MAX_PATCHES"
    using v(2) by (simp add: word_less_nat_alt XOR_MAX_PATCHES_def)
  show "unat (xp_patch_count (staged_pending (ghash_scratch t))) = length (pending_patches v)"
    and tk: "take (length (pending_patches v)) (xp_patches (staged_pending (ghash_scratch t))) = pending_patches v"
    and "ghash_payload_off (ghash_scratch t) = payload_off" "ghash_nonce_len (ghash_scratch t) = nonce_len"
    and "ghash_ct_len (ghash_scratch t) = record_len - 16 - nonce_len"
    and "ghash_pkt_seq (ghash_scratch t) = ts_pkt_seq seg"
    and "ghash_record_tcp_off (ghash_scratch t) = payload_off - ts_payload_off seg"
    and "ghash_conn_key (ghash_scratch t) = ts_key seg"
    and "tc_pending t = tc_pending s" "tc_tag_pending t = tc_tag_pending s"
    using pc v l by (simp_all add: t_def tc_stage_def Let_def pending_patches_def upd_work_def)
  show "pending_patches v \<noteq> []" using l v(1) by auto
  show "ghash_input t h n (pending_patches v)"
    unfolding ghash_input_def Let_def
    using pc v l tk cn assms(2,3) r(3) patch_valid_fits
    by (simp add: t_def tc_stage_def Let_def conn_key_is_def XOR_MAX_PATCHES_def)
qed

lemma ghash_input_frame:
  assumes "tc_frame s' = tc_frame s" "ghash_input s h n ps"
  shows "ghash_input (s'\<lparr>tc_pending := m\<rparr>) h n ps"
  using assms(2) tc_frameD(1,2) [OF assms(1)] tc_frame_work [OF assms(1)]
  by (simp add: ghash_input_def Let_def)

lemma tc_patch_record_ok:
  assumes d: "skb_data skb = a @ ct @ tag @ b" "skb_writable skb" "length (skb_data skb) < 2 ^ 31"
    and o': "unat (payload_off + 5 + nonce_len) = length a"
    and r: "unat record_len = 16 + unat nonce_len + length ct" "unat nonce_len \<le> 8" "length ct \<le> 18432"
    and v: "pending_ok (length ct) v" "conn_key_is s (tp_tgid v) (tp_ssl_ptr v) h"
      "length (h_power_entries s) = 16" "tc_pending s (ts_key seg) = Some v"
    and t: "valid_tag h aad lens ek ct tag"
  shows "\<exists>tag' s'. tc_patch_record True skb seg v payload_off record_len nonce_len s
      = (skb\<lparr>skb_data := a @ apply_patches (pending_patches v) ct @ tag' @ b\<rparr>, s')
    \<and> valid_tag h aad lens ek (apply_patches (pending_patches v) ct) tag'
    \<and> tc_pending s' = (tc_pending s)(ts_key seg \<mapsto> v\<lparr>tp_active := False\<rparr>)
    \<and> tc_tag_pending s' = tc_tag_pending s"
proof -
  let ?ps = "pending_patches v"
  let ?s1 = "tc_stage seg v payload_off record_len nonce_len s"
  note st = tc_stage_spec [OF v(1,2,3) r refl]
  have pv: "\<forall>p \<in> set ?ps. patch_valid (length ct) p"
    using v(1) by (simp add: pending_ok_def)
  obtain s2 where s2: "tc_apply_patches payload_off record_len nonce_len (length ?ps) skb ?s1
      = (skb\<lparr>skb_data := a @ apply_patches ?ps ct @ tag @ b\<rparr>, s2, length ?ps)" "tc_frame s2 = tc_frame ?s1"
    using tc_apply_patches_ok [of skb a ct "tag @ b" payload_off nonce_len record_len ?ps ?s1] d o' r st(3) pv
    by auto
  let ?skb1 = "skb\<lparr>skb_data := a @ apply_patches ?ps ct @ tag @ b\<rparr>"
  let ?m = "(tc_pending s)(ts_key seg \<mapsto> v\<lparr>tp_active := False\<rparr>)"
  let ?s3 = "s2\<lparr>tc_pending := ?m\<rparr>"
  have tp: "tc_pending s2 = tc_pending s" "tc_tag_pending s2 = tc_tag_pending s"
    using tc_frameD(3,4) [OF s2(2)] st(11,12) by simp_all
  have lt: "length tag = 16" using t by (simp add: valid_tag_def)
  have n1: "unat (16 + nonce_len) = 16 + unat nonce_len"
    using unat_plus_noof [of 16 nonce_len] r(2) by simp
  then have big: "\<not> record_len < 16 + nonce_len"
    unfolding word_less_nat_alt n1 r(1) by simp
  have g: "ghash_input ?s3 h (length ct) ?ps"
    by (rule ghash_input_frame [OF s2(2) st(1)])
  have w: "ghash_payload_off (ghash_scratch ?s3) = payload_off" "ghash_nonce_len (ghash_scratch ?s3) = nonce_len"
      "ghash_ct_len (ghash_scratch ?s3) = record_len - 16 - nonce_len"
    using tc_frame_work [OF s2(2)] st(4,5,6) by simp_all
  let ?off = "payload_off + 5 + nonce_len + (record_len - 16 - nonce_len)"
  have off: "unat ?off = length a + length ct"
    using unat_plus_noof [of "payload_off + 5 + nonce_len" "record_len - 16 - nonce_len"] o' st(7) d
    by simp
  have off': "\<not> ?off > 0x7fffffff"
    unfolding word_less_nat_alt off using d by simp
  have lc: "length (apply_patches ?ps ct) = length ct" by (rule length_apply_patches [OF pv])
  have ld: "skb_load_bytes ?skb1 ?off 16 = Some tag"
    using off' lt lc unfolding skb_load_bytes_def off by simp
  obtain tag' s4 where s4: "tc_ghash_update ?skb1 ?s3 = (skb_store_bytes ?off tag' ?skb1, s4)"
      "valid_tag h aad lens ek (apply_patches ?ps ct) tag'" "tc_tag_pending s4 = tc_tag_pending ?s3"
      "tc_pending s4 = tc_pending ?s3"
    using tc_ghash_update_inline [OF g t, of ?skb1] ld unfolding w by blast
  have lt': "length tag' = 16" using s4(2) by (simp add: valid_tag_def)
  have sto: "skb_store_bytes ?off tag' ?skb1 = skb\<lparr>skb_data := a @ apply_patches ?ps ct @ tag' @ b\<rparr>"
  proof -
    have "put_at (length a + length ct) tag' ((a @ apply_patches ?ps ct) @ tag @ b)
        = (a @ apply_patches ?ps ct) @ put_at 0 tag' tag @ b"
      using put_at_inside [of 0 tag' tag "a @ apply_patches ?ps ct" b] lt lt' lc by simp
    then show ?thesis
      using off' d(2) lt lt' lc unfolding skb_store_bytes_def off by (simp add: put_at_def)
  qed
  have "tc_patch_record True skb seg v payload_off record_len nonce_len s = tc_ghash_update ?skb1 ?s3"
    using big s2(1) st(2,13) tp v(4) by (simp add: tc_patch_record_def Let_def)
  then show ?thesis using s4 tp sto by auto
qed

section \<open>Finding the record in a segment\<close>

text \<open>A TLS record: its type, minor version and body; the bytes of records in a row.\<close>

type_synonym tls_rec = "u8 \<times> u8 \<times> bytes"

definition rec_bytes :: "tls_rec \<Rightarrow> bytes" where
  "rec_bytes r = (case r of (ty, minor, body) \<Rightarrow> tls_hdr ty minor (length body) @ body)"

definition recs_bytes :: "tls_rec list \<Rightarrow> bytes" where
  "recs_bytes rs = concat (map rec_bytes rs)"

definition rec_kind_of :: "tls_rec \<Rightarrow> rec_kind" where
  "rec_kind_of r = (case r of (ty, minor, body) \<Rightarrow> fst (tls_record_hdr_kind (tls_hdr ty minor (length body)) 0))"

definition rec_len :: "tls_rec \<Rightarrow> u32" where
  "rec_len r = of_nat (length (snd (snd r)))"

lemma rec_kind_hdr:
  assumes "length (snd (snd r)) < 65536" "rec_kind_of r = k" "k \<noteq> TLS_REC_INVALID"
  shows "tls_record_hdr_kind (tls_hdr (fst r) (fst (snd r)) (length (snd (snd r)))) x = (k, rec_len r)"
proof -
  obtain ty minor body where r: "r = (ty, minor, body)" by (metis prod_cases3)
  have b: "be16 (tls_hdr ty minor (length body) ! 3) (tls_hdr ty minor (length body) ! 4) = of_nat (length body)"
    using be16_of_nat [of "length body"] assms(1) r by (simp add: tls_hdr_def)
  show ?thesis
    using assms(2,3) b unfolding rec_kind_of_def r
    by (auto simp: tls_record_hdr_kind_def Let_def rec_len_def split: if_splits)
qed

lemma rec_hdr_load:
  assumes "skb_data skb = a @ rec_bytes r @ b" "length (skb_data skb) < 2 ^ 31" "unat off = length a"
  shows "skb_load_bytes skb off 5 = Some (tls_hdr (fst r) (fst (snd r)) (length (snd (snd r))))"
proof -
  obtain ty minor body where r: "r = (ty, minor, body)" by (metis prod_cases3)
  have l: "length (tls_hdr ty minor (length body)) = 5" by (simp add: tls_hdr_def)
  have "\<not> off > 0x7fffffff"
    unfolding word_less_nat_alt assms(3) using assms(1,2) by simp
  then show ?thesis
    unfolding skb_load_bytes_def assms(3) using assms(1) l by (simp add: rec_bytes_def r)
qed

lemma length_rec_bytes: "length (rec_bytes r) = 5 + length (snd (snd r))"
  by (cases r) (auto simp: rec_bytes_def tls_hdr_def)

text \<open>The offset of the record after \<open>r\<close>.\<close>

lemma rec_next_off:
  assumes "skb_data skb = a @ rec_bytes r @ b" "length (skb_data skb) < 2 ^ 31" "unat off = length a"
  shows "unat (off + (5 + rec_len r)) = length (a @ rec_bytes r)"
    and "length (snd (snd r)) < 2 ^ 31"
proof -
  have l: "length a + (5 + length (snd (snd r))) < 2 ^ 31"
    using assms(1,2) by (simp add: length_rec_bytes)
  then show "length (snd (snd r)) < 2 ^ 31" by simp
  have n: "unat (5 + rec_len r) = 5 + length (snd (snd r))"
    using unat_plus_noof [of 5 "rec_len r"] l by (simp add: rec_len_def)
  then show "unat (off + (5 + rec_len r)) = length (a @ rec_bytes r)"
    using unat_plus_noof [of off "5 + rec_len r"] l assms(3) by (simp add: length_rec_bytes)
qed

definition rec_ok :: "tls_rec \<Rightarrow> bool" where
  "rec_ok r \<longleftrightarrow> length (snd (snd r)) < 65536 \<and> rec_kind_of r \<noteq> TLS_REC_INVALID"

lemma tc_first_record_skips:
  assumes "skb_data skb = a @ recs_bytes skips @ rec_bytes r @ b" "length (skb_data skb) < 2 ^ 31"
    and "unat off = length a" "\<forall>q \<in> set skips. rec_ok q \<and> rec_kind_of q = TLS_REC_SKIPPABLE"
    and "rec_ok r" "rec_kind_of r = TLS_REC_APPDATA" "length skips < n"
  shows "\<exists>off'. tc_first_record n skb off x = Some (off', rec_len r)
    \<and> unat off' = length (a @ recs_bytes skips)"
  using assms(1,3,4,7)
proof (induction skips arbitrary: a off x n)
  case Nil
  then obtain m where n: "n = Suc m" by (cases n) auto
  have "skb_load_bytes skb off 5 = Some (tls_hdr (fst r) (fst (snd r)) (length (snd (snd r))))"
    using rec_hdr_load [of skb a r b off] Nil assms(2) by (simp add: recs_bytes_def)
  then show ?case
    using rec_kind_hdr [of r TLS_REC_APPDATA x] assms(5,6) Nil n by (simp add: rec_ok_def recs_bytes_def)
next
  case (Cons q skips)
  then obtain m where n: "n = Suc m" by (cases n) auto
  have d: "skb_data skb = a @ rec_bytes q @ (recs_bytes skips @ rec_bytes r @ b)"
    using Cons.prems(1) by (simp add: recs_bytes_def)
  have q: "rec_ok q" "rec_kind_of q = TLS_REC_SKIPPABLE" using Cons.prems(3) by auto
  have k: "tls_record_hdr_kind (tls_hdr (fst q) (fst (snd q)) (length (snd (snd q)))) x
      = (TLS_REC_SKIPPABLE, rec_len q)"
    using rec_kind_hdr [of q] q by (simp add: rec_ok_def)
  have s: "tc_first_record n skb off x = tc_first_record m skb (off + (5 + rec_len q)) (rec_len q)"
    using rec_hdr_load [OF d assms(2) Cons.prems(2)] k n by simp
  obtain off' where "tc_first_record m skb (off + (5 + rec_len q)) (rec_len q) = Some (off', rec_len r)"
      "unat off' = length ((a @ rec_bytes q) @ recs_bytes skips)"
    using Cons.IH [of "a @ rec_bytes q" "off + (5 + rec_len q)" m "rec_len q"] d
      rec_next_off(1) [OF d assms(2) Cons.prems(2)] Cons.prems(3,4) n by auto
  then show ?case using s by (auto simp: recs_bytes_def)
qed

lemma tc_scan_records_finds:
  assumes "skb_data skb = a @ recs_bytes mids @ rec_bytes r @ b" "length (skb_data skb) < 2 ^ 31"
    and "unat off = length a" "\<forall>q \<in> set mids. rec_ok q"
    and "\<forall>q \<in> set mids. rec_kind_of q = TLS_REC_APPDATA \<longrightarrow> \<not> fst (tls_appdata_reclen_match (rec_len q) pt nl 0)"
    and "rec_ok r" "rec_kind_of r = TLS_REC_APPDATA" "tls_appdata_reclen_match (rec_len r) pt nl 0 = (True, nonce)"
    and "length mids < n"
  shows "\<exists>off'. tc_scan_records n skb off pt nl = Some (off', rec_len r, nonce)
    \<and> unat off' = length (a @ recs_bytes mids)"
  using assms(1,3,4,5,9)
proof (induction mids arbitrary: a off n)
  case Nil
  then obtain m where n: "n = Suc m" by (cases n) auto
  have "skb_load_bytes skb off 5 = Some (tls_hdr (fst r) (fst (snd r)) (length (snd (snd r))))"
    using rec_hdr_load [of skb a r b off] Nil assms(2) by (simp add: recs_bytes_def)
  then show ?case
    using rec_kind_hdr [of r TLS_REC_APPDATA 0] assms(6,7,8) Nil n
    by (simp add: rec_ok_def recs_bytes_def)
next
  case (Cons q mids)
  then obtain m where n: "n = Suc m" by (cases n) auto
  have d: "skb_data skb = a @ rec_bytes q @ (recs_bytes mids @ rec_bytes r @ b)"
    using Cons.prems(1) by (simp add: recs_bytes_def)
  have q: "rec_ok q" "rec_kind_of q = TLS_REC_APPDATA \<longrightarrow> \<not> fst (tls_appdata_reclen_match (rec_len q) pt nl 0)"
    using Cons.prems(3,4) by auto
  obtain k where k: "tls_record_hdr_kind (tls_hdr (fst q) (fst (snd q)) (length (snd (snd q)))) 0
      = (k, rec_len q)" "k = rec_kind_of q" "k \<noteq> TLS_REC_INVALID"
    using rec_kind_hdr [of q "rec_kind_of q" 0] q by (simp add: rec_ok_def)
  have s: "tc_scan_records n skb off pt nl = tc_scan_records m skb (off + (5 + rec_len q)) pt nl"
    using rec_hdr_load [OF d assms(2) Cons.prems(2)] k n q(2)
    by (auto simp: Let_def case_prod_beta)
  obtain off' where "tc_scan_records m skb (off + (5 + rec_len q)) pt nl = Some (off', rec_len r, nonce)"
      "unat off' = length ((a @ rec_bytes q) @ recs_bytes mids)"
    using Cons.IH [of "a @ rec_bytes q" "off + (5 + rec_len q)" m] d
      rec_next_off(1) [OF d assms(2) Cons.prems(2)] Cons.prems(3,4,5) n by auto
  then show ?case using s by (auto simp: recs_bytes_def)
qed

text \<open>
  The records a segment starts with: skippable ones, then at most four that do not carry the
  write (the first of them application data), then the one whose length matches.
\<close>

definition segment_ok :: "tls_rec list \<Rightarrow> tls_rec list \<Rightarrow> tls_rec \<Rightarrow> u32 \<Rightarrow> u32 \<Rightarrow> u32 \<Rightarrow> bool" where
  "segment_ok skips mids r pt nl nonce \<longleftrightarrow>
     length skips \<le> TC_MAX_LEADING_RECORDS \<and> length mids \<le> TC_MAX_SCAN_RECORDS
     \<and> (\<forall>q \<in> set skips. rec_ok q \<and> rec_kind_of q = TLS_REC_SKIPPABLE) \<and> (\<forall>q \<in> set mids. rec_ok q)
     \<and> (mids \<noteq> [] \<longrightarrow> rec_kind_of (hd mids) = TLS_REC_APPDATA)
     \<and> (\<forall>q \<in> set mids. rec_kind_of q = TLS_REC_APPDATA \<longrightarrow> \<not> fst (tls_appdata_reclen_match (rec_len q) pt nl 0))
     \<and> rec_ok r \<and> rec_kind_of r = TLS_REC_APPDATA \<and> tls_appdata_reclen_match (rec_len r) pt nl 0 = (True, nonce)"

lemma tc_finds_record:
  assumes d: "skb_data skb = a @ recs_bytes (skips @ mids) @ rec_bytes r @ b" "length (skb_data skb) < 2 ^ 31"
    and o': "unat off = length a" and ok: "segment_ok skips mids r pt nl nonce"
  shows "\<exists>off1 rlen1 off'. tc_first_record (TC_MAX_LEADING_RECORDS + 1) skb off 0 = Some (off1, rlen1)
    \<and> tc_select_record skb off1 rlen1 pt nl = (off', rec_len r, nonce)
    \<and> unat off' = length (a @ recs_bytes (skips @ mids))"
proof -
  have k: "length skips < TC_MAX_LEADING_RECORDS + 1" "length mids \<le> TC_MAX_SCAN_RECORDS"
    "\<forall>q \<in> set skips. rec_ok q \<and> rec_kind_of q = TLS_REC_SKIPPABLE" "\<forall>q \<in> set mids. rec_ok q"
    "\<forall>q \<in> set mids. rec_kind_of q = TLS_REC_APPDATA \<longrightarrow> \<not> fst (tls_appdata_reclen_match (rec_len q) pt nl 0)"
    "rec_ok r" "rec_kind_of r = TLS_REC_APPDATA" "tls_appdata_reclen_match (rec_len r) pt nl 0 = (True, nonce)"
    using ok by (auto simp: segment_ok_def)
  show ?thesis
  proof (cases mids)
    case Nil
    have d': "skb_data skb = a @ recs_bytes skips @ rec_bytes r @ b" using d(1) Nil by simp
    obtain off' where "tc_first_record (TC_MAX_LEADING_RECORDS + 1) skb off 0 = Some (off', rec_len r)"
        "unat off' = length (a @ recs_bytes skips)"
      using tc_first_record_skips [OF d' d(2) o' k(3,6,7,1)] by blast
    then show ?thesis using k(8) Nil by (auto simp: tc_select_record_def)
  next
    case (Cons q ms)
    have q: "rec_ok q" "rec_kind_of q = TLS_REC_APPDATA" "\<not> fst (tls_appdata_reclen_match (rec_len q) pt nl 0)"
      using ok Cons by (auto simp: segment_ok_def)
    have d1: "skb_data skb = a @ recs_bytes skips @ rec_bytes q @ (recs_bytes ms @ rec_bytes r @ b)"
      using d(1) Cons by (simp add: recs_bytes_def)
    obtain off1 where o1: "tc_first_record (TC_MAX_LEADING_RECORDS + 1) skb off 0 = Some (off1, rec_len q)"
        "unat off1 = length (a @ recs_bytes skips)"
      using tc_first_record_skips [OF d1 d(2) o' k(3) q(1,2) k(1)] by blast
    have d2: "skb_data skb = (a @ recs_bytes skips) @ rec_bytes q @ (recs_bytes ms @ rec_bytes r @ b)"
      using d1 by simp
    have n: "unat (off1 + 5 + rec_len q) = length ((a @ recs_bytes skips) @ rec_bytes q)"
      using rec_next_off(1) [OF d2 d(2) o1(2)] by (simp add: add.assoc)
    have d3: "skb_data skb = ((a @ recs_bytes skips) @ rec_bytes q) @ recs_bytes ms @ rec_bytes r @ b"
      using d2 by simp
    obtain off' where o2: "tc_scan_records TC_MAX_SCAN_RECORDS skb (off1 + 5 + rec_len q) pt nl = Some (off', rec_len r, nonce)"
        "unat off' = length (((a @ recs_bytes skips) @ rec_bytes q) @ recs_bytes ms)"
      using tc_scan_records_finds [OF d3 d(2) n, of pt nl nonce TC_MAX_SCAN_RECORDS] k Cons by auto
    have "pt \<noteq> 0" using k(8) by (auto simp: tls_appdata_reclen_match_def)
    then have "tc_select_record skb off1 (rec_len q) pt nl = (off', rec_len r, nonce)"
      using q(3) o2(1) by (auto simp: tc_select_record_def word_gt_0 split: prod.splits)
    then show ?thesis using o1(1) o2(2) Cons by (auto simp: recs_bytes_def)
  qed
qed

section \<open>The whole program\<close>

lemma tc_first_record_kind:
  "segment_ok skips mids r pt nl nonce \<Longrightarrow> length (snd (snd r)) \<le> 18432 \<and> (nonce = 0 \<or> nonce = 8)"
proof
  assume ok: "segment_ok skips mids r pt nl nonce"
  have r: "length (snd (snd r)) < 65536" "rec_kind_of r = TLS_REC_APPDATA"
    using ok by (auto simp: segment_ok_def rec_ok_def)
  have "rec_len r \<le> 18432"
    using tls_hdr_appdataD(6) [OF rec_kind_hdr [OF r]] by simp
  then show "length (snd (snd r)) \<le> 18432"
    using r(1) by (simp add: rec_len_def word_le_nat_alt)
  show "nonce = 0 \<or> nonce = 8"
    using ok by (auto simp: segment_ok_def tls_appdata_reclen_match_def split: if_splits)
qed

text \<open>What the maps hold when the segment of a staged write leaves.\<close>

definition staged_for :: "'a tc_maps_scheme \<Rightarrow> tcp_seg \<Rightarrow> tc_pending_val \<Rightarrow> gf128 \<Rightarrow> nat \<Rightarrow> bool" where
  "staged_for s seg v h n \<longleftrightarrow>
     tc_tag_pending s (ts_key seg) = None \<and> tc_pending s (ts_key seg) = Some v \<and> tp_active v
     \<and> tc_seq_ok seg v \<and> 5 \<le> ts_payload_len seg \<and> pending_ok n v
     \<and> conn_key_is s (tp_tgid v) (tp_ssl_ptr v) h \<and> length (h_power_entries s) = 16"

lemma tc_egress_patch_record:
  assumes seg: "tc_parse_headers skb = Some seg" "unat (ts_payload_off seg) = length a"
    and d: "skb_data skb = a @ recs_bytes (skips @ mids) @ rec_bytes (0x17, minor, nonce @ ct @ tag) @ b"
    and w: "skb_writable skb" "length (skb_data skb) < 2 ^ 31"
    and st: "staged_for s seg v h (length ct)"
    and ok: "segment_ok skips mids (0x17, minor, nonce @ ct @ tag) (tp_plaintext_len v) (tc_nonce_len v s)
               (of_nat (length nonce))"
    and t: "valid_tag h aad lens ek ct tag"
  shows "\<exists>tag' s'. tc_egress_patch True skb s = (skb\<lparr>skb_data := a @ recs_bytes (skips @ mids)
        @ rec_bytes (0x17, minor, nonce @ apply_patches (pending_patches v) ct @ tag') @ b\<rparr>, s')
    \<and> valid_tag h aad lens ek (apply_patches (pending_patches v) ct) tag'
    \<and> tc_pending s' = (tc_pending s)(ts_key seg \<mapsto> v\<lparr>tp_active := False\<rparr>)
    \<and> tc_tag_pending s' = tc_tag_pending s"
proof -
  let ?r = "(0x17, minor, nonce @ ct @ tag) :: tls_rec" and ?ps = "pending_patches v"
  have s: "tc_tag_pending s (ts_key seg) = None" "tc_pending s (ts_key seg) = Some v" "tp_active v"
     "tc_seq_ok seg v" "\<not> ts_payload_len seg < 5" "pending_ok (length ct) v"
     "conn_key_is s (tp_tgid v) (tp_ssl_ptr v) h" "length (h_power_entries s) = 16"
    using st by (auto simp: staged_for_def not_less)
  have lt: "length tag = 16" using t by (simp add: valid_tag_def)
  have lr: "length nonce + length ct + 16 \<le> 18432" "of_nat (length nonce) = (0 :: u32) \<or> of_nat (length nonce) = (8 :: u32)"
    using tc_first_record_kind [OF ok] lt by auto
  have un: "unat (of_nat (length nonce) :: u32) = length nonce" using lr(1) by simp
  then have n8: "length nonce \<le> 8" using lr(2) by auto
  have rl: "unat (rec_len ?r) = length nonce + length ct + 16"
    using lr(1) lt unat_of_nat_u32 [of "length nonce + length ct + 16"]
    by (simp add: rec_len_def add.assoc)
  obtain off1 rlen1 off' where f: "tc_first_record (TC_MAX_LEADING_RECORDS + 1) skb (ts_payload_off seg) 0 = Some (off1, rlen1)"
    "tc_select_record skb off1 rlen1 (tp_plaintext_len v) (tc_nonce_len v s) = (off', rec_len ?r, of_nat (length nonce))"
    "unat off' = length (a @ recs_bytes (skips @ mids))"
    using tc_finds_record [OF d w(2) seg(2) ok] by blast
  define s1 where "s1 = dbg_inc DBG_TC_MATCH (dbg_inc DBG_TC_ENTRY s)"
  have s1: "tc_pending s1 = tc_pending s" "tc_tag_pending s1 = tc_tag_pending s"
    "conn_key_is s1 (tp_tgid v) (tp_ssl_ptr v) h" "length (h_power_entries s1) = 16"
    "tc_nonce_len v s1 = tc_nonce_len v s"
    using s(7,8) by (simp_all add: s1_def conn_key_is_def tc_nonce_len_def)
  let ?A = "a @ recs_bytes (skips @ mids) @ tls_hdr 0x17 minor (length (nonce @ ct @ tag)) @ nonce"
  have d': "skb_data skb = ?A @ ct @ tag @ b" using d by (simp add: rec_bytes_def)
  have lA: "length ?A < 2 ^ 31" using w(2) d' by simp
  have h5: "length (tls_hdr 0x17 minor (length (nonce @ ct @ tag))) = 5" by (simp add: tls_hdr_def)
  have o5: "unat (off' + 5) = length (a @ recs_bytes (skips @ mids)) + 5"
    using unat_plus_noof [of off' 5] f(3) lA h5 by simp
  have o2: "unat (off' + 5 + of_nat (length nonce)) = length ?A"
    using unat_plus_noof [of "off' + 5" "of_nat (length nonce)"] o5 lA h5 un by simp
  obtain tag' s' where p: "tc_patch_record True skb seg v off' (rec_len ?r) (of_nat (length nonce)) s1
      = (skb\<lparr>skb_data := ?A @ apply_patches ?ps ct @ tag' @ b\<rparr>, s')"
    "valid_tag h aad lens ek (apply_patches ?ps ct) tag'"
    "tc_pending s' = (tc_pending s1)(ts_key seg \<mapsto> v\<lparr>tp_active := False\<rparr>)"
    "tc_tag_pending s' = tc_tag_pending s1"
    using tc_patch_record_ok [OF d' w o2, of "rec_len ?r" v s1 h seg aad lens ek] rl un n8 lr(1) s(2,6) s1 t
    by auto
  have e: "tc_egress_patch True skb s = tc_patch_record True skb seg v off' (rec_len ?r) (of_nat (length nonce)) s1"
    using seg(1) s(1-5) f(1,2) s1(5) unfolding tc_egress_patch_def Let_def s1_def by simp
  have l': "length tag' = 16" "length (apply_patches ?ps ct) = length ct"
    using p(2) s(6) length_apply_patches [of ?ps ct] by (auto simp: valid_tag_def pending_ok_def)
  have "?A @ apply_patches ?ps ct @ tag' @ b = a @ recs_bytes (skips @ mids)
        @ rec_bytes (0x17, minor, nonce @ apply_patches ?ps ct @ tag') @ b"
    using l' lt by (simp add: rec_bytes_def)
  then show ?thesis using e p s1(1,2) by metis
qed

section \<open>What the patch decrypts to\<close>

lemma xor_bytes_cancel: "length a = length b \<Longrightarrow> xor_bytes (xor_bytes a b) b = a"
  by (rule nth_equalityI) (auto simp: xor.assoc)

lemma apply_patch_plain:
  assumes "patch_valid (length pt) p" "length ks = length pt" "length secret = unat (secret_len p)"
    and "take (unat (secret_len p)) (xor_delta p)
      = xor_bytes (bytes_at pt (unat (secret_offset p)) (unat (secret_len p))) secret"
  shows "xor_bytes (apply_patch p (xor_bytes pt ks)) ks = put_at (unat (secret_offset p)) secret pt"
proof (rule nth_equalityI)
  let ?o = "unat (secret_offset p)" and ?l = "unat (secret_len p)"
  have v: "?o + ?l \<le> length pt" "length (xor_delta p) = 128" "?l \<le> 128" "secret_len p \<noteq> 0" "patch_len p = ?l"
    using assms(1) patch_valid_len by (auto simp: patch_valid_def)
  have la: "length (apply_patch p (xor_bytes pt ks)) = length pt"
    using length_apply_patch [of "xor_bytes pt ks" p] assms(1,2) by simp
  then show "length (xor_bytes (apply_patch p (xor_bytes pt ks)) ks) = length (put_at ?o secret pt)"
    using assms(2,3) v(1) by simp
  fix i assume "i < length (xor_bytes (apply_patch p (xor_bytes pt ks)) ks)"
  then have i: "i < length pt" using la assms(2) by simp
  have x: "apply_patch p (xor_bytes pt ks) = xor_at ?o (take ?l (xor_delta p)) (xor_bytes pt ks)"
    using v(4,5) by (simp add: apply_patch_def)
  have dl: "take ?l (xor_delta p) ! j = pt ! (?o + j) XOR secret ! j" if "j < ?l" for j
    using that assms(3) v(1) unfolding assms(4) by (simp add: bytes_at_def)
  have "apply_patch p (xor_bytes pt ks) ! i
      = (if ?o \<le> i \<and> i < ?o + ?l then pt ! i XOR ks ! i XOR take ?l (xor_delta p) ! (i - ?o) else pt ! i XOR ks ! i)"
    unfolding x using i assms(2) v(1-3) by (simp add: nth_xor_at min_def) (auto simp: xor.assoc)
  then show "xor_bytes (apply_patch p (xor_bytes pt ks)) ks ! i = put_at ?o secret pt ! i"
    using i la assms(2,3) v(1) dl [of "i - ?o"] by (simp add: nth_put_at) (auto simp: ac_simps)
qed

section \<open>Properties\<close>

text \<open>
  C5: the egress patch is transparent to TLS. When a segment of a connection with a staged write
  leaves, and its TLS records are up to four ChangeCipherSpec, alert or handshake records, up to
  four records that are not the staged write, and the application data record of the write
  (TLS 1.2 with its explicit nonce or TLS 1.3), then exactly that record is changed: every staged
  patch is applied to its ciphertext, its tag becomes the tag of the patched ciphertext for the
  same associated data and nonce, every other byte stays, and the entry is used up.
\<close>

theorem tc_egress_patch_correct:
  assumes "tc_parse_headers skb = Some seg" "unat (ts_payload_off seg) = length a"
    and "skb_data skb = a @ recs_bytes (skips @ mids) @ rec_bytes (0x17, minor, nonce @ ct @ tag) @ b"
    and "skb_writable skb" "length (skb_data skb) < 2 ^ 31"
    and "staged_for s seg v h (length ct)"
    and "segment_ok skips mids (0x17, minor, nonce @ ct @ tag) (tp_plaintext_len v) (tc_nonce_len v s)
           (of_nat (length nonce))"
    and "valid_tag h aad lens ek ct tag"
  shows "\<exists>tag' s'. tc_egress_patch True skb s = (skb\<lparr>skb_data := a @ recs_bytes (skips @ mids)
        @ rec_bytes (0x17, minor, nonce @ apply_patches (pending_patches v) ct @ tag') @ b\<rparr>, s')
    \<and> valid_tag h aad lens ek (apply_patches (pending_patches v) ct) tag'
    \<and> tc_pending s' (ts_key seg) = Some (v\<lparr>tp_active := False\<rparr>)"
  using tc_egress_patch_record [OF assms] by (metis fun_upd_same)

text \<open>
  A patch whose delta is placeholder xor secret turns the ciphertext of a plaintext with the
  placeholder into the ciphertext, under the same key stream, of that plaintext with the secret in
  its place and nothing else changed.
\<close>

theorem apply_patch_reveals_secret:
  assumes "patch_valid (length pt) p" "length ks = length pt" "length secret = unat (secret_len p)"
    and "take (unat (secret_len p)) (xor_delta p)
      = xor_bytes (bytes_at pt (unat (secret_offset p)) (unat (secret_len p))) secret"
  shows "xor_bytes (apply_patch p (xor_bytes pt ks)) ks = put_at (unat (secret_offset p)) secret pt"
  by (rule apply_patch_plain [OF assms])

theorem apply_patch_reveals_secret_witness:
  "xor_bytes (apply_patch (no_patch\<lparr>secret_offset := 1, secret_len := 2,
       xor_delta := [3, 5] @ replicate 126 0\<rparr>) (xor_bytes [1, 2, 4, 8] [9, 9, 9, 9])) [9, 9, 9, 9]
   = [1, 1, 1, 8]"
proof -
  let ?p = "no_patch\<lparr>secret_offset := 1, secret_len := 2, xor_delta := [3, 5] @ replicate 126 0\<rparr>"
  have v: "patch_valid (length ([1, 2, 4, 8] :: bytes)) ?p" by (simp add: patch_valid_def)
  have t: "take (unat (secret_len ?p)) (xor_delta ?p)
      = xor_bytes (bytes_at [1, 2, 4, 8] (unat (secret_offset ?p)) (unat (secret_len ?p))) [1, 1]"
    by (simp add: bytes_at_def xor_bytes_def)
  have "xor_bytes (apply_patch ?p (xor_bytes [1, 2, 4, 8] [9, 9, 9, 9])) [9, 9, 9, 9]
      = put_at (unat (secret_offset ?p)) [1, 1] [1, 2, 4, 8]"
    by (rule apply_patch_reveals_secret [OF v _ _ t]) simp_all
  then show ?thesis by (simp add: put_at_def)
qed

text \<open>
  a packet of a connection with nothing staged leaves unchanged: without an entry for its
  destination, source port and cgroup, or with one already used or of another part of the stream,
  and without a waiting tag, no byte is written and no map but the counters changes.
\<close>

theorem tc_egress_patch_unstaged:
  assumes "\<And>seg. tc_parse_headers skb = Some seg \<Longrightarrow> tc_tag_pending s (ts_key seg) = None
    \<and> (case tc_pending s (ts_key seg) of None \<Rightarrow> True | Some v \<Rightarrow> \<not> tp_active v \<or> \<not> tc_seq_ok seg v)"
  shows "tc_egress_patch tail skb s = (skb, dbg_inc DBG_TC_ENTRY s)"
proof (cases "tc_parse_headers skb")
  case None
  then show ?thesis by (simp add: tc_egress_patch_def Let_def)
next
  case (Some seg)
  then show ?thesis
    using assms [OF Some] by (auto simp: tc_egress_patch_def Let_def split: option.splits)
qed

text \<open>
  A waiting tag is corrected in the segment that holds all its 16 bytes: exactly these bytes
  are exclusive-ored with the recorded delta, and the entry is removed.
\<close>

theorem tc_deferred_tag_applied:
  assumes "tc_parse_headers skb = Some seg" "tc_tag_pending s (ts_key seg) = Some t"
    and "skb_data skb = a @ tag @ b" "length tag = 16" "skb_writable skb" "length (skb_data skb) < 2 ^ 31"
    and "ts_pkt_seq seg \<le> tv_tag_tcp_seq t" "tv_tag_tcp_seq t + 16 \<le> ts_pkt_seq seg + ts_payload_len seg"
    and "unat (ts_payload_off seg) + (unat (tv_tag_tcp_seq t) - unat (ts_pkt_seq seg)) = length a"
    and "length (tv_tag_delta t) = 16"
  shows "\<exists>s'. tc_egress_patch tail skb s = (skb\<lparr>skb_data := a @ xor_bytes tag (tv_tag_delta t) @ b\<rparr>, s')
    \<and> tc_tag_pending s' = map_del (ts_key seg) (tc_tag_pending s) \<and> tc_pending s' = tc_pending s"
proof -
  let ?off = "ts_payload_off seg + (tv_tag_tcp_seq t - ts_pkt_seq seg)"
  have off: "unat ?off = length a"
    using unat_plus_noof [of "ts_payload_off seg" "tv_tag_tcp_seq t - ts_pkt_seq seg"] assms(3,6,9)
      unat_minus_noof [OF assms(7)] by simp
  have off': "\<not> ?off > 0x7fffffff"
    unfolding word_less_nat_alt off using assms(3,6) by simp
  have ld: "skb_load_bytes skb ?off 16 = Some tag"
    using off' assms(3,4) unfolding skb_load_bytes_def off by simp
  have st: "skb_store_bytes ?off (xor_bytes tag (tv_tag_delta t)) skb
      = skb\<lparr>skb_data := a @ xor_bytes tag (tv_tag_delta t) @ b\<rparr>"
    using off' assms(3,4,5,10) unfolding skb_store_bytes_def off by (simp add: put_at_def)
  show ?thesis
    using assms(1,2,7,8) ld st
    by (simp add: tc_egress_patch_def tc_deferred_tag_def Let_def)
qed

text \<open>While a tag waits for a connection, a segment whose numbers do not cover it passes, and the entry stays.\<close>

lemma tc_deferred_tag_blocks:
  assumes "tc_parse_headers skb = Some seg" "tc_tag_pending s (ts_key seg) = Some t"
    and "tv_tag_tcp_seq t < ts_pkt_seq seg
      \<or> ts_pkt_seq seg + ts_payload_len seg < tv_tag_tcp_seq t + 16"
  shows "tc_egress_patch tail skb s = (skb, dbg_inc DBG_TC_ENTRY s)"
  using assms by (auto simp: tc_egress_patch_def tc_deferred_tag_def Let_def not_le)

text \<open>
  C34: the size check of a patch leaves its offset out. A patch whose secret is no longer than the
  ciphertext is applied wherever it lies in the packet, also past the end of the ciphertext (on the
  tag, or in the bytes after the record).
\<close>

theorem tc_apply_patch_ignores_offset:
  assumes "skb_data skb = a @ ct @ b" "skb_writable skb" "length (skb_data skb) < 2 ^ 31"
    and "unat (payload_off + 5 + nonce_len) = length a"
    and "unat record_len = 16 + unat nonce_len + length ct" "unat nonce_len \<le> 8"
    and "q = xp_patches (staged_pending (ghash_scratch s)) ! p" "length (xor_delta q) = 128"
    and "1 \<le> unat (secret_len q)" "unat (secret_len q) \<le> 128" "unat (secret_len q) \<le> length ct"
    and "length ct \<le> unat (secret_offset q)"
    and "unat (secret_offset q) + unat (secret_len q) \<le> length ct + length b"
  shows "\<exists>s'. tc_apply_patch payload_off record_len nonce_len p (skb, s, k)
      = (skb\<lparr>skb_data := a @ ct @ xor_at (unat (secret_offset q) - length ct)
           (take (unat (secret_len q)) (xor_delta q)) b\<rparr>, s', Suc k)"
proof -
  let ?o = "unat (secret_offset q)" and ?l = "unat (secret_len q)" and ?lw = "secret_len q"
  have cl: "clamp_write_len ?lw = ?lw" using assms(9,10) by (intro clamp_write_len_id) auto
  have n1: "unat (16 + nonce_len) = 16 + unat nonce_len"
    using unat_plus_noof [of 16 nonce_len] assms(6) by simp
  have n2: "unat (16 + nonce_len + ?lw) = 16 + unat nonce_len + ?l"
    using unat_plus_noof [of "16 + nonce_len" ?lw] n1 assms(6,10) by simp
  then have c: "\<not> record_len < 16 + nonce_len + ?lw"
    unfolding word_less_nat_alt n2 assms(5) using assms(11) by simp
  have po: "unat (payload_off + 5 + nonce_len + secret_offset q) = length a + ?o"
    using unat_plus_noof [of "payload_off + 5 + nonce_len" "secret_offset q"] assms(1,3,4,13) by simp
  have po': "\<not> payload_off + 5 + nonce_len + secret_offset q > 0x7fffffff"
    unfolding word_less_nat_alt po using assms(1,3,13) by simp
  have dl: "length (take ?l (xor_delta q)) = ?l" using assms(8,10) by simp
  have ld: "skb_load_bytes skb (payload_off + 5 + nonce_len + secret_offset q) ?l
      = Some (take ?l (drop (?o - length ct) b))"
    using po' assms(12,13) unfolding skb_load_bytes_def po assms(1) by simp
  have lc: "length (xor_bytes (take ?l (drop (?o - length ct) b)) (take ?l (xor_delta q))) = ?l"
    using assms(8,10,12,13) by simp
  have st: "skb_store_bytes (payload_off + 5 + nonce_len + secret_offset q)
        (xor_bytes (take ?l (drop (?o - length ct) b)) (take ?l (xor_delta q))) skb
      = skb\<lparr>skb_data := a @ ct @ xor_at (?o - length ct) (take ?l (xor_delta q)) b\<rparr>"
    using po' assms(2,12,13) lc dl unfolding skb_store_bytes_def po assms(1)
    by (simp add: put_at_def xor_at_def)
  show ?thesis
    using c cl ld st assms(7) by (simp add: tc_apply_patch_def Let_def)
qed

section \<open>A concrete segment\<close>

text \<open>
  IPv4 and TCP from port 0x1234 to 10.0.0.1: a ChangeCipherSpec record and a TLS 1.3 record of 31
  bytes of plaintext.
\<close>

definition example_ip :: "nat \<Rightarrow> bytes" where
  "example_ip n = [0, 0, 0, 0, 0, 0, 0, 0, 0, 0, 0, 0, 8, 0] @ [0x45, 0, 0, of_nat n, 0, 0, 0, 0, 64, 6, 0, 0, 10, 0, 0, 2, 10, 0, 0, 1]
     @ [0x12, 0x34, 1, 187, 0, 0, 3, 232, 0, 0, 0, 0, 0x50, 0, 0, 0, 0, 0, 0, 0]"

definition example_segment :: "bytes \<Rightarrow> sk_buff" where
  "example_segment payload = \<lparr>skb_data = example_ip (40 + length payload) @ payload,
     skb_headlen = 54, skb_protocol = 8, skb_sk = None, skb_cgroup_id = 3, skb_writable = True\<rparr>"

definition example_seg :: "nat \<Rightarrow> tcp_seg" where
  "example_seg n = \<lparr>ts_key = \<lparr>dk_dst_ip = replicate 10 0 @ [0xff, 0xff, 10, 0, 0, 1],
       dk_src_port = 0x3412, dk_cgroup_id = 3\<rparr>,
     ts_pkt_seq = 1000, ts_payload_off = 54, ts_payload_len = of_nat n\<rparr>"

definition example_pending :: tc_pending_val where
  "example_pending = \<lparr>tp_tgid = 7, tp_ssl_ptr = 9, tp_patch_count = 1,
     tp_patches = [example_patch, no_patch, no_patch, no_patch], tp_active = True,
     tp_plaintext_len = 31, tp_write_seq = 1000\<rparr>"

definition example_tc :: tc_maps where
  "example_tc = example_maps\<lparr>tc_pending := [ts_key (example_seg 0) \<mapsto> example_pending]\<rparr>"

definition example_tag_maps :: tc_maps where
  "example_tag_maps = example_maps\<lparr>tc_tag_pending := [ts_key (example_seg 0) \<mapsto>
     \<lparr>tv_tag_delta = replicate 16 5, tv_tag_tcp_seq = 1010\<rparr>]\<rparr>"

lemma example_parse:
  assumes "length payload < 200"
  shows "tc_parse_headers (example_segment payload) = Some (example_seg (length payload))"
proof -
  have "be16 0 (of_nat (40 + length payload)) = of_nat (40 + length payload)"
    using be16_of_nat [of "40 + length payload"] assms by simp
  moreover have "le_word [8, 0] = (8 :: u16)" "le_word [0x12, 0x34] = (0x3412 :: u16)"
    "be_word [0, 0, 3, 232] = (1000 :: u32)" "bswap16 ETH_P_IP = 8" "bswap16 ETH_P_IPV6 = 0xDD86"
    "drop_bit 4 (0x50 :: u8) = 5" "(0x45 :: u8) AND 0xF = 5"
    by code_simp+
  ultimately show ?thesis
    by (simp add: tc_parse_headers_def tc_l3_off_def tc_ip_header_def example_segment_def example_ip_def
      example_seg_def Let_def bytes_at_def ipv4_to_mapped_def)
qed

lemma example_staged: "staged_for example_tc (example_seg 59) example_pending 1 32"
  by (simp add: staged_for_def example_tc_def example_maps_def example_pending_def example_seg_def
    tc_seq_ok_def pending_ok_def pending_patches_def conn_key_is_def XOR_MAX_PATCHES_def gf_of_identity
    patch_valid_def example_patch_def no_patch_def Let_def word_less_nat_alt word_le_nat_alt)

lemma example_records:
  assumes "length body = 48"
  shows "segment_ok [(0x14, 3, [1])] [] (0x17, 3, body) 31 0 0"
proof -
  have "tls_hdr 0x14 3 1 = [0x14, 3, 3, 0, 1]" "tls_hdr 0x17 3 48 = [0x17, 3, 3, 0, 48]"
    "be16 0 1 = 1" "be16 0 48 = 48"
    by (simp_all add: tls_hdr_def be16_def)
  then show ?thesis
    using assms by (simp add: segment_ok_def rec_ok_def rec_kind_of_def rec_len_def tls_record_hdr_kind_def
      tls_appdata_reclen_match_def tls_consts Let_def TC_MAX_LEADING_RECORDS_def)
qed

theorem tc_egress_patch_correct_witness:
  "\<exists>ek tag' s'. valid_tag 1 [5] (replicate 16 2) ek (replicate 32 9) (replicate 16 1)
    \<and> tc_egress_patch True (example_segment (recs_bytes [(0x14, 3, [1]), (0x17, 3, replicate 32 9 @ replicate 16 1)]))
        example_tc
      = (example_segment (recs_bytes [(0x14, 3, [1]), (0x17, 3, apply_patch example_patch (replicate 32 9) @ tag')]), s')
    \<and> valid_tag 1 [5] (replicate 16 2) ek (apply_patch example_patch (replicate 32 9)) tag'"
proof -
  define ek where "ek = gf_of (replicate 16 1) - tag_hash gf_of 1 [5] (replicate 32 9) (replicate 16 2)"
  have v: "valid_tag 1 [5] (replicate 16 2) ek (replicate 32 9) (replicate 16 1)"
    by (simp add: valid_tag_def ek_def)
  let ?pl = "recs_bytes [(0x14, 3, [1]), (0x17, 3, replicate 32 9 @ replicate 16 1)]"
  let ?skb = "example_segment ?pl"
  have l: "length ?pl = 59" by (simp add: recs_bytes_def rec_bytes_def tls_hdr_def)
  have p: "tc_parse_headers ?skb = Some (example_seg 59)"
    using example_parse [of ?pl] unfolding l by simp
  have d: "skb_data ?skb = example_ip 99 @ recs_bytes ([(0x14, 3, [1])] @ [])
      @ rec_bytes (0x17, 3, [] @ replicate 32 9 @ replicate 16 1) @ []"
    unfolding example_segment_def l by (simp add: recs_bytes_def)
  have n: "length (example_ip 99) = 54" by (simp add: example_ip_def)
  have pp: "pending_patches example_pending = [example_patch]"
    by (simp add: pending_patches_def example_pending_def)
  obtain tag' s' where r: "tc_egress_patch True ?skb example_tc = (?skb\<lparr>skb_data := example_ip 99
        @ recs_bytes ([(0x14, 3, [1])] @ []) @ rec_bytes (0x17, 3, [] @ apply_patches [example_patch] (replicate 32 9) @ tag')
        @ []\<rparr>, s')"
      "valid_tag 1 [5] (replicate 16 2) ek (apply_patches [example_patch] (replicate 32 9)) tag'"
    using tc_egress_patch_correct [OF p _ d, of example_tc example_pending 1 "[5]" "replicate 16 2" ek]
      example_staged example_records [of "replicate 32 9 @ replicate 16 1"] v n l
    unfolding pp
    by (auto simp: example_segment_def example_seg_def tc_nonce_len_def example_tc_def example_maps_def
      example_pending_def TLS_NONCE_UNKNOWN_def)
  have "length (apply_patch example_patch (replicate 32 9)) = 32" "length tag' = 16"
    using r(2) length_apply_patch [of "replicate 32 9" example_patch]
    by (simp_all add: valid_tag_def patch_valid_def example_patch_def no_patch_def)
  then have "?skb\<lparr>skb_data := example_ip 99
        @ recs_bytes ([(0x14, 3, [1])] @ []) @ rec_bytes (0x17, 3, [] @ apply_patches [example_patch] (replicate 32 9) @ tag')
        @ []\<rparr> = example_segment (recs_bytes [(0x14, 3, [1]), (0x17, 3, apply_patch example_patch (replicate 32 9) @ tag')])"
    by (simp add: example_segment_def recs_bytes_def rec_bytes_def tls_hdr_def apply_patches_def)
  with r v show ?thesis by (auto simp: apply_patches_def)
qed

theorem tc_egress_patch_unstaged_witness:
  "tc_egress_patch True (example_segment (replicate 59 7)) example_maps
    = (example_segment (replicate 59 7), dbg_inc DBG_TC_ENTRY example_maps)"
  by (rule tc_egress_patch_unstaged) (simp add: example_maps_def)

theorem tc_deferred_tag_applied_witness:
  "\<exists>s'. tc_egress_patch True (example_segment (replicate 10 4 @ replicate 16 1 @ [3])) example_tag_maps
      = (example_segment (replicate 10 4 @ replicate 16 4 @ [3]), s')"
proof -
  let ?pl = "replicate 10 4 @ replicate 16 1 @ [3] :: bytes"
  have "tc_parse_headers (example_segment ?pl) = Some (example_seg 27)"
    using example_parse [of ?pl] by simp
  moreover have "xor_bytes (replicate 16 1) (replicate 16 5) = replicate 16 4"
    by code_simp
  ultimately show ?thesis
    using tc_deferred_tag_applied [of "example_segment ?pl" "example_seg 27" example_tag_maps
        "\<lparr>tv_tag_delta = replicate 16 5, tv_tag_tcp_seq = 1010\<rparr>"
        "example_ip 67 @ replicate 10 4" "replicate 16 1" "[3]" True]
    by (auto simp: example_tag_maps_def example_maps_def example_seg_def example_segment_def example_ip_def)
qed

theorem tc_apply_patch_ignores_offset_witness:
  "\<exists>s'. tc_apply_patch 0 20 0 0 (\<lparr>skb_data = replicate 5 1 @ replicate 4 2 @ replicate 20 3, skb_headlen = 0,
        skb_protocol = 8, skb_sk = None, skb_cgroup_id = 3, skb_writable = True\<rparr>,
      upd_work (\<lambda>w. w\<lparr>staged_pending := (staged_pending w)\<lparr>xp_patches := [no_patch\<lparr>secret_offset := 6, secret_len := 2,
        xor_delta := replicate 128 1\<rparr>]\<rparr>\<rparr>) example_maps, 0)
    = (\<lparr>skb_data = replicate 5 1 @ replicate 4 2 @ [3, 3, 2, 2] @ replicate 16 3, skb_headlen = 0,
        skb_protocol = 8, skb_sk = None, skb_cgroup_id = 3, skb_writable = True\<rparr>, s', 1)"
proof -
  let ?q = "no_patch\<lparr>secret_offset := 6, secret_len := 2, xor_delta := replicate 128 1\<rparr>"
  have x: "xor_at 2 (replicate 2 1) (replicate 20 3) = 3 # 3 # 2 # 2 # (replicate 16 3 :: bytes)"
    by code_simp
  show ?thesis
    using tc_apply_patch_ignores_offset [of "\<lparr>skb_data = replicate 5 1 @ replicate 4 2 @ replicate 20 3,
        skb_headlen = 0, skb_protocol = 8, skb_sk = None, skb_cgroup_id = 3, skb_writable = True\<rparr>"
        "replicate 5 1" "replicate 4 2" "replicate 20 3" 0 0 20 ?q
        "upd_work (\<lambda>w. w\<lparr>staged_pending := (staged_pending w)\<lparr>xp_patches := [?q]\<rparr>\<rparr>) example_maps" 0 0]
    by (simp add: no_patch_def x)
qed

end
