(* ===== verification/Process_Track.thy ===== *)
theory Process_Track
  imports State Tc_Egress
begin

text \<open>
  The programs that follow processes and connections: the connect and close tracepoints, the
  process tracepoints, the fd behind an SSL object, and the binding of secrets to containers
  (\<open>secret_binding_allows\<close>, \<open>report_secret_event\<close>).

  A program is a function of its environment, the configuration where it reads it, its context
  arguments and the maps. A failed \<open>bpf_probe_read_user\<close> leaves zeros, so a result the code does not
  check is read as such.
\<close>

section \<open>What user memory holds\<close>

definition maps_to :: "umem \<Rightarrow> u64 \<Rightarrow> bytes \<Rightarrow> bool" where
  "maps_to mem a bs \<longleftrightarrow> (\<forall>i < length bs. mem (a + of_nat i) = Some (bs ! i))"

lemma maps_to_Nil [simp]: "maps_to mem a []"
  by (simp add: maps_to_def)

lemma maps_to_append: "maps_to mem a (xs @ ys) \<longleftrightarrow> maps_to mem a xs \<and> maps_to mem (a + of_nat (length xs)) ys"
proof
  assume h: "maps_to mem a (xs @ ys)"
  have "mem (a + of_nat (length xs + i)) = Some (ys ! i)" if "i < length ys" for i
    using h that unfolding maps_to_def by (metis add_less_cancel_left length_append nth_append_length_plus)
  then show "maps_to mem a xs \<and> maps_to mem (a + of_nat (length xs)) ys"
    using h by (auto simp: maps_to_def nth_append add.assoc dest: spec [of _ "_ :: nat"])
next
  assume h: "maps_to mem a xs \<and> maps_to mem (a + of_nat (length xs)) ys"
  show "maps_to mem a (xs @ ys)"
    unfolding maps_to_def
  proof (intro allI impI)
    fix i assume "i < length (xs @ ys)"
    then show "mem (a + of_nat i) = Some ((xs @ ys) ! i)"
    proof (cases "i < length xs")
      case False
      then obtain j where "i = length xs + j" by (metis le_Suc_ex not_less)
      then show ?thesis using h \<open>i < length (xs @ ys)\<close> by (simp add: maps_to_def add.assoc)
    qed (use h in \<open>simp add: maps_to_def nth_append\<close>)
  qed
qed

lemma maps_to_read: "maps_to mem a bs \<Longrightarrow> n = length bs \<Longrightarrow> probe_read_user mem n a = (True, bs)"
  by (auto simp: probe_read_user_def maps_to_def list_all_iff intro: nth_equalityI)

lemma maps_to_read_word: "maps_to mem a bs \<Longrightarrow> n = length bs \<Longrightarrow> read_user_word mem n a = (True, le_word bs)"
  by (simp add: read_user_word_def maps_to_read)

lemma probe_read_user_maps: "probe_read_user mem n a = (True, bs) \<longleftrightarrow> length bs = n \<and> maps_to mem a bs"
proof
  assume h: "probe_read_user mem n a = (True, bs)"
  then have m: "\<forall>i < n. mem (a + of_nat i) \<noteq> None" by (auto simp: probe_read_user_def list_all_iff split: if_splits)
  then show "length bs = n \<and> maps_to mem a bs"
    using h by (auto simp: probe_read_user_def maps_to_def split: if_splits)
qed (auto dest: maps_to_read)

text \<open>A memory made of one block, and of two.\<close>

definition mem_block :: "u64 \<Rightarrow> bytes \<Rightarrow> umem" where
  "mem_block a bs x = (if unat (x - a) < length bs then Some (bs ! unat (x - a)) else None)"

lemma maps_to_block: "length bs < 2 ^ 64 \<Longrightarrow> maps_to (mem_block a bs) a bs"
  by (simp add: maps_to_def mem_block_def unat_of_nat)

section \<open>Frame facts\<close>

lemma dbg_inc_kmaps [simp]:
  "secret_binding_events (dbg_inc i s) = secret_binding_events s"
  "proc_events (dbg_inc i s) = proc_events s"
  "tracked_tgids (dbg_inc i s) = tracked_tgids s"
  "tracked_cgroups (dbg_inc i s) = tracked_cgroups s"
  "conn_ip_map (dbg_inc i s) = conn_ip_map s"
  "connect_pending (dbg_inc i s) = connect_pending s"
  "evp_init_scratch (dbg_inc i s) = evp_init_scratch s"
  "evp_h_cache (dbg_inc i s) = evp_h_cache s"
  "xor_pending (dbg_inc i s) = xor_pending s"
  "scratch (dbg_inc i s) = scratch s"
  "sni_state (dbg_inc i s) = sni_state s"
  "vip_upstream (dbg_inc i s) = vip_upstream s"
  "vip_sock (dbg_inc i s) = vip_sock s"
  "vip_sock_host (dbg_inc i s) = vip_sock_host s"
  "vip_sock_dst (dbg_inc i s) = vip_sock_dst s"
  by (simp_all add: dbg_inc_def)

section \<open>The code: connections\<close>

definition read_user_u16 :: "kenv \<Rightarrow> u64 \<Rightarrow> u16" where
  "read_user_u16 e a = snd (read_user_word (ke_mem e) 2 a)"

definition tp_enter_connect :: "kenv \<Rightarrow> u64 \<Rightarrow> u64 \<Rightarrow> kmaps \<Rightarrow> kmaps" where
  "tp_enter_connect e fd addr_ptr s =
     (if addr_ptr = 0 then s
      else let sa_family = read_user_u16 e addr_ptr;
               put = (\<lambda>v. s\<lparr>connect_pending :=
                        map_put (ke_room e CONNECT_PENDING) (ke_pid_tgid e) v (connect_pending s)\<rparr>)
           in if sa_family = 2 then
                put \<lparr>cp_fd = ucast fd, cp_ip = ipv4_to_mapped (snd (probe_read_user (ke_mem e) 4 (addr_ptr + 4))),
                     cp_port = read_user_u16 e (addr_ptr + 2)\<rparr>
              else if sa_family = 10 then
                put \<lparr>cp_fd = ucast fd, cp_ip = snd (probe_read_user (ke_mem e) 16 (addr_ptr + 8)),
                     cp_port = read_user_u16 e (addr_ptr + 2)\<rparr>
              else s)"

definition tp_exit_connect :: "kenv \<Rightarrow> u64 \<Rightarrow> kmaps \<Rightarrow> kmaps" where
  "tp_exit_connect e ret s =
     (case connect_pending s (ke_pid_tgid e) of
        None \<Rightarrow> s
      | Some p \<Rightarrow>
          let s = s\<lparr>connect_pending := map_del (ke_pid_tgid e) (connect_pending s)\<rparr>
          in if ret \<noteq> 0 \<and> ret \<noteq> - 115 then s
             else s\<lparr>conn_ip_map := (conn_ip_map s)(\<lparr>cik_tgid = cur_tgid e, cik_fd = cp_fd p\<rparr> \<mapsto>
                      \<lparr>civ_ip = cp_ip p, civ_port = cp_port p\<rparr>)\<rparr>)"

definition tp_enter_close :: "kenv \<Rightarrow> u64 \<Rightarrow> kmaps \<Rightarrow> kmaps" where
  "tp_enter_close e fd s =
     s\<lparr>conn_ip_map := map_del \<lparr>cik_tgid = cur_tgid e, cik_fd = ucast fd\<rparr> (conn_ip_map s)\<rparr>"

definition SSL_WBIO_OFFSET_FALLBACK :: u32 where "SSL_WBIO_OFFSET_FALLBACK = 88"
definition BIO_NUM_OFFSET :: u64 where "BIO_NUM_OFFSET = 56"

text \<open>
  The offsets of the calling binary that are calibrated (\<open>ok\<close>), else those pushed for every binary
  of the container (\<open>exe_inode = 0\<close>): the lookup shared by the programs that walk TLS objects.
\<close>

definition binary_offsets :: "config \<Rightarrow> kenv \<Rightarrow> (tls_offsets \<Rightarrow> bool) \<Rightarrow> tls_offsets option" where
  "binary_offsets cfg e ok =
     (let look = (\<lambda>ino. case tls_offset_config cfg \<lparr>bk_cgroup_id = ke_cgroup_id e, bk_exe_inode = ino\<rparr> of
                   None \<Rightarrow> None | Some off \<Rightarrow> if ok off then Some off else None)
      in case look (ke_exe_inode e) of None \<Rightarrow> look 0 | r \<Rightarrow> r)"

definition resolve_wbio_offset :: "config \<Rightarrow> kenv \<Rightarrow> u32" where
  "resolve_wbio_offset cfg e =
     (case binary_offsets cfg e (\<lambda>off. ssl_to_wbio off \<noteq> 0) of
        None \<Rightarrow> SSL_WBIO_OFFSET_FALLBACK | Some off \<Rightarrow> ssl_to_wbio off)"

text \<open>The checked read of a pointer: \<open>bpf_probe_read_user(&p, 8, a) < 0 || !p\<close> fails.\<close>

definition read_user_ptr :: "kenv \<Rightarrow> u64 \<Rightarrow> u64 option" where
  "read_user_ptr e a =
     (let (ok, p) = read_user_word (ke_mem e) 8 a in if \<not> ok \<or> p = 0 then None else Some p)"

definition ssl_read_fd :: "config \<Rightarrow> kenv \<Rightarrow> u64 \<Rightarrow> u32" where
  "ssl_read_fd cfg e ssl_ptr =
     (if ssl_ptr = 0 then 0
      else case read_user_ptr e (ssl_ptr + ucast (resolve_wbio_offset cfg e)) of
             None \<Rightarrow> 0
           | Some wbio \<Rightarrow> snd (read_user_word (ke_mem e) 4 (wbio + BIO_NUM_OFFSET)))"

section \<open>The code: processes\<close>

definition tp_sched_process_exec :: "kenv \<Rightarrow> bool \<Rightarrow> u32 \<Rightarrow> kmaps \<Rightarrow> kmaps" where
  "tp_sched_process_exec e under_ancestor tgid s =
     (if \<not> under_ancestor then s
      else let s = s\<lparr>tracked_tgids := map_put (ke_room e TRACKED_TGIDS) tgid 1 (tracked_tgids s)\<rparr>;
               s = s\<lparr>tracked_cgroups := map_put (ke_room e TRACKED_CGROUPS) (ke_cgroup_id e) 1 (tracked_cgroups s)\<rparr>
           in if ke_ring e (length (proc_events s))
              then s\<lparr>proc_events := proc_events s @ [\<lparr>pe_tgid = tgid, pe_type = 1, pe_cgroup_id = ke_cgroup_id e\<rparr>]\<rparr>
              else s)"

definition tp_sched_process_exit :: "u32 \<Rightarrow> kmaps \<Rightarrow> kmaps" where
  "tp_sched_process_exit tgid s = s\<lparr>tracked_tgids := map_del tgid (tracked_tgids s)\<rparr>"

section \<open>The code: secret bindings\<close>

definition report_secret_event ::
  "kenv \<Rightarrow> secret_key \<Rightarrow> bool \<Rightarrow> secret_evt_reason \<Rightarrow> sni_status \<Rightarrow> bool \<Rightarrow> bytes option \<Rightarrow> kmaps \<Rightarrow> kmaps" where
  "report_secret_event e key audit reason status memory_bio sni s =
     (if ke_ring e (length (secret_binding_events s)) then
        s\<lparr>secret_binding_events := secret_binding_events s @
           [\<lparr>se_cgroup_id = ke_cgroup_id e, se_tgid = cur_tgid e, se_audit = audit, se_reason = reason,
             se_sni_status = status, se_memory_bio = memory_bio, se_key = key,
             se_sni = (case sni of None \<Rightarrow> replicate MAX_HOST_LEN 0 | Some h \<Rightarrow> h)\<rparr>]\<rparr>
      else s)"

definition secret_binding_allows :: "config \<Rightarrow> kenv \<Rightarrow> secret_key \<Rightarrow> kmaps \<Rightarrow> bool \<times> kmaps" where
  "secret_binding_allows cfg e key s =
     (if secret_acl cfg \<lparr>ak_cgroup_id = ke_cgroup_id e, ak_key = key\<rparr> \<noteq> None then (True, s)
      else let audit = (secret_binding_mode cfg = SECRET_BINDING_AUDIT);
               s = dbg_inc (if audit then DBG_SECRET_BINDING_AUDIT else DBG_SECRET_BINDING_DENY) s;
               s = report_secret_event e key audit SECRET_EVT_BINDING SNI_STATUS_NONE False None s
           in (audit, s))"

section \<open>Connections\<close>

text \<open>The syscalls the tracepoints see; each carries the environment of its thread.\<close>

datatype conn_event = Enter_Connect kenv u64 u64 | Exit_Connect kenv u64 | Enter_Close kenv u64

fun conn_thread :: "conn_event \<Rightarrow> u64" where
  "conn_thread (Enter_Connect e fd addr) = ke_pid_tgid e"
| "conn_thread (Exit_Connect e ret) = ke_pid_tgid e"
| "conn_thread (Enter_Close e fd) = ke_pid_tgid e"

fun conn_track :: "conn_event \<Rightarrow> kmaps \<Rightarrow> kmaps" where
  "conn_track (Enter_Connect e fd addr) s = tp_enter_connect e fd addr s"
| "conn_track (Exit_Connect e ret) s = tp_exit_connect e ret s"
| "conn_track (Enter_Close e fd) s = tp_enter_close e fd s"

lemma conn_track_other: "conn_thread ev \<noteq> p \<Longrightarrow> connect_pending (conn_track ev s) p = connect_pending s p"
  by (cases ev) (auto simp: tp_enter_connect_def tp_exit_connect_def tp_enter_close_def Let_def split: option.splits)

lemma conn_tracks_other:
  "\<forall>ev \<in> set evs. conn_thread ev \<noteq> p \<Longrightarrow> connect_pending (fold conn_track evs s) p = connect_pending s p"
  by (induction evs arbitrary: s) (auto simp: conn_track_other)

text \<open>A socket address in user memory: family, port and IPv4 or IPv6 address.\<close>

definition sockaddr_at :: "kenv \<Rightarrow> u64 \<Rightarrow> bytes \<Rightarrow> u16 \<Rightarrow> bool" where
  "sockaddr_at e a ip port \<longleftrightarrow> a \<noteq> 0 \<and> read_user_u16 e (a + 2) = port \<and>
     (read_user_u16 e a = 2 \<and> (\<exists>v4. probe_read_user (ke_mem e) 4 (a + 4) = (True, v4) \<and> ip = ipv4_to_mapped v4)
      \<or> read_user_u16 e a = 10 \<and> probe_read_user (ke_mem e) 16 (a + 8) = (True, ip))"

lemma tp_enter_connect_pending:
  assumes "sockaddr_at e a ip port" "ke_room e CONNECT_PENDING"
  shows "tp_enter_connect e fd a s = s\<lparr>connect_pending :=
    (connect_pending s)(ke_pid_tgid e \<mapsto> \<lparr>cp_fd = ucast fd, cp_ip = ip, cp_port = port\<rparr>)\<rparr>"
  using assms by (auto simp: sockaddr_at_def tp_enter_connect_def map_put_def)

lemma secret_binding_allows_iff:
  "fst (secret_binding_allows cfg e key s) \<longleftrightarrow>
    secret_acl cfg \<lparr>ak_cgroup_id = ke_cgroup_id e, ak_key = key\<rparr> \<noteq> None \<or> secret_binding_mode cfg = SECRET_BINDING_AUDIT"
  by (simp add: secret_binding_allows_def Let_def)

text \<open>What the report and the check leave alone: everything but the events and the counters.\<close>

definition no_report :: "kmaps \<Rightarrow> kmaps" where
  "no_report s = s\<lparr>secret_binding_events := [], debug_counters := \<lambda>_. 0\<rparr>"

lemma no_report_dbg [simp]: "no_report (dbg_inc i s) = no_report s"
  by (simp add: no_report_def dbg_inc_def)

lemma no_report_event [simp]: "no_report (report_secret_event e k a r st mb h s) = no_report s"
  by (simp add: no_report_def report_secret_event_def)

lemma no_report_binding [simp]: "no_report (snd (secret_binding_allows cfg e key s)) = no_report s"
  by (simp add: secret_binding_allows_def Let_def)

lemma no_reportD:
  assumes "no_report s = no_report t"
  shows "ghash_scratch s = ghash_scratch t" "tls_conn_state s = tls_conn_state t" "tc_pending s = tc_pending t"
    "tc_tag_pending s = tc_tag_pending t" "xor_pending s = xor_pending t" "scratch s = scratch t"
    "sni_state s = sni_state t" "vip_sock_host s = vip_sock_host t" "vip_sock_dst s = vip_sock_dst t"
    "h_power_entries s = h_power_entries t"
  using arg_cong [OF assms, of ghash_scratch] arg_cong [OF assms, of tls_conn_state] arg_cong [OF assms, of tc_pending]
    arg_cong [OF assms, of tc_tag_pending] arg_cong [OF assms, of xor_pending] arg_cong [OF assms, of scratch]
    arg_cong [OF assms, of sni_state] arg_cong [OF assms, of vip_sock_host] arg_cong [OF assms, of vip_sock_dst]
    arg_cong [OF assms, of h_power_entries]
  by (simp_all add: no_report_def)

section \<open>An empty state\<close>

text \<open>Maps as a load of the programs leaves them, for concrete runs.\<close>

definition zero_work :: ghash_work where
  "zero_work = ghash_scratch example_tc"

definition example_kmaps :: kmaps where
  "example_kmaps = \<lparr>debug_counters = \<lambda>_. 0, ghash_scratch = zero_work,
     h_power_entries = replicate 16 (replicate 16 0), tls_conn_state = \<lambda>_. None,
     tc_pending = \<lambda>_. None, tc_tag_pending = \<lambda>_. None,
     secret_binding_events = [], proc_events = [], tracked_tgids = \<lambda>_. None, tracked_cgroups = \<lambda>_. None,
     conn_ip_map = \<lambda>_. None, connect_pending = \<lambda>_. None, evp_init_scratch = \<lambda>_. None, evp_h_cache = \<lambda>_. None,
     xor_pending = \<lambda>_. None,
     scratch = \<lparr>sb_user_data_ptr = 0, sb_ssl_ptr = 0, sb_read_len = 0, sb_total_data_len = 0, sb_chain_type = CHAIN_SSL,
       sb_h_fresh = False, sb_memory_bio = False, sb_xor_match_count = 0, sb_xor_current_match = 0,
       sb_xor_matches = replicate XOR_MAX_MATCHES \<lparr>xm_pos = 0, xm_key = replicate SECRET_KEY_LEN 0\<rparr>,
       sb_data = replicate MAX_DATA_SIZE 0\<rparr>,
     sni_state = \<lambda>_. None, vip_upstream = \<lambda>_. None, vip_sock = \<lambda>_. None, vip_sock_host = \<lambda>_. None,
     vip_sock_dst = \<lambda>_. None\<rparr>"

definition example_sock :: sock where
  "example_sock = \<lparr>skc_family = 2, skc_v6_daddr = replicate 16 0, skc_daddr = [1, 2, 3, 4], skc_dport = 0xBB01,
     skc_num = 40000, skc_cookie = 9, write_seq = 5000\<rparr>"

definition example_env :: "umem \<Rightarrow> kenv" where
  "example_env m = \<lparr>ke_pid_tgid = 7 * 2 ^ 32 + 7, ke_cgroup_id = 11, ke_exe_inode = 12, ke_mem = m, ke_ktime = 0,
     ke_boottime = 0, ke_random = 0, ke_sock = \<lambda>_. example_sock, ke_room = \<lambda>_. True, ke_ring = \<lambda>_. True\<rparr>"

section \<open>Properties\<close>

text \<open>
  C37: a successful connect is tracked under the process and fd with the address it named, whatever
  the other threads do in between; a failed one leaves no trace, and a close removes the fd.
\<close>

theorem connect_tracked:
  fixes s :: kmaps and fd :: u64
  assumes "sockaddr_at e addr ip port" "ke_room e CONNECT_PENDING"
    and "ke_pid_tgid e' = ke_pid_tgid e" "\<forall>ev \<in> set evs. conn_thread ev \<noteq> ke_pid_tgid e"
  defines "s1 \<equiv> fold conn_track evs (tp_enter_connect e fd addr s)"
    and "k \<equiv> \<lparr>cik_tgid = cur_tgid e, cik_fd = ucast fd\<rparr>"
  shows "conn_ip_map (tp_exit_connect e' ret s1) = (if ret = 0 \<or> ret = - 115
      then (conn_ip_map s1)(k \<mapsto> \<lparr>civ_ip = ip, civ_port = port\<rparr>) else conn_ip_map s1)
    \<and> connect_pending (tp_exit_connect e' ret s1) (ke_pid_tgid e) = None
    \<and> conn_ip_map (tp_enter_close e' fd (tp_exit_connect e' ret s1)) k = None"
proof -
  have "connect_pending s1 (ke_pid_tgid e) = Some \<lparr>cp_fd = ucast fd, cp_ip = ip, cp_port = port\<rparr>"
    unfolding s1_def conn_tracks_other [OF assms(4)] tp_enter_connect_pending [OF assms(1,2)] by simp
  moreover have "cur_tgid e' = cur_tgid e" using assms(3) by (simp add: cur_tgid_def)
  ultimately show ?thesis
    unfolding k_def using assms(3) by (auto simp: tp_exit_connect_def tp_enter_close_def Let_def)
qed

definition connect_env :: kenv where
  "connect_env = example_env (mem_block 4096 [2, 0, 1, 0xBB, 1, 2, 3, 4])"

lemma example_env_sel [simp]:
  "ke_pid_tgid (example_env m) = 7 * 2 ^ 32 + 7" "ke_cgroup_id (example_env m) = 11" "ke_exe_inode (example_env m) = 12"
  "ke_mem (example_env m) = m" "ke_ktime (example_env m) = 0" "ke_boottime (example_env m) = 0"
  "ke_random (example_env m) = 0" "ke_sock (example_env m) a = example_sock" "ke_room (example_env m) h"
  "ke_ring (example_env m) n" "cur_tgid (example_env m) = 7"
  by (simp_all add: example_env_def cur_tgid_def)

lemma connect_env_sockaddr: "sockaddr_at connect_env 4096 (ipv4_to_mapped [1, 2, 3, 4]) 0xBB01"
proof -
  have "maps_to (ke_mem connect_env) 4096 ([2, 0] @ [1, 0xBB] @ [1, 2, 3, 4])"
    using maps_to_block [of "[2, 0] @ [1, 0xBB] @ [1, 2, 3, 4]" 4096] by (simp add: connect_env_def)
  then have m: "maps_to (ke_mem connect_env) 4096 [2, 0]" "maps_to (ke_mem connect_env) 4098 [1, 0xBB]"
      "maps_to (ke_mem connect_env) 4100 [1, 2, 3, 4]"
    unfolding maps_to_append by simp_all
  have "le_word [2, 0] = (2 :: u16)" "le_word [1, 0xBB] = (0xBB01 :: u16)" by code_simp+
  then have "read_user_word (ke_mem connect_env) 2 4096 = (True, 2 :: u16)"
      "read_user_word (ke_mem connect_env) 2 4098 = (True, 0xBB01 :: u16)"
    by (simp_all add: maps_to_read_word [OF m(1)] maps_to_read_word [OF m(2)])
  then show ?thesis
    using maps_to_read [OF m(3), of 4] by (auto simp: sockaddr_at_def read_user_u16_def)
qed

theorem connect_tracked_witness:
  "conn_ip_map (tp_exit_connect connect_env 0 (tp_enter_connect connect_env 3 4096 example_kmaps))
    \<lparr>cik_tgid = 7, cik_fd = 3\<rparr> = Some \<lparr>civ_ip = ipv4_to_mapped [1, 2, 3, 4], civ_port = 0xBB01\<rparr>"
proof -
  have "ke_room connect_env CONNECT_PENDING" "cur_tgid connect_env = 7" by (simp_all add: connect_env_def)
  then show ?thesis
    using connect_tracked [OF connect_env_sockaddr, where e' = connect_env and evs = "[]" and s = example_kmaps
        and fd = 3 and ret = 0] by simp
qed

end
