(* ===== verification/Key_Extract.thy ===== *)
theory Key_Extract
  imports Process_Track Aes GF128
begin

text \<open>
  How the data plane gets the GHASH subkey H of a connection: from an OpenSSL GCM context
  (\<open>ossl_read_gcm_h\<close>), from the AES key schedule BoringSSL keeps (\<open>bssl_recover_h\<close>), from the product
  table of Go's GCM, at cipher initialisation (\<open>bpf_uprobe_evp_cipher_init\<close>,
  \<open>bpf_uretprobe_evp_cipher_init\<close>), at SSL_write (\<open>bpf_h_extract\<close>) and at tcp_sendmsg (the H
  extraction of \<open>bpf_kprobe_tcp_sendmsg\<close>).

  The model is the x86 build. A 64-bit word that was swapped with \<open>__builtin_bswap64\<close> and stored
  natively is the big-endian bytes of the word.
\<close>

section \<open>The code: OpenSSL GCM contexts\<close>

datatype ossl_h = OSSL_H_READ_FAIL | OSSL_H_ZERO | OSSL_H_NOT_GCM | OSSL_H_RAW | OSSL_H_HKEY1

definition OSSL_H_OK :: "ossl_h \<Rightarrow> bool" where
  "OSSL_H_OK r \<longleftrightarrow> r = OSSL_H_RAW \<or> r = OSSL_H_HKEY1"

text \<open>The two words a 16-byte read puts in \<open>h\<close>.\<close>

definition read_user_pair :: "kenv \<Rightarrow> u64 \<Rightarrow> bool \<times> u64 \<times> u64" where
  "read_user_pair e a =
     (let (ok, bs) = probe_read_user (ke_mem e) 16 a in (ok, le_word (take 8 bs), le_word (drop 8 bs)))"

text \<open>The result, and \<open>h\<close> as bytes when it is usable (it is not read otherwise).\<close>

definition ossl_read_gcm_h :: "kenv \<Rightarrow> u64 \<Rightarrow> tls_offsets \<Rightarrow> kmaps \<Rightarrow> ossl_h \<times> bytes \<times> kmaps" where
  "ossl_read_gcm_h e algctx o' s =
     (let gated = (ossl_algctx_to_gcm_key o' \<noteq> 0 \<and> ossl_algctx_to_ks o' \<noteq> 0);
          (gate_ok, gcm_key) = (read_user_word (ke_mem e) 8 (algctx + ucast (ossl_algctx_to_gcm_key o')) :: bool \<times> u64)
      in if gated \<and> \<not> gate_ok then (OSSL_H_READ_FAIL, [], s)
         else if gated \<and> gcm_key \<noteq> algctx + ucast (ossl_algctx_to_ks o')
         then (OSSL_H_NOT_GCM, [], dbg_inc DBG_OSSL_GCM_GATE_FAIL s)
         else let (ok, h0, h1) = read_user_pair e (algctx + ucast (algctx_to_h o')) in
           if \<not> ok then (OSSL_H_READ_FAIL, [], s)
           else if h0 OR h1 \<noteq> 0 then (OSSL_H_RAW, be_bytes 8 h0 @ be_bytes 8 h1, s)
           else if gated \<and> ossl_algctx_to_vaes_hkey1 o' \<noteq> 0 then
             (let (ok, h0, h1) = read_user_pair e (algctx + ucast (ossl_algctx_to_vaes_hkey1 o')) in
              if \<not> ok then (OSSL_H_READ_FAIL, [], s)
              else if h0 OR h1 \<noteq> 0
              then (OSSL_H_HKEY1, gf128_halve_to_h h0 h1, dbg_inc DBG_OSSL_H_FROM_HKEY1 s)
              else (OSSL_H_ZERO, [], s))
           else (OSSL_H_ZERO, [], s))"

section \<open>The code: BoringSSL\<close>

definition BSSL_AESKEY_ROUNDS_OFF :: u64 where "BSSL_AESKEY_ROUNDS_OFF = 240"
definition BSSL_AES_RDKEY_BYTES :: nat where "BSSL_AES_RDKEY_BYTES = 240"

definition bssl_recover_h :: "kenv \<Rightarrow> u64 \<Rightarrow> u32 \<Rightarrow> u32 \<Rightarrow> u32 \<Rightarrow> kmaps \<Rightarrow> bytes option \<times> kmaps" where
  "bssl_recover_h e ssl_ptr ssl_to_s3 s3_to_aead aead_to_aeskey s =
     (case read_user_ptr e (ssl_ptr + ucast ssl_to_s3) of
        None \<Rightarrow> (None, dbg_inc DBG_BSSL_S3_NULL s)
      | Some s3 \<Rightarrow>
          (case read_user_ptr e (s3 + ucast s3_to_aead) of
             None \<Rightarrow> (None, dbg_inc DBG_BSSL_AEAD_NULL s)
           | Some aead \<Rightarrow>
               let aeskey = aead + ucast aead_to_aeskey;
                   (ok, rd_key) = probe_read_user (ke_mem e) BSSL_AES_RDKEY_BYTES aeskey;
                   (rounds_ok, rounds) = read_user_word (ke_mem e) 4 (aeskey + BSSL_AESKEY_ROUNDS_OFF)
               in if \<not> ok then (None, dbg_inc DBG_BSSL_RDKEY_FAIL s)
                  else if \<not> rounds_ok then (None, dbg_inc DBG_BSSL_RDKEY_FAIL s)
                  else let (recovered, h) = aes_recover_h rd_key rounds in
                    if \<not> recovered then (None, dbg_inc DBG_BSSL_ROUNDS_BAD s)
                    else if le_word (take 8 h) = (0 :: u64) \<and> le_word (drop 8 h) = (0 :: u64)
                    then (None, dbg_inc DBG_BSSL_HZERO s)
                    else (Some h, s)))"

section \<open>The code: shared walks\<close>

text \<open>SSL \<rightarrow> (record layer) \<rightarrow> EVP_CIPHER_CTX.\<close>

definition ssl_enc_ctx :: "kenv \<Rightarrow> tls_offsets \<Rightarrow> u64 \<Rightarrow> u64 option" where
  "ssl_enc_ctx e off ssl_ptr =
     (if wrl_to_enc_ctx off > 0 then
        (case read_user_ptr e (ssl_ptr + ucast (ssl_to_wrl off)) of
           None \<Rightarrow> None
         | Some wrl \<Rightarrow> read_user_ptr e (wrl + ucast (wrl_to_enc_ctx off)))
      else read_user_ptr e (ssl_ptr + ucast (ssl_to_wrl off)))"

text \<open>The nonce length from the negotiated version.\<close>

definition ssl_nonce_len :: "kenv \<Rightarrow> tls_offsets \<Rightarrow> u64 \<Rightarrow> u8" where
  "ssl_nonce_len e off ssl_ptr =
     (if ssl_to_version off \<noteq> 0xFFFFFFFF then
        (let ssl_ver = snd (read_user_word (ke_mem e) 4 (ssl_ptr + ucast (ssl_to_version off))) :: u32
         in if ssl_ver \<ge> 0x0304 then 0 else 8)
      else 0xFF)"

section \<open>The code: libcrypto hooks\<close>

definition bpf_uprobe_evp_cipher_init :: "kenv \<Rightarrow> u64 \<Rightarrow> kmaps \<Rightarrow> kmaps" where
  "bpf_uprobe_evp_cipher_init e evp_ctx_ptr s =
     (if tracked_cgroups s (ke_cgroup_id e) = None then s
      else if evp_ctx_ptr = 0 then s
      else dbg_inc DBG_EVP_INIT_ENTRY
        (s\<lparr>evp_init_scratch := map_put (ke_room e EVP_INIT_SCRATCH) (ke_pid_tgid e) evp_ctx_ptr (evp_init_scratch s)\<rparr>))"

definition bpf_uretprobe_evp_cipher_init :: "config \<Rightarrow> kenv \<Rightarrow> kmaps \<Rightarrow> kmaps" where
  "bpf_uretprobe_evp_cipher_init cfg e s =
     (case evp_init_scratch s (ke_pid_tgid e) of
        None \<Rightarrow> s
      | Some evp_ctx_ptr \<Rightarrow>
          let s = s\<lparr>evp_init_scratch := map_del (ke_pid_tgid e) (evp_init_scratch s)\<rparr> in
          (case binary_offsets cfg e (\<lambda>off. enc_ctx_to_algctx off \<noteq> 0) of
             None \<Rightarrow> dbg_inc DBG_EVP_INIT_CHAIN_FAIL s
           | Some off \<Rightarrow>
               (case read_user_ptr e (evp_ctx_ptr + ucast (enc_ctx_to_algctx off)) of
                  None \<Rightarrow> dbg_inc DBG_EVP_INIT_CHAIN_FAIL s
                | Some algctx \<Rightarrow>
                    let key = \<lparr>ek_tgid = cur_tgid e, ek_evp_ctx_ptr = evp_ctx_ptr\<rparr>;
                        (src, h, s) = ossl_read_gcm_h e algctx off s
                    in if \<not> OSSL_H_OK src then
                         (let s = dbg_inc (if src = OSSL_H_READ_FAIL then DBG_EVP_INIT_CHAIN_FAIL
                                           else DBG_EVP_INIT_H_ZERO) s
                          in if src = OSSL_H_NOT_GCM then s\<lparr>evp_h_cache := map_del key (evp_h_cache s)\<rparr> else s)
                       else dbg_inc DBG_EVP_INIT_H_OK
                         (s\<lparr>evp_h_cache := (evp_h_cache s)(key \<mapsto> \<lparr>ev_ghash_h = h,
                              ev_cipher_type = KLOAK_CIPHER_AES_GCM, ev_nonce_len = 0xFF\<rparr>)\<rparr>))))"

text \<open>The H of an EVP_CIPHER_CTX: the cached one, else read live and cached.\<close>

definition h_extract_source :: "kenv \<Rightarrow> tls_offsets \<Rightarrow> u64 \<Rightarrow> kmaps \<Rightarrow> (bytes \<times> cipher_type) option \<times> kmaps" where
  "h_extract_source e off enc_ctx s =
     (let key = \<lparr>ek_tgid = cur_tgid e, ek_evp_ctx_ptr = enc_ctx\<rparr> in
      case evp_h_cache s key of
        Some c \<Rightarrow> (Some (ev_ghash_h c, ev_cipher_type c), dbg_inc DBG_H_EXTRACT_CACHE_HIT s)
      | None \<Rightarrow>
          (case read_user_ptr e (enc_ctx + ucast (enc_ctx_to_algctx off)) of
             None \<Rightarrow> (None, dbg_inc DBG_H_EXTRACT_CACHE_MISS s)
           | Some algctx \<Rightarrow>
               let (src, h, s) = ossl_read_gcm_h e algctx off s in
               if \<not> OSSL_H_OK src then (None, dbg_inc DBG_H_EXTRACT_CACHE_MISS s)
               else (Some (h, KLOAK_CIPHER_AES_GCM), dbg_inc DBG_H_EXTRACT_LIVE_WALK
                 (s\<lparr>evp_h_cache := (evp_h_cache s)(key \<mapsto> \<lparr>ev_ghash_h = h,
                      ev_cipher_type = KLOAK_CIPHER_AES_GCM, ev_nonce_len = 0xFF\<rparr>)\<rparr>))))"

text \<open>Whether it tail-calls \<open>bpf_xor_path\<close>, and the maps.\<close>

definition bpf_h_extract :: "config \<Rightarrow> kenv \<Rightarrow> kmaps \<Rightarrow> bool \<times> kmaps" where
  "bpf_h_extract cfg e s =
     (let ssl_ptr = sb_ssl_ptr (scratch s) in
      if ssl_ptr = 0 then (False, s)
      else case binary_offsets cfg e (\<lambda>off. ssl_to_wrl off \<noteq> 0) of
        None \<Rightarrow> (False, dbg_inc DBG_H_EXTRACT_CACHE_MISS s)
      | Some off \<Rightarrow>
          (case ssl_enc_ctx e off ssl_ptr of
             None \<Rightarrow> (False, dbg_inc DBG_H_EXTRACT_CACHE_MISS s)
           | Some enc_ctx \<Rightarrow>
               (case h_extract_source e off enc_ctx s of
                  (None, s) \<Rightarrow> (False, s)
                | (Some (h, cipher), s) \<Rightarrow>
                    let s = s\<lparr>tls_conn_state := (tls_conn_state s)(\<lparr>ck_tgid = cur_tgid e, ck_ssl_ptr = ssl_ptr\<rparr> \<mapsto>
                              \<lparr>cs_ghash_h = h, cs_cipher_type = cipher, cs_nonce_len = ssl_nonce_len e off ssl_ptr\<rparr>)\<rparr>;
                        s = dbg_inc DBG_XOR_CONN_HIT s
                    in (True, s\<lparr>scratch := (scratch s)\<lparr>sb_h_fresh := True\<rparr>\<rparr>))))"

section \<open>The code: the H extraction of tcp_sendmsg\<close>

text \<open>Go's GCM: the doubled H in its product table.\<close>

definition go_conn_state :: "config \<Rightarrow> kenv \<Rightarrow> u64 \<Rightarrow> kmaps \<Rightarrow> tls_conn_state_val option \<times> kmaps" where
  "go_conn_state cfg e ssl_ptr s =
     (let fail = (None, dbg_inc DBG_KPROBE_BRIDGE_H_FAIL s) in
      case go_tls_offset_config cfg \<lparr>bk_cgroup_id = ke_cgroup_id e, bk_exe_inode = ke_exe_inode e\<rparr> of
        None \<Rightarrow> fail
      | Some go_off \<Rightarrow>
          (case read_user_ptr e (ssl_ptr + ucast (conn_to_cipher go_off)) of
             None \<Rightarrow> fail
           | Some cipher_data \<Rightarrow>
               (case read_user_ptr e (cipher_data + ucast (aead_iface_off go_off)) of
                  None \<Rightarrow> fail
                | Some gcm_ptr \<Rightarrow>
                    let (hi_ok, hi) = read_user_word (ke_mem e) 8 (gcm_ptr + ucast (h2_hi_off go_off));
                        (lo_ok, lo) = read_user_word (ke_mem e) 8 (gcm_ptr + ucast (h2_lo_off go_off))
                    in if \<not> hi_ok \<or> \<not> lo_ok then fail
                       else if hi = 0 \<and> lo = 0 then fail
                       else let go_tls_ver = (if conn_vers_off go_off > 0
                                  then read_user_u16 e (ssl_ptr + ucast (conn_vers_off go_off)) else 0)
                            in (Some \<lparr>cs_ghash_h = gf128_halve_to_h lo hi, cs_cipher_type = KLOAK_CIPHER_AES_GCM,
                                      cs_nonce_len = (if go_tls_ver \<ge> 0x0304 then 0 else 8)\<rparr>, s))))"

text \<open>\<open>OFFSETS_UNCALIBRATED\<close>, negated.\<close>

definition offsets_calibrated :: "tls_offsets \<Rightarrow> bool" where
  "offsets_calibrated off \<longleftrightarrow>
     \<not> (ssl_to_wrl off = 0 \<and> \<not> (of_tls_lib off = TLS_LIB_BORINGSSL \<and> bssl_ssl_to_s3 off \<noteq> 0))"

text \<open>The walk of an SSL object whose H was not captured.\<close>

definition walk_conn_state :: "config \<Rightarrow> kenv \<Rightarrow> u64 \<Rightarrow> kmaps \<Rightarrow> tls_conn_state_val option \<times> kmaps" where
  "walk_conn_state cfg e ssl_ptr s =
     (let s = dbg_inc DBG_KPROBE_WALK_LEGACY s in
      case binary_offsets cfg e offsets_calibrated of
        None \<Rightarrow> (None, dbg_inc DBG_KPROBE_BRIDGE_H_FAIL s)
      | Some off \<Rightarrow>
          if of_tls_lib off = TLS_LIB_BORINGSSL then
            (case bssl_recover_h e ssl_ptr (bssl_ssl_to_s3 off) (bssl_s3_to_aead off) (bssl_aead_to_aeskey off)
                    (dbg_inc DBG_BSSL_REACHED s) of
               (None, s) \<Rightarrow> (None, dbg_inc DBG_KPROBE_BRIDGE_H_FAIL s)
             | (Some h, s) \<Rightarrow> (Some \<lparr>cs_ghash_h = h, cs_cipher_type = KLOAK_CIPHER_AES_GCM,
                                   cs_nonce_len = ssl_nonce_len e off ssl_ptr\<rparr>, dbg_inc DBG_BSSL_H_OK s))
          else
            (case ssl_enc_ctx e off ssl_ptr of
               None \<Rightarrow> (None, s)
             | Some enc_ctx \<Rightarrow>
                 (case read_user_ptr e (enc_ctx + ucast (enc_ctx_to_algctx off)) of
                    None \<Rightarrow> (None, s)
                  | Some algctx \<Rightarrow>
                      let (src, h, s) = ossl_read_gcm_h e algctx off s in
                      if \<not> OSSL_H_OK src then (None, dbg_inc DBG_KPROBE_BRIDGE_H_FAIL s)
                      else (Some \<lparr>cs_ghash_h = h, cs_cipher_type = KLOAK_CIPHER_AES_GCM,
                                  cs_nonce_len = ssl_nonce_len e off ssl_ptr\<rparr>, s))))"

definition kprobe_conn_state :: "config \<Rightarrow> kenv \<Rightarrow> xor_pending_val \<Rightarrow> kmaps \<Rightarrow> tls_conn_state_val option \<times> kmaps" where
  "kprobe_conn_state cfg e pending s =
     (if xp_chain_type pending = CHAIN_GO_TLS then go_conn_state cfg e (xp_ssl_ptr pending) s
      else if xp_h_valid pending \<and> xp_cipher_type pending = KLOAK_CIPHER_AES_GCM then
        (Some \<lparr>cs_ghash_h = xp_ghash_h pending, cs_cipher_type = xp_cipher_type pending,
               cs_nonce_len = xp_nonce_len pending\<rparr>, dbg_inc DBG_KPROBE_BRIDGE_FROM_PENDING s)
      else walk_conn_state cfg e (xp_ssl_ptr pending) s)"

section \<open>What the memory of a TLS library holds\<close>

definition word_at :: "kenv \<Rightarrow> nat \<Rightarrow> u64 \<Rightarrow> 'a::len word \<Rightarrow> bool" where
  "word_at e n a w \<longleftrightarrow> read_user_word (ke_mem e) n a = (True, w)"

text \<open>
  A keyed OpenSSL GCM context with subkey \<open>h\<close>: its key pointer is its own key schedule (where the
  offsets are calibrated), and \<open>h\<close> is in the raw field, as two native words, or, doubled, in the
  HashKey_1 slot of the AVX-512 code, which leaves the raw field zero.
\<close>

definition gcm_context :: "kenv \<Rightarrow> tls_offsets \<Rightarrow> u64 \<Rightarrow> bytes \<Rightarrow> bool" where
  "gcm_context e off algctx h \<longleftrightarrow> length h = 16 \<and> h \<noteq> replicate 16 0
     \<and> (let gated = (ossl_algctx_to_gcm_key off \<noteq> 0 \<and> ossl_algctx_to_ks off \<noteq> 0);
            raw = algctx + ucast (algctx_to_h off); slot = algctx + ucast (ossl_algctx_to_vaes_hkey1 off)
        in (gated \<longrightarrow> word_at e 8 (algctx + ucast (ossl_algctx_to_gcm_key off)) (algctx + ucast (ossl_algctx_to_ks off)))
         \<and> (maps_to (ke_mem e) raw (rev (take 8 h) @ rev (drop 8 h))
            \<or> gated \<and> ossl_algctx_to_vaes_hkey1 off \<noteq> 0 \<and> maps_to (ke_mem e) raw (replicate 16 0)
              \<and> (\<exists>lo hi. gf_double_lanes h = (lo, hi) \<and> word_at e 8 slot lo \<and> word_at e 8 (slot + 8) hi)))"

text \<open>A BoringSSL connection whose key schedule encrypts the zero block to \<open>h\<close>.\<close>

definition bssl_context :: "kenv \<Rightarrow> tls_offsets \<Rightarrow> u64 \<Rightarrow> bytes \<Rightarrow> bool" where
  "bssl_context e off ssl h \<longleftrightarrow> (\<exists>s3 aead rk rounds.
     read_user_ptr e (ssl + ucast (bssl_ssl_to_s3 off)) = Some s3
     \<and> read_user_ptr e (s3 + ucast (bssl_s3_to_aead off)) = Some aead
     \<and> length rk = 240 \<and> maps_to (ke_mem e) (aead + ucast (bssl_aead_to_aeskey off)) rk
     \<and> word_at e 4 (aead + ucast (bssl_aead_to_aeskey off) + 240) (rounds :: u32)
     \<and> (rounds \<in> {9, 10} \<and> h = aes_cipher 10 rk (replicate 16 0)
        \<or> rounds \<in> {13, 14} \<and> h = aes_cipher 14 rk (replicate 16 0))
     \<and> h \<noteq> replicate 16 0)"

text \<open>A Go connection whose GCM holds the doubled \<open>h\<close>, and its version.\<close>

definition go_context :: "config \<Rightarrow> kenv \<Rightarrow> u64 \<Rightarrow> bytes \<Rightarrow> u8 \<Rightarrow> bool" where
  "go_context cfg e conn h nl \<longleftrightarrow> length h = 16 \<and> h \<noteq> replicate 16 0 \<and> (\<exists>off cipher gcm lo hi.
     go_tls_offset_config cfg \<lparr>bk_cgroup_id = ke_cgroup_id e, bk_exe_inode = ke_exe_inode e\<rparr> = Some off
     \<and> read_user_ptr e (conn + ucast (conn_to_cipher off)) = Some cipher
     \<and> read_user_ptr e (cipher + ucast (aead_iface_off off)) = Some gcm
     \<and> gf_double_lanes h = (lo, hi)
     \<and> word_at e 8 (gcm + ucast (h2_hi_off off)) hi \<and> word_at e 8 (gcm + ucast (h2_lo_off off)) lo
     \<and> nl = (if conn_vers_off off > 0 \<and> read_user_u16 e (conn + ucast (conn_vers_off off)) \<ge> 0x0304 then 0 else 8))"

text \<open>The connection a staged write belongs to, for every way its H is found.\<close>

definition conn_memory :: "config \<Rightarrow> kenv \<Rightarrow> xor_pending_val \<Rightarrow> bytes \<Rightarrow> u8 \<Rightarrow> bool" where
  "conn_memory cfg e p h nl \<longleftrightarrow>
     (if xp_chain_type p = CHAIN_GO_TLS then go_context cfg e (xp_ssl_ptr p) h nl
      else if xp_h_valid p \<and> xp_cipher_type p = KLOAK_CIPHER_AES_GCM then h = xp_ghash_h p \<and> nl = xp_nonce_len p
      else \<exists>off. binary_offsets cfg e offsets_calibrated = Some off \<and> nl = ssl_nonce_len e off (xp_ssl_ptr p)
        \<and> (if of_tls_lib off = TLS_LIB_BORINGSSL then bssl_context e off (xp_ssl_ptr p) h
           else \<exists>enc algctx. ssl_enc_ctx e off (xp_ssl_ptr p) = Some enc
             \<and> read_user_ptr e (enc + ucast (enc_ctx_to_algctx off)) = Some algctx \<and> gcm_context e off algctx h))"

section \<open>The extractions recover H\<close>

lemma le_word_rev [simp]: "le_word (rev bs) = be_word bs"
  by (simp add: le_word_def)

lemma le_word_zeros [simp]: "le_word (replicate n 0) = 0"
proof -
  have "be_word (replicate n 0) = (0 :: 'a::len word)"
    by (rule bit_eqI) (auto simp: bit_be_word)
  then show ?thesis by (simp add: le_word_def)
qed

lemma be_bytes_zero: "be_bytes n (0 :: u64) = replicate n 0"
  by (auto simp: be_bytes_def intro: nth_equalityI)

lemma halves_be_bytes:
  assumes "length h = 16"
  shows "be_bytes 8 (be_word (take 8 h) :: u64) @ be_bytes 8 (be_word (drop 8 h) :: u64) = h"
  using be_bytes_be_word [where 'a = 64, of "take 8 h"] be_bytes_be_word [where 'a = 64, of "drop 8 h"] assms by simp

lemma or_eq_0_64: "(a :: u64) OR b = 0 \<longleftrightarrow> a = 0 \<and> b = 0"
  by (auto simp: bit_eq_iff bit_simps)

lemma halves_nonzero:
  assumes "length h = 16" "h \<noteq> replicate 16 0"
  shows "(be_word (take 8 h) :: u64) OR be_word (drop 8 h) \<noteq> 0"
proof
  assume "(be_word (take 8 h) :: u64) OR be_word (drop 8 h) = 0"
  then have "h = be_bytes 8 (0 :: u64) @ be_bytes 8 (0 :: u64)"
    using halves_be_bytes [OF assms(1)] by (simp add: or_eq_0_64)
  then show False using assms(2) by (simp add: be_bytes_zero replicate_add [symmetric])
qed

lemma double_nonzero:
  assumes "length h = 16" "h \<noteq> replicate 16 0" "gf_double_lanes h = (lo, hi)"
  shows "lo OR hi \<noteq> 0"
proof
  assume "lo OR hi = 0"
  then have "gf128_halve_to_h 0 0 = h" using gf128_halve_double [OF assms(1,3)] by (simp add: or_eq_0_64)
  moreover have "gf128_halve_to_h 0 0 = replicate 16 0" by code_simp
  ultimately show False using assms(2) by simp
qed

lemma word_at_pair:
  assumes "word_at e 8 a lo" "word_at e 8 (a + 8) hi"
  shows "read_user_pair e a = (True, lo, hi)"
proof -
  obtain x y where xy: "probe_read_user (ke_mem e) 8 a = (True, x)" "le_word x = lo"
      "probe_read_user (ke_mem e) 8 (a + 8) = (True, y)" "le_word y = hi"
    using assms by (auto simp: word_at_def read_user_word_def split: prod.splits)
  then have "maps_to (ke_mem e) a (x @ y)" "length x = 8" "length y = 8"
    by (auto simp: maps_to_append probe_read_user_maps)
  then show ?thesis using xy by (simp add: read_user_pair_def maps_to_read)
qed

lemma ossl_read_gcm_h_spec:
  assumes "gcm_context e off algctx h"
  shows "\<exists>src s'. ossl_read_gcm_h e algctx off s = (src, h, s') \<and> OSSL_H_OK src \<and> no_report s' = no_report s"
proof -
  define gated where "gated = (ossl_algctx_to_gcm_key off \<noteq> 0 \<and> ossl_algctx_to_ks off \<noteq> 0)"
  define raw where "raw = algctx + ucast (algctx_to_h off)"
  define slot where "slot = algctx + ucast (ossl_algctx_to_vaes_hkey1 off)"
  have h: "length h = 16" "h \<noteq> replicate 16 0" using assms by (auto simp: gcm_context_def)
  have g: "gated \<Longrightarrow> read_user_word (ke_mem e) 8 (algctx + ucast (ossl_algctx_to_gcm_key off))
      = (True, algctx + ucast (ossl_algctx_to_ks off))"
    using assms unfolding gcm_context_def Let_def gated_def [symmetric] word_at_def by blast
  obtain ok and w :: u64 where k: "read_user_word (ke_mem e) 8 (algctx + ucast (ossl_algctx_to_gcm_key off)) = (ok, w)"
    by fastforce
  have pass: "gated \<Longrightarrow> ok \<and> w = algctx + ucast (ossl_algctx_to_ks off)" using g k by simp
  consider (raw) "maps_to (ke_mem e) raw (rev (take 8 h) @ rev (drop 8 h))"
    | (vaes) lo hi where "gated" "ossl_algctx_to_vaes_hkey1 off \<noteq> 0" "maps_to (ke_mem e) raw (replicate 16 0)"
        "gf_double_lanes h = (lo, hi)" "word_at e 8 slot lo" "word_at e 8 (slot + 8) hi"
    using assms unfolding gcm_context_def Let_def gated_def [symmetric] raw_def [symmetric] slot_def [symmetric] by blast
  then show ?thesis
  proof cases
    case raw
    then have r: "read_user_pair e raw = (True, be_word (take 8 h), be_word (drop 8 h))"
      using h by (simp add: read_user_pair_def maps_to_read)
    show ?thesis
      unfolding ossl_read_gcm_h_def Let_def k gated_def [symmetric] raw_def [symmetric] prod.case r
      using pass halves_nonzero [OF h] halves_be_bytes [OF h(1)] by (auto simp: OSSL_H_OK_def)
  next
    case vaes
    have r: "read_user_pair e raw = (True, 0, 0)"
      using vaes(3) by (simp add: read_user_pair_def maps_to_read)
    have d: "read_user_pair e slot = (True, lo, hi)" using word_at_pair vaes(5,6) by blast
    show ?thesis
      unfolding ossl_read_gcm_h_def Let_def k gated_def [symmetric] raw_def [symmetric] slot_def [symmetric] prod.case r d
      using pass vaes double_nonzero [OF h vaes(4)] gf128_halve_double [OF h(1) vaes(4)] by (auto simp: OSSL_H_OK_def)
  qed
qed

lemma bssl_recover_h_spec:
  assumes "bssl_context e off ssl h"
  shows "bssl_recover_h e ssl (bssl_ssl_to_s3 off) (bssl_s3_to_aead off) (bssl_aead_to_aeskey off) s = (Some h, s)"
proof -
  obtain s3 aead rk rounds where c: "read_user_ptr e (ssl + ucast (bssl_ssl_to_s3 off)) = Some s3"
      "read_user_ptr e (s3 + ucast (bssl_s3_to_aead off)) = Some aead"
      "length rk = 240" "maps_to (ke_mem e) (aead + ucast (bssl_aead_to_aeskey off)) rk"
      "read_user_word (ke_mem e) 4 (aead + ucast (bssl_aead_to_aeskey off) + 240) = (True, rounds :: u32)"
      "rounds \<in> {9, 10} \<and> h = aes_cipher 10 rk (replicate 16 0)
        \<or> rounds \<in> {13, 14} \<and> h = aes_cipher 14 rk (replicate 16 0)" "h \<noteq> replicate 16 0"
    using assms unfolding bssl_context_def word_at_def by blast
  have r: "aes_recover_h rk rounds = (True, h)"
    using c(3,6) by (auto simp: aes_recover_h_def Let_def aes_block_encrypt_spec)
  have l: "length h = 16" using c(6) by (auto simp: aes_cipher_def round_key_def c(3))
  have nz: "\<not> (le_word (take 8 h) = (0 :: u64) \<and> le_word (drop 8 h) = (0 :: u64))"
  proof
    assume z: "le_word (take 8 h) = (0 :: u64) \<and> le_word (drop 8 h) = (0 :: u64)"
    then have "be_bytes 8 (be_word (rev (take 8 h)) :: u64) = replicate 8 0" "be_bytes 8 (be_word (rev (drop 8 h)) :: u64) = replicate 8 0"
      by (simp_all add: le_word_def be_bytes_zero)
    then have "rev (take 8 h) = replicate 8 0" "rev (drop 8 h) = replicate 8 0"
      using be_bytes_be_word [where 'a = 64, of "rev (take 8 h)"] be_bytes_be_word [where 'a = 64, of "rev (drop 8 h)"] l by simp_all
    then have "take 8 h = replicate 8 0" "drop 8 h = replicate 8 0" by (metis rev_rev_ident rev_replicate)+
    then have "h = replicate 8 0 @ replicate 8 0" by (metis append_take_drop_id)
    then show False using c(7) by (simp add: replicate_add [symmetric])
  qed
  show ?thesis
    using c(1,2,5) r nz maps_to_read [OF c(4), of 240] c(3)
    by (simp add: bssl_recover_h_def Let_def BSSL_AES_RDKEY_BYTES_def BSSL_AESKEY_ROUNDS_OFF_def)
qed

lemma go_conn_state_spec:
  assumes "go_context cfg e conn h nl"
  shows "go_conn_state cfg e conn s = (Some \<lparr>cs_ghash_h = h, cs_cipher_type = KLOAK_CIPHER_AES_GCM, cs_nonce_len = nl\<rparr>, s)"
proof -
  obtain off cipher gcm lo hi where c: "length h = 16" "h \<noteq> replicate 16 0"
      "go_tls_offset_config cfg \<lparr>bk_cgroup_id = ke_cgroup_id e, bk_exe_inode = ke_exe_inode e\<rparr> = Some off"
      "read_user_ptr e (conn + ucast (conn_to_cipher off)) = Some cipher"
      "read_user_ptr e (cipher + ucast (aead_iface_off off)) = Some gcm" "gf_double_lanes h = (lo, hi)"
      "read_user_word (ke_mem e) 8 (gcm + ucast (h2_hi_off off)) = (True, hi)"
      "read_user_word (ke_mem e) 8 (gcm + ucast (h2_lo_off off)) = (True, lo)"
      "nl = (if conn_vers_off off > 0 \<and> read_user_u16 e (conn + ucast (conn_vers_off off)) \<ge> 0x0304 then 0 else 8)"
    using assms unfolding go_context_def word_at_def by blast
  have "\<not> (hi = 0 \<and> lo = 0)" using double_nonzero [OF c(1,2,6)] by (auto simp: or_eq_0_64)
  then show ?thesis
    using c gf128_halve_double [OF c(1,6)] by (auto simp: go_conn_state_def Let_def)
qed

lemma kprobe_conn_state_spec:
  assumes "conn_memory cfg e p h nl"
  shows "\<exists>s'. kprobe_conn_state cfg e p s
      = (Some \<lparr>cs_ghash_h = h, cs_cipher_type = KLOAK_CIPHER_AES_GCM, cs_nonce_len = nl\<rparr>, s')
    \<and> no_report s' = no_report s"
proof (cases "xp_chain_type p = CHAIN_GO_TLS \<or> xp_h_valid p \<and> xp_cipher_type p = KLOAK_CIPHER_AES_GCM")
  case True
  then show ?thesis
    using assms go_conn_state_spec by (auto simp: kprobe_conn_state_def conn_memory_def)
next
  case False
  then obtain off where off: "binary_offsets cfg e offsets_calibrated = Some off" "nl = ssl_nonce_len e off (xp_ssl_ptr p)"
      "if of_tls_lib off = TLS_LIB_BORINGSSL then bssl_context e off (xp_ssl_ptr p) h
       else \<exists>enc algctx. ssl_enc_ctx e off (xp_ssl_ptr p) = Some enc
         \<and> read_user_ptr e (enc + ucast (enc_ctx_to_algctx off)) = Some algctx \<and> gcm_context e off algctx h"
    using assms unfolding conn_memory_def by auto
  have w: "kprobe_conn_state cfg e p s = walk_conn_state cfg e (xp_ssl_ptr p) s"
    using False by (auto simp: kprobe_conn_state_def)
  show ?thesis
  proof (cases "of_tls_lib off = TLS_LIB_BORINGSSL")
    case True
    then show ?thesis
      unfolding w using off bssl_recover_h_spec by (simp add: walk_conn_state_def Let_def)
  next
    case F: False
    then obtain enc algctx where c: "ssl_enc_ctx e off (xp_ssl_ptr p) = Some enc"
        "read_user_ptr e (enc + ucast (enc_ctx_to_algctx off)) = Some algctx" "gcm_context e off algctx h"
      using off(3) by auto
    obtain src s' where r: "ossl_read_gcm_h e algctx off (dbg_inc DBG_KPROBE_WALK_LEGACY s) = (src, h, s')"
        "OSSL_H_OK src" "no_report s' = no_report s"
      using ossl_read_gcm_h_spec [OF c(3), of "dbg_inc DBG_KPROBE_WALK_LEGACY s"] by auto
    then show ?thesis
      unfolding w using off c F by (simp add: walk_conn_state_def Let_def)
  qed
qed

text \<open>Without a staged H the extraction changes nothing but counters, whatever the memory holds.\<close>

lemma ossl_read_gcm_h_frame: "no_report (snd (snd (ossl_read_gcm_h e a off s))) = no_report s"
  by (auto simp: ossl_read_gcm_h_def Let_def split: prod.splits)

lemma bssl_recover_h_frame: "no_report (snd (bssl_recover_h e a b c d s)) = no_report s"
  by (auto simp: bssl_recover_h_def Let_def split: prod.splits option.splits)

lemma kprobe_conn_state_frame: "no_report (snd (kprobe_conn_state cfg e p s)) = no_report s"
proof -
  have "no_report (snd (go_conn_state cfg e a s)) = no_report s" for a
    by (auto simp: go_conn_state_def Let_def split: prod.splits option.splits)
  moreover have "no_report (snd (walk_conn_state cfg e a s)) = no_report s" for a
    using ossl_read_gcm_h_frame bssl_recover_h_frame
    unfolding walk_conn_state_def Let_def
    by (auto split: prod.splits option.splits) (metis no_report_dbg snd_conv)+
  ultimately show ?thesis by (simp add: kprobe_conn_state_def)
qed

section \<open>The libcrypto hooks\<close>

lemma uretprobe_caches:
  assumes "evp_init_scratch s (ke_pid_tgid e) = Some ctx"
    and "binary_offsets cfg e (\<lambda>off. enc_ctx_to_algctx off \<noteq> 0) = Some off"
    and "read_user_ptr e (ctx + ucast (enc_ctx_to_algctx off)) = Some algctx" "gcm_context e off algctx h"
  shows "evp_h_cache (bpf_uretprobe_evp_cipher_init cfg e s) \<lparr>ek_tgid = cur_tgid e, ek_evp_ctx_ptr = ctx\<rparr>
    = Some \<lparr>ev_ghash_h = h, ev_cipher_type = KLOAK_CIPHER_AES_GCM, ev_nonce_len = 0xFF\<rparr>"
proof -
  let ?s = "s\<lparr>evp_init_scratch := map_del (ke_pid_tgid e) (evp_init_scratch s)\<rparr>"
  obtain src s' where "ossl_read_gcm_h e algctx off ?s = (src, h, s')" "OSSL_H_OK src"
    using ossl_read_gcm_h_spec [OF assms(4), of ?s] by blast
  then show ?thesis
    using assms(1-3) by (simp add: bpf_uretprobe_evp_cipher_init_def Let_def)
qed

lemma uretprobe_drops:
  assumes "evp_init_scratch s (ke_pid_tgid e) = Some ctx"
    and "binary_offsets cfg e (\<lambda>off. enc_ctx_to_algctx off \<noteq> 0) = Some off"
    and "read_user_ptr e (ctx + ucast (enc_ctx_to_algctx off)) = Some algctx"
    and "ossl_algctx_to_gcm_key off \<noteq> 0" "ossl_algctx_to_ks off \<noteq> 0"
    and "word_at e 8 (algctx + ucast (ossl_algctx_to_gcm_key off)) (w :: u64)" "w \<noteq> algctx + ucast (ossl_algctx_to_ks off)"
  shows "evp_h_cache (bpf_uretprobe_evp_cipher_init cfg e s) \<lparr>ek_tgid = cur_tgid e, ek_evp_ctx_ptr = ctx\<rparr> = None"
  using assms by (simp add: bpf_uretprobe_evp_cipher_init_def Let_def ossl_read_gcm_h_def word_at_def OSSL_H_OK_def)

lemma h_extract_cached:
  assumes "sb_ssl_ptr (scratch s) = ssl" "ssl \<noteq> 0" "binary_offsets cfg e (\<lambda>off. ssl_to_wrl off \<noteq> 0) = Some off"
    and "ssl_enc_ctx e off ssl = Some ctx"
    and "evp_h_cache s \<lparr>ek_tgid = cur_tgid e, ek_evp_ctx_ptr = ctx\<rparr>
      = Some \<lparr>ev_ghash_h = h, ev_cipher_type = KLOAK_CIPHER_AES_GCM, ev_nonce_len = 0xFF\<rparr>"
  shows "\<exists>s'. bpf_h_extract cfg e s = (True, s') \<and> sb_h_fresh (scratch s')
    \<and> tls_conn_state s' \<lparr>ck_tgid = cur_tgid e, ck_ssl_ptr = ssl\<rparr>
      = Some \<lparr>cs_ghash_h = h, cs_cipher_type = KLOAK_CIPHER_AES_GCM, cs_nonce_len = ssl_nonce_len e off ssl\<rparr>"
  using assms by (simp add: bpf_h_extract_def h_extract_source_def Let_def)

section \<open>Properties\<close>

text \<open>
  C16: for every TLS library \<open>kloak\<close> supports the extraction at tcp_sendmsg returns the connection's
  subkey H: carried from the libcrypto hook, read from an OpenSSL GCM context (raw or doubled in the
  AVX-512 slot), recomputed from a BoringSSL key schedule, or undoubled from Go's product table.
\<close>

theorem kprobe_conn_state_recovers:
  assumes "conn_memory cfg e p h nl"
  shows "fst (kprobe_conn_state cfg e p s)
      = Some \<lparr>cs_ghash_h = h, cs_cipher_type = KLOAK_CIPHER_AES_GCM, cs_nonce_len = nl\<rparr>
    \<and> no_report (snd (kprobe_conn_state cfg e p s)) = no_report s"
  using kprobe_conn_state_spec [OF assms, of s] by auto

text \<open>An OpenSSL process: SSL object at 4096, EVP_CIPHER_CTX at 4112, GCM context at 4128.\<close>

definition example_h :: bytes where "example_h = [1, 2, 3, 4, 5, 6, 7, 8, 9, 10, 11, 12, 13, 14, 15, 16]"

definition ossl_offsets :: tls_offsets where
  "ossl_offsets = \<lparr>ssl_to_wrl = 8, wrl_to_enc_ctx = 0, enc_ctx_to_algctx = 8, algctx_to_h = 24,
     ssl_to_version = 0xFFFFFFFF, ssl_to_wbio = 0, of_tls_lib = TLS_LIB_OPENSSL, bssl_ssl_to_s3 = 0,
     bssl_s3_to_aead = 0, bssl_aead_to_aeskey = 0, ossl_algctx_to_gcm_key = 8, ossl_algctx_to_ks = 16,
     ossl_algctx_to_vaes_hkey1 = 0\<rparr>"

definition ossl_memory :: bytes where
  "ossl_memory = [0x10, 0x10, 0, 0, 0, 0, 0, 0] @ replicate 8 0 @ [0x20, 0x10, 0, 0, 0, 0, 0, 0] @ replicate 8 0
     @ [0x30, 0x10, 0, 0, 0, 0, 0, 0] @ replicate 8 0 @ (rev (take 8 example_h) @ rev (drop 8 example_h))"

definition ossl_env :: kenv where "ossl_env = example_env (mem_block 4104 ossl_memory)"

definition ossl_config :: config where
  "ossl_config = \<lparr>secret_map = \<lambda>_. None, secret_acl = \<lambda>_. None, secret_binding_mode = 0, sni_check_mode = 0,
     tls_offset_config = [\<lparr>bk_cgroup_id = 11, bk_exe_inode = 12\<rparr> \<mapsto> ossl_offsets],
     go_tls_offset_config = \<lambda>_. None, tls_strategy = \<lambda>_. None, trusted_dns_servers = \<lambda>_. None,
     dns_whitelist_enabled = 0, vip_config = \<lparr>vc_net4 = 0, vc_mask4 = 0, vc_net6 = replicate 16 0, vc_mask6 = replicate 16 0\<rparr>,
     vip_host_ip = \<lambda>_. None, vip_ip_host = \<lambda>_. None, vip_pod_host = \<lambda>_. None\<rparr>"

definition example_xor_pending :: xor_pending_val where
  "example_xor_pending = \<lparr>xp_ssl_ptr = 4096, xp_tgid = 7, xp_patch_count = 1,
     xp_patches = [example_patch, no_patch, no_patch, no_patch], xp_active = True, xp_chain_type = CHAIN_SSL,
     xp_memory_bio = False, xp_h_valid = False, xp_plaintext_len = 31, xp_created_at = 0,
     xp_ghash_h = replicate 16 0, xp_cipher_type = KLOAK_CIPHER_UNKNOWN, xp_nonce_len = 0\<rparr>"

lemma ossl_env_ptrs:
  "read_user_ptr ossl_env 4104 = Some 4112" "read_user_ptr ossl_env 4120 = Some 4128"
  "word_at ossl_env 8 4136 (4144 :: u64)"
  "maps_to (ke_mem ossl_env) 4152 (rev (take 8 example_h) @ rev (drop 8 example_h))"
proof -
  have "maps_to (ke_mem ossl_env) 4104 ossl_memory"
    using maps_to_block [of ossl_memory 4104] by (simp add: ossl_env_def ossl_memory_def example_h_def)
  then have m: "maps_to (ke_mem ossl_env) 4104 [0x10, 0x10, 0, 0, 0, 0, 0, 0]"
      "maps_to (ke_mem ossl_env) 4120 [0x20, 0x10, 0, 0, 0, 0, 0, 0]"
      "maps_to (ke_mem ossl_env) 4136 [0x30, 0x10, 0, 0, 0, 0, 0, 0]"
      "maps_to (ke_mem ossl_env) 4152 (rev (take 8 example_h) @ rev (drop 8 example_h))"
    unfolding ossl_memory_def maps_to_append by simp_all
  have "le_word [0x10, 0x10, 0, 0, 0, 0, 0, 0] = (4112 :: u64)" "le_word [0x20, 0x10, 0, 0, 0, 0, 0, 0] = (4128 :: u64)"
      "le_word [0x30, 0x10, 0, 0, 0, 0, 0, 0] = (4144 :: u64)" by code_simp+
  then show "read_user_ptr ossl_env 4104 = Some 4112" "read_user_ptr ossl_env 4120 = Some 4128"
      "word_at ossl_env 8 4136 (4144 :: u64)"
    by (simp_all add: read_user_ptr_def word_at_def maps_to_read_word [OF m(1)] maps_to_read_word [OF m(2)]
        maps_to_read_word [OF m(3)])
  show "maps_to (ke_mem ossl_env) 4152 (rev (take 8 example_h) @ rev (drop 8 example_h))" by (rule m(4))
qed

lemma ossl_env_walk:
  "binary_offsets ossl_config ossl_env ok = (if ok ossl_offsets then Some ossl_offsets else None)"
  "ssl_enc_ctx ossl_env ossl_offsets 4096 = Some 4112"
  "read_user_ptr ossl_env (4112 + ucast (enc_ctx_to_algctx ossl_offsets)) = Some 4128"
  "gcm_context ossl_env ossl_offsets 4128 example_h"
  "ssl_nonce_len ossl_env ossl_offsets 4096 = 0xFF"
proof -
  have e: "ke_cgroup_id ossl_env = 11" "ke_exe_inode ossl_env = 12" by (simp_all add: ossl_env_def)
  show "binary_offsets ossl_config ossl_env ok = (if ok ossl_offsets then Some ossl_offsets else None)"
    by (simp add: binary_offsets_def e ossl_config_def Let_def)
  show "ssl_enc_ctx ossl_env ossl_offsets 4096 = Some 4112"
    using ossl_env_ptrs(1) by (simp add: ssl_enc_ctx_def ossl_offsets_def Let_def)
  show "read_user_ptr ossl_env (4112 + ucast (enc_ctx_to_algctx ossl_offsets)) = Some 4128"
    using ossl_env_ptrs(2) by (simp add: ossl_offsets_def)
  have "example_h \<noteq> replicate 16 0" "length example_h = 16" by code_simp+
  then show "gcm_context ossl_env ossl_offsets 4128 example_h"
    using ossl_env_ptrs(3,4) by (simp add: gcm_context_def ossl_offsets_def)
  show "ssl_nonce_len ossl_env ossl_offsets 4096 = 0xFF"
    by (simp add: ssl_nonce_len_def ossl_offsets_def)
qed

theorem kprobe_conn_state_recovers_witness:
  "fst (kprobe_conn_state ossl_config ossl_env example_xor_pending example_kmaps)
    = Some \<lparr>cs_ghash_h = example_h, cs_cipher_type = KLOAK_CIPHER_AES_GCM, cs_nonce_len = 0xFF\<rparr>"
proof -
  have "conn_memory ossl_config ossl_env example_xor_pending example_h 0xFF"
    using ossl_env_walk by (auto simp: conn_memory_def example_xor_pending_def offsets_calibrated_def ossl_offsets_def)
  then show ?thesis using kprobe_conn_state_recovers by blast
qed

text \<open>
  C38: the H that \<open>EVP_CipherInit_ex\<close> keyed reaches the SSL_write that uses the cipher context:
  cached at the return probe, whatever runs in between, it is what \<open>bpf_h_extract\<close> stores for the
  connection. A context that is not (any more) a keyed GCM context loses its cached H.
\<close>

theorem evp_hooks_h_extract:
  assumes "tracked_cgroups s (ke_cgroup_id e) \<noteq> None" "ctx \<noteq> 0" "ke_room e EVP_INIT_SCRATCH"
    and "ke_pid_tgid e' = ke_pid_tgid e"
    and "evp_init_scratch s1 (ke_pid_tgid e) = evp_init_scratch (bpf_uprobe_evp_cipher_init e ctx s) (ke_pid_tgid e)"
    and "binary_offsets cfg e' (\<lambda>off. enc_ctx_to_algctx off \<noteq> 0) = Some off"
    and "read_user_ptr e' (ctx + ucast (enc_ctx_to_algctx off)) = Some algctx"
    and "cur_tgid e2 = cur_tgid e" "evp_h_cache s2 = evp_h_cache (bpf_uretprobe_evp_cipher_init cfg e' s1)"
    and "sb_ssl_ptr (scratch s2) = ssl" "ssl \<noteq> 0" "binary_offsets cfg e2 (\<lambda>off. ssl_to_wrl off \<noteq> 0) = Some off2"
    and "ssl_enc_ctx e2 off2 ssl = Some ctx"
  shows "(gcm_context e' off algctx h \<longrightarrow> (\<exists>s'. bpf_h_extract cfg e2 s2 = (True, s')
      \<and> tls_conn_state s' \<lparr>ck_tgid = cur_tgid e, ck_ssl_ptr = ssl\<rparr>
        = Some \<lparr>cs_ghash_h = h, cs_cipher_type = KLOAK_CIPHER_AES_GCM, cs_nonce_len = ssl_nonce_len e2 off2 ssl\<rparr>))
    \<and> (ossl_algctx_to_gcm_key off \<noteq> 0 \<and> ossl_algctx_to_ks off \<noteq> 0
        \<and> (\<exists>w :: u64. word_at e' 8 (algctx + ucast (ossl_algctx_to_gcm_key off)) w \<and> w \<noteq> algctx + ucast (ossl_algctx_to_ks off))
      \<longrightarrow> evp_h_cache s2 \<lparr>ek_tgid = cur_tgid e, ek_evp_ctx_ptr = ctx\<rparr> = None)"
proof -
  have i: "evp_init_scratch s1 (ke_pid_tgid e') = Some ctx"
    using assms(1-5) by (auto simp: bpf_uprobe_evp_cipher_init_def map_put_def)
  have t: "cur_tgid e' = cur_tgid e" using assms(4) by (simp add: cur_tgid_def)
  show ?thesis
    using uretprobe_caches [OF i assms(6,7), of h] uretprobe_drops [OF i assms(6,7)]
      h_extract_cached [OF assms(10-13), of h] assms(8,9) t by auto
qed

theorem evp_hooks_h_extract_witness:
  "\<exists>s'. bpf_h_extract ossl_config ossl_env ((bpf_uretprobe_evp_cipher_init ossl_config ossl_env
      (bpf_uprobe_evp_cipher_init ossl_env 4112 (example_kmaps\<lparr>tracked_cgroups := [11 \<mapsto> 1]\<rparr>)))
        \<lparr>scratch := (scratch example_kmaps)\<lparr>sb_ssl_ptr := 4096\<rparr>\<rparr>) = (True, s')
    \<and> tls_conn_state s' \<lparr>ck_tgid = 7, ck_ssl_ptr = 4096\<rparr>
      = Some \<lparr>cs_ghash_h = example_h, cs_cipher_type = KLOAK_CIPHER_AES_GCM, cs_nonce_len = 0xFF\<rparr>"
proof -
  let ?s = "example_kmaps\<lparr>tracked_cgroups := [11 \<mapsto> 1]\<rparr>"
  let ?s1 = "bpf_uprobe_evp_cipher_init ossl_env 4112 ?s"
  let ?s2 = "(bpf_uretprobe_evp_cipher_init ossl_config ossl_env ?s1)\<lparr>scratch := (scratch example_kmaps)\<lparr>sb_ssl_ptr := 4096\<rparr>\<rparr>"
  have e: "tracked_cgroups ?s (ke_cgroup_id ossl_env) \<noteq> None" "ke_room ossl_env EVP_INIT_SCRATCH" "cur_tgid ossl_env = 7"
    by (simp_all add: ossl_env_def)
  have b: "binary_offsets ossl_config ossl_env (\<lambda>off. enc_ctx_to_algctx off \<noteq> 0) = Some ossl_offsets"
      "binary_offsets ossl_config ossl_env (\<lambda>off. ssl_to_wrl off \<noteq> 0) = Some ossl_offsets"
    using ossl_env_walk(1) by (simp_all add: ossl_offsets_def)
  show ?thesis
    using evp_hooks_h_extract [OF e(1) _ e(2) refl refl b(1) ossl_env_walk(3) refl, of ?s2 4096 ossl_offsets example_h]
      b(2) ossl_env_walk e(3) by simp
qed

end
