(* ===== verification/Write_Scan.thy ===== *)
theory Write_Scan
  imports Process_Track
begin

text \<open>
  The entry probes of the TLS write functions (\<open>bpf_uprobe_ssl_write\<close>, \<open>bpf_uprobe_go_tls_write\<close>) and
  the prescan they run over the plaintext with \<open>bpf_loop\<close> (\<open>prescan_chunk\<close>): chunks of 256 bytes, 249
  apart, so that neighbouring chunks overlap by one byte less than a placeholder key.

  The reference of the scan is the list of all positions of the whole plaintext where a placeholder
  starts, in order, cut after four.
\<close>

section \<open>The code\<close>

definition CHUNK_STRIDE :: nat where "CHUNK_STRIDE = MAX_DATA_SIZE - (SECRET_KEY_LEN - 1)"

text \<open>The inner loop, from round \<open>i\<close> with \<open>n\<close> rounds left.\<close>

fun prescan_scan :: "nat \<Rightarrow> nat \<Rightarrow> u32 \<Rightarrow> kmaps \<Rightarrow> kmaps" where
  "prescan_scan 0 i offset s = s"
| "prescan_scan (Suc n) i offset s =
     (let sd = scratch s; idx = unat (sb_xor_match_count sd); at = drop (i mod MAX_DATA_SIZE) (sb_data sd)
      in if idx \<ge> XOR_MAX_MATCHES then s
         else if is_kloak_prefix at \<or> is_kloak_prefix_huffman at then
           prescan_scan n (Suc i) offset (dbg_inc DBG_XOR_PRESCAN_MATCH (s\<lparr>scratch := sd\<lparr>
             sb_xor_matches := (sb_xor_matches sd)[idx mod XOR_MAX_MATCHES :=
               \<lparr>xm_pos = offset + of_nat i, xm_key = take SECRET_KEY_LEN at\<rparr>],
             sb_xor_match_count := sb_xor_match_count sd + 1\<rparr>\<rparr>))
         else prescan_scan n (Suc i) offset s)"

definition prescan_chunk :: "umem \<Rightarrow> u64 \<Rightarrow> u32 \<Rightarrow> nat \<Rightarrow> kmaps \<Rightarrow> bool \<times> kmaps" where
  "prescan_chunk mem user_data_ptr total_len chunk_idx s =
     (let offset = of_nat chunk_idx * of_nat CHUNK_STRIDE :: u32 in
      if offset \<ge> total_len then (True, s)
      else if unat (sb_xor_match_count (scratch s)) \<ge> XOR_MAX_MATCHES then (True, s)
      else let read_len = min (unat (total_len - offset)) MAX_DATA_SIZE;
               bs = snd (probe_read_user mem read_len (user_data_ptr + ucast offset));
               s = s\<lparr>scratch := (scratch s)\<lparr>sb_data := put_at 0 bs (sb_data (scratch s))\<rparr>\<rparr>;
               scan_limit = (if read_len \<ge> SECRET_KEY_LEN then read_len - SECRET_KEY_LEN + 1 else 0)
           in (False, prescan_scan (min MAX_DATA_SIZE scan_limit) 0 offset s))"

text \<open>
  The body the two probes share once they have their arguments: the first chunk, the fields of the
  write and the prescan. The number of chunks is computed in 32 bits.
\<close>

definition scan_write :: "kenv \<Rightarrow> u64 \<Rightarrow> u64 \<Rightarrow> u32 \<Rightarrow> u32 \<Rightarrow> chain_type \<Rightarrow> bool \<Rightarrow> kmaps \<Rightarrow> kmaps" where
  "scan_write e ssl_ptr data_ptr read_len0 total_len chain memory_bio s =
     (let read_len = (if read_len0 > of_nat MAX_DATA_SIZE then of_nat MAX_DATA_SIZE else read_len0);
          bs = snd (probe_read_user (ke_mem e) (unat read_len) data_ptr);
          s = dbg_inc DBG_XOR_CONN_CHECK (s\<lparr>scratch := (scratch s)\<lparr>
            sb_data := put_at 0 bs (sb_data (scratch s)),
            sb_user_data_ptr := data_ptr, sb_read_len := read_len, sb_total_data_len := total_len,
            sb_memory_bio := memory_bio, sb_ssl_ptr := ssl_ptr, sb_chain_type := chain, sb_h_fresh := False,
            sb_xor_match_count := 0, sb_xor_current_match := 0\<rparr>\<rparr>);
          num_chunks = (total_len + of_nat CHUNK_STRIDE - 1) div of_nat CHUNK_STRIDE
      in bpf_loop (unat num_chunks) (prescan_chunk (ke_mem e) data_ptr total_len) s)"

text \<open>The slots of \<open>prog_array\<close> the programs tail-call, and none.\<close>

datatype tail_call = NO_TAIL_CALL | TAIL_XOR_PATH | TAIL_H_EXTRACT

definition bpf_uprobe_go_tls_write :: "kenv \<Rightarrow> u64 \<Rightarrow> u64 \<Rightarrow> u64 \<Rightarrow> kmaps \<Rightarrow> tail_call \<times> kmaps" where
  "bpf_uprobe_go_tls_write e conn_ptr data_ptr data_len s =
     (if data_ptr = 0 \<or> data_len = 0 then (NO_TAIL_CALL, s)
      else (TAIL_XOR_PATH, scan_write e conn_ptr data_ptr (ucast data_len) (ucast data_len) CHAIN_GO_TLS False s))"

definition STRATEGY_LIBCRYPTO_HOOK :: u8 where "STRATEGY_LIBCRYPTO_HOOK = 1"

definition bpf_uprobe_ssl_write :: "config \<Rightarrow> kenv \<Rightarrow> u64 \<Rightarrow> u64 \<Rightarrow> u32 \<Rightarrow> kmaps \<Rightarrow> tail_call \<times> kmaps" where
  "bpf_uprobe_ssl_write cfg e ssl_ptr data_ptr num s =
     (if tracked_cgroups s (ke_cgroup_id e) = None then (NO_TAIL_CALL, s)
      else let bio_fd = ssl_read_fd cfg e ssl_ptr in
        if bio_fd \<noteq> 0 \<and> conn_ip_map s \<lparr>cik_tgid = cur_tgid e, cik_fd = bio_fd\<rparr> = None then (NO_TAIL_CALL, s)
        else if data_ptr = 0 \<or> sint num \<le> 0 then (NO_TAIL_CALL, s)
        else let s = scan_write e ssl_ptr data_ptr num num CHAIN_SSL (bio_fd = 0) s in
          (case tls_strategy cfg (cur_tgid e) of
             Some st \<Rightarrow> if st = STRATEGY_LIBCRYPTO_HOOK then (TAIL_H_EXTRACT, s) else (TAIL_XOR_PATH, s)
           | None \<Rightarrow> (TAIL_XOR_PATH, s)))"

section \<open>The reference\<close>

text \<open>A placeholder starts at position \<open>i\<close> of the plaintext.\<close>

definition placeholder_at :: "bytes \<Rightarrow> nat \<Rightarrow> bool" where
  "placeholder_at d i \<longleftrightarrow> i + SECRET_KEY_LEN \<le> length d
     \<and> (is_kloak_prefix (drop i d) \<or> is_kloak_prefix_huffman (drop i d))"

definition placeholder_match :: "bytes \<Rightarrow> nat \<Rightarrow> xor_match" where
  "placeholder_match d i = \<lparr>xm_pos = of_nat i, xm_key = take SECRET_KEY_LEN (drop i d)\<rparr>"

definition placeholders :: "bytes \<Rightarrow> xor_match list" where
  "placeholders d = map (placeholder_match d) (filter (placeholder_at d) [0..<length d])"

text \<open>The matches of a scratch buffer.\<close>

definition found :: "scratch_buf \<Rightarrow> xor_match list" where
  "found sd = take (unat (sb_xor_match_count sd)) (sb_xor_matches sd)"

definition scratch_ok :: "scratch_buf \<Rightarrow> bool" where
  "scratch_ok sd \<longleftrightarrow> length (sb_xor_matches sd) = XOR_MAX_MATCHES
     \<and> unat (sb_xor_match_count sd) \<le> XOR_MAX_MATCHES \<and> length (sb_data sd) = MAX_DATA_SIZE"

text \<open>What the scan leaves alone.\<close>

definition no_scan :: "kmaps \<Rightarrow> kmaps" where
  "no_scan s = s\<lparr>debug_counters := \<lambda>_. 0,
     scratch := (scratch s)\<lparr>sb_data := [], sb_xor_matches := [], sb_xor_match_count := 0\<rparr>\<rparr>"

lemma no_scan_dbg [simp]: "no_scan (dbg_inc i s) = no_scan s"
  by (simp add: no_scan_def dbg_inc_def)

section \<open>One chunk\<close>

lemma found_push:
  fixes m :: xor_match
  assumes "scratch_ok sd" "unat (sb_xor_match_count sd) < XOR_MAX_MATCHES"
  defines "sd' \<equiv> sd\<lparr>sb_xor_matches := (sb_xor_matches sd)[unat (sb_xor_match_count sd) := m],
      sb_xor_match_count := sb_xor_match_count sd + 1\<rparr>"
  shows "found sd' = found sd @ [m]" "scratch_ok sd'"
proof -
  have "unat (sb_xor_match_count sd + 1) = Suc (unat (sb_xor_match_count sd))"
    using assms(2) by (simp add: unat_plus_noof XOR_MAX_MATCHES_def)
  then show "found sd' = found sd @ [m]" "scratch_ok sd'"
    using assms(1,2) by (simp_all add: sd'_def found_def scratch_ok_def take_Suc_conv_app_nth)
qed

lemma length_found: "scratch_ok sd \<Longrightarrow> length (found sd) = unat (sb_xor_match_count sd)"
  by (simp add: found_def scratch_ok_def)

lemma take_found [simp]: "scratch_ok sd \<Longrightarrow> take XOR_MAX_MATCHES (found sd) = found sd"
  by (simp add: found_def scratch_ok_def min_def)

lemma prefix_cong:
  assumes "take 8 a = take 8 b"
  shows "is_kloak_prefix a = is_kloak_prefix b" "is_kloak_prefix_huffman a = is_kloak_prefix_huffman b"
proof -
  have "a ! j = b ! j" if "j < 8" for j
    using arg_cong [OF assms, of "\<lambda>l. l ! j"] that by simp
  then show "is_kloak_prefix a = is_kloak_prefix b" "is_kloak_prefix_huffman a = is_kloak_prefix_huffman b"
    by (simp_all add: is_kloak_prefix_def is_kloak_prefix_huffman_def)
qed

text \<open>The positions \<open>i\<close>, \<open>i + 1\<close>, \dots, \<open>i + n - 1\<close> of a chunk that begins at position \<open>o'\<close> of the plaintext.\<close>

lemma prescan_scan_found:
  assumes "scratch_ok (scratch s)" "take r (sb_data (scratch s)) = take r (drop o' d)"
    and "i + n + SECRET_KEY_LEN \<le> r + 1 \<or> n = 0" "r \<le> MAX_DATA_SIZE" "o' + r \<le> length d"
  defines "s' \<equiv> prescan_scan n i (of_nat o') s"
  shows "found (scratch s') = take XOR_MAX_MATCHES (found (scratch s)
      @ map (placeholder_match d) (filter (placeholder_at d) [o' + i..<o' + i + n]))
    \<and> scratch_ok (scratch s') \<and> no_scan s' = no_scan s"
  using assms(1-3) unfolding s'_def
proof (induction n arbitrary: i s)
  case 0
  then show ?case by simp
next
  case (Suc n)
  let ?sd = "scratch s" and ?k = "unat (sb_xor_match_count (scratch s))"
  let ?at = "drop (i mod MAX_DATA_SIZE) (sb_data ?sd)"
  have i: "i + 8 \<le> r" "i < MAX_DATA_SIZE" using Suc.prems(3) assms(4) by (simp_all add: SECRET_KEY_LEN_def)
  have at: "take 8 ?at = take 8 (drop (o' + i) d)"
  proof -
    have "take 8 ?at = take 8 (drop i (take r (sb_data ?sd)))" using i by (simp add: drop_take)
    also have "\<dots> = take 8 (drop i (take r (drop o' d)))" using Suc.prems(2) by simp
    finally show ?thesis using i by (simp add: drop_take add.commute)
  qed
  have p: "placeholder_at d (o' + i) \<longleftrightarrow> is_kloak_prefix ?at \<or> is_kloak_prefix_huffman ?at"
    using i assms(5) prefix_cong [OF at] by (simp add: placeholder_at_def SECRET_KEY_LEN_def)
  have m: "\<lparr>xm_pos = of_nat o' + of_nat i, xm_key = take SECRET_KEY_LEN ?at\<rparr> = placeholder_match d (o' + i)"
    using at by (simp add: placeholder_match_def SECRET_KEY_LEN_def)
  have range: "[o' + i..<o' + i + Suc n] = (o' + i) # [o' + Suc i..<o' + Suc i + n]" by (simp add: upt_rec)
  have next': "Suc i + n + SECRET_KEY_LEN \<le> r + 1 \<or> n = 0" using Suc.prems(3) by simp
  show ?case
  proof (cases "?k \<ge> XOR_MAX_MATCHES")
    case True
    then show ?thesis using Suc.prems(1) length_found [OF Suc.prems(1)] by (simp add: Let_def scratch_ok_def)
  next
    case False
    then have k: "?k < XOR_MAX_MATCHES" "?k mod XOR_MAX_MATCHES = ?k" by simp_all
    show ?thesis
    proof (cases "placeholder_at d (o' + i)")
      case True
      let ?sd' = "?sd\<lparr>sb_xor_matches := (sb_xor_matches ?sd)[?k := placeholder_match d (o' + i)],
          sb_xor_match_count := sb_xor_match_count ?sd + 1\<rparr>"
      let ?s = "dbg_inc DBG_XOR_PRESCAN_MATCH (s\<lparr>scratch := ?sd'\<rparr>)"
      have step: "prescan_scan (Suc n) i (of_nat o') s = prescan_scan n (Suc i) (of_nat o') ?s"
        using False True k p m by (simp add: Let_def)
      have "no_scan ?s = no_scan s" by (simp add: no_scan_def dbg_inc_def)
      then show ?thesis
        using Suc.IH [of ?s "Suc i", OF _ _ next'] found_push [OF Suc.prems(1) k(1)] Suc.prems(2) True
        unfolding step range by (simp del: upt_Suc prescan_scan.simps)
    next
      case False
      then have "prescan_scan (Suc n) i (of_nat o') s = prescan_scan n (Suc i) (of_nat o') s"
        using k p by (simp add: Let_def)
      then show ?thesis
        using Suc.IH [OF Suc.prems(1,2) next'] False unfolding range by (simp del: upt_Suc prescan_scan.simps)
    qed
  qed
qed

section \<open>The whole scan\<close>

text \<open>The first four placeholders that start before position \<open>k\<close>.\<close>

definition found_upto :: "bytes \<Rightarrow> nat \<Rightarrow> xor_match list" where
  "found_upto d k = take XOR_MAX_MATCHES (map (placeholder_match d) (filter (placeholder_at d) [0..<k]))"

lemma found_upto_extend:
  assumes "k \<le> k'" "\<forall>i. k \<le> i \<and> i < k' \<longrightarrow> \<not> placeholder_at d i"
  shows "found_upto d k' = found_upto d k"
proof -
  have "[0..<k'] = [0..<k] @ [k..<k']" using assms(1) by (metis le0 le_Suc_ex upt_add_eq_append)
  moreover have "filter (placeholder_at d) [k..<k'] = []" using assms(2) by (simp add: filter_empty_conv)
  ultimately show ?thesis by (simp add: found_upto_def)
qed

lemma found_upto_full: "found_upto d k' = found_upto d k" if "length (found_upto d k) = XOR_MAX_MATCHES" "k \<le> k'"
proof -
  have "[0..<k'] = [0..<k] @ [k..<k']" using that(2) by (metis le0 le_Suc_ex upt_add_eq_append)
  then show ?thesis using that(1) by (simp add: found_upto_def)
qed

lemma prescan_chunk_found:
  assumes "maps_to mem p d" "length d < 2 ^ 32" "c < BPF_MAX_LOOPS" "scratch_ok (scratch s)"
    and "found (scratch s) = found_upto d (c * 249)"
  shows "\<exists>s'. prescan_chunk mem p (of_nat (length d)) c s
      = (c * 249 \<ge> length d \<or> length (found_upto d (c * 249)) = XOR_MAX_MATCHES, s')
    \<and> found (scratch s') = found_upto d (Suc c * 249) \<and> scratch_ok (scratch s') \<and> no_scan s' = no_scan s"
proof -
  define k where "k = c * 249"
  have c: "k < 2 ^ 32" "Suc c * 249 = k + 249" using assms(3) by (simp_all add: BPF_MAX_LOOPS_def k_def)
  have off: "of_nat c * of_nat CHUNK_STRIDE = (of_nat k :: u32)"
    by (simp add: CHUNK_STRIDE_def MAX_DATA_SIZE_def SECRET_KEY_LEN_def k_def)
  have len: "length (found_upto d k) = unat (sb_xor_match_count (scratch s))"
    using length_found [OF assms(4)] assms(5) by (simp add: k_def)
  consider (beyond) "length d \<le> k" | (full) "k < length d" "length (found_upto d k) = XOR_MAX_MATCHES"
    | (scan) "k < length d" "length (found_upto d k) < XOR_MAX_MATCHES"
    using len assms(4) unfolding scratch_ok_def by linarith
  then have "\<exists>s'. prescan_chunk mem p (of_nat (length d)) c s = (k \<ge> length d \<or> length (found_upto d k) = XOR_MAX_MATCHES, s')
      \<and> found (scratch s') = found_upto d (k + 249) \<and> scratch_ok (scratch s') \<and> no_scan s' = no_scan s"
  proof cases
    case beyond
    then have "found_upto d (k + 249) = found_upto d k"
      by (intro found_upto_extend) (auto simp: placeholder_at_def SECRET_KEY_LEN_def)
    then show ?thesis
      using beyond assms(2,4) assms(5) [folded k_def] c(1) unfolding prescan_chunk_def off Let_def by simp
  next
    case full
    then have "found_upto d (k + 249) = found_upto d k" by (intro found_upto_full) auto
    then show ?thesis
      using full assms(2,4) assms(5) [folded k_def] c(1) len unfolding prescan_chunk_def off Let_def by simp
  next
    case scan
    let ?r = "min (length d - k) MAX_DATA_SIZE"
    let ?n = "min MAX_DATA_SIZE (if ?r \<ge> SECRET_KEY_LEN then ?r - SECRET_KEY_LEN + 1 else 0)"
    let ?bs = "take ?r (drop k d)"
    let ?s = "s\<lparr>scratch := (scratch s)\<lparr>sb_data := put_at 0 ?bs (sb_data (scratch s))\<rparr>\<rparr>"
    have "maps_to mem p (take k d @ ?bs @ drop ?r (drop k d))" using assms(1) by (simp del: drop_drop)
    then have "maps_to mem (p + of_nat k) ?bs" using scan(1) unfolding maps_to_append by simp
    moreover have "ucast (of_nat k :: u32) = (of_nat k :: u64)" using c(1) by (simp add: unsigned_of_nat take_bit_nat_eq_self)
    ultimately have rd: "probe_read_user mem ?r (p + ucast (of_nat k :: u32)) = (True, ?bs)" by (simp add: maps_to_read)
    have rl: "min (unat (of_nat (length d) - of_nat k :: u32)) MAX_DATA_SIZE = ?r"
      using c(1) assms(2) scan(1) by (simp add: unat_minus_noof flip: of_nat_diff)
    have step: "prescan_chunk mem p (of_nat (length d)) c s = (False, prescan_scan ?n 0 (of_nat k) ?s)"
      using scan assms(2) c(1) len
      unfolding prescan_chunk_def off Let_def rl rd by simp
    have ok: "scratch_ok (scratch ?s)" "take ?r (sb_data (scratch ?s)) = take ?r (drop k d)" "found (scratch ?s) = found (scratch s)"
      using assms(4) by (simp_all add: scratch_ok_def put_at_def found_def)
    define n where "n = ?n"
    have n: "n \<le> 249" "n < 249 \<Longrightarrow> length d < k + n + 8"
      using scan(1) unfolding n_def MAX_DATA_SIZE_def SECRET_KEY_LEN_def min_def by (auto split: if_splits; linarith)+
    have bound: "0 + n + SECRET_KEY_LEN \<le> ?r + 1 \<or> n = 0" "?r \<le> MAX_DATA_SIZE" "k + ?r \<le> length d"
      using scan(1) by (auto simp: n_def min_def)
    have "\<not> placeholder_at d i" if "k + n \<le> i" "i < k + 249" for i
    proof -
      have "length d < k + n + 8" by (rule n(2)) (use that in linarith)
      then show ?thesis using that(1) unfolding placeholder_at_def SECRET_KEY_LEN_def by linarith
    qed
    then have "found_upto d (k + 249) = found_upto d (k + n)"
      using n(1) by (intro found_upto_extend) auto
    moreover have "[0..<k + n] = [0..<k] @ [k..<k + n]" by (rule upt_add_eq_append) simp
    ultimately have "take XOR_MAX_MATCHES (found_upto d k @ map (placeholder_match d)
        (filter (placeholder_at d) [k..<k + n])) = found_upto d (k + 249)"
      unfolding found_upto_def by (simp add: min_def)
    moreover have "no_scan ?s = no_scan s" by (simp add: no_scan_def)
    ultimately show ?thesis
      using prescan_scan_found [OF ok(1,2), of 0 n] scan ok(3) assms(5) [folded k_def] bound
      unfolding step n_def [symmetric] by auto
  qed
  then show ?thesis unfolding c(2) unfolding k_def .
qed

lemma prescan_found:
  assumes "maps_to mem p d" "length d < 2 ^ 32" "c + n \<le> BPF_MAX_LOOPS" "scratch_ok (scratch s)"
    and "found (scratch s) = found_upto d (c * 249)"
  defines "s' \<equiv> bpf_loop_from n c (prescan_chunk mem p (of_nat (length d))) s"
  shows "found (scratch s') = found_upto d ((c + n) * 249) \<and> scratch_ok (scratch s') \<and> no_scan s' = no_scan s"
  using assms(3-5) unfolding s'_def
proof (induction n arbitrary: c s)
  case (Suc n)
  obtain s1 where s1: "prescan_chunk mem p (of_nat (length d)) c s
      = (c * 249 \<ge> length d \<or> length (found_upto d (c * 249)) = XOR_MAX_MATCHES, s1)"
    "found (scratch s1) = found_upto d (Suc c * 249)" "scratch_ok (scratch s1)" "no_scan s1 = no_scan s"
    using prescan_chunk_found [OF assms(1,2) _ Suc.prems(2,3)] Suc.prems(1) by auto
  have later: "found_upto d ((c + Suc n) * 249) = found_upto d (Suc c * 249)" if "c * 249 \<ge> length d"
    using that by (intro found_upto_extend) (auto simp: placeholder_at_def SECRET_KEY_LEN_def)
  have full: "found_upto d ((c + Suc n) * 249) = found_upto d (Suc c * 249)"
    if "length (found_upto d (c * 249)) = XOR_MAX_MATCHES"
    using found_upto_full [OF that, of "(c + Suc n) * 249"] found_upto_full [OF that, of "Suc c * 249"] by simp
  show ?case
    using Suc.IH [of "Suc c" s1] s1 Suc.prems(1) later full by (auto simp: Let_def)
qed simp

text \<open>What a probe leaves behind: the fields of the write and the first four placeholders of its data.\<close>

definition scratch_shape :: "scratch_buf \<Rightarrow> bool" where
  "scratch_shape sd \<longleftrightarrow> length (sb_xor_matches sd) = XOR_MAX_MATCHES \<and> length (sb_data sd) = MAX_DATA_SIZE"

definition write_fields :: "u64 \<Rightarrow> u64 \<Rightarrow> nat \<Rightarrow> chain_type \<Rightarrow> bool \<Rightarrow> scratch_buf \<Rightarrow> scratch_buf" where
  "write_fields ssl_ptr data_ptr n chain memory_bio sd = sd\<lparr>sb_user_data_ptr := data_ptr,
     sb_read_len := of_nat (min n MAX_DATA_SIZE), sb_total_data_len := of_nat n, sb_memory_bio := memory_bio,
     sb_ssl_ptr := ssl_ptr, sb_chain_type := chain, sb_h_fresh := False, sb_xor_current_match := 0\<rparr>"

definition write_scanned :: "u64 \<Rightarrow> u64 \<Rightarrow> bytes \<Rightarrow> chain_type \<Rightarrow> bool \<Rightarrow> kmaps \<Rightarrow> kmaps \<Rightarrow> bool" where
  "write_scanned ssl_ptr data_ptr d chain memory_bio s s' \<longleftrightarrow>
     found (scratch s') = take XOR_MAX_MATCHES (placeholders d) \<and> scratch_ok (scratch s')
     \<and> no_scan s' = no_scan (s\<lparr>scratch := write_fields ssl_ptr data_ptr (length d) chain memory_bio (scratch s)\<rparr>)"

definition SCAN_LIMIT :: nat where "SCAN_LIMIT = BPF_MAX_LOOPS * CHUNK_STRIDE"

lemma CHUNK_STRIDE_249 [simp]: "CHUNK_STRIDE = 249"
  by (simp add: CHUNK_STRIDE_def MAX_DATA_SIZE_def SECRET_KEY_LEN_def)

lemma num_chunks:
  assumes "n + 248 < 2 ^ 32"
  shows "unat ((of_nat n + of_nat CHUNK_STRIDE - 1) div of_nat CHUNK_STRIDE :: u32) = (n + 248) div 249"
proof -
  have "of_nat n + of_nat CHUNK_STRIDE - 1 = (of_nat (n + 248) :: u32)" by simp
  then show ?thesis using assms by (simp add: unat_div unat_of_nat del: of_nat_add)
qed

lemma scan_write_found:
  assumes "maps_to (ke_mem e) data_ptr d" "length d \<le> SCAN_LIMIT" "scratch_shape (scratch s)"
  shows "write_scanned ssl_ptr data_ptr d chain memory_bio s
    (scan_write e ssl_ptr data_ptr (of_nat (length d)) (of_nat (length d)) chain memory_bio s)"
proof -
  let ?n = "length d" and ?r = "min (length d) MAX_DATA_SIZE"
  have n: "?n \<le> 2088763392" using assms(2) by (simp add: SCAN_LIMIT_def BPF_MAX_LOOPS_def)
  define bs where "bs = snd (probe_read_user (ke_mem e) ?r data_ptr)"
  have rl: "(if of_nat ?n > (of_nat MAX_DATA_SIZE :: u32) then of_nat MAX_DATA_SIZE else of_nat ?n) = (of_nat ?r :: u32)"
    using n by (auto simp: MAX_DATA_SIZE_def word_less_nat_alt unat_of_nat)
  have ur: "unat (of_nat ?r :: u32) = ?r" using n by (simp add: MAX_DATA_SIZE_def)
  define s0 where "s0 = dbg_inc DBG_XOR_CONN_CHECK (s\<lparr>scratch := (scratch s)\<lparr>
            sb_data := put_at 0 bs (sb_data (scratch s)),
            sb_user_data_ptr := data_ptr, sb_read_len := of_nat ?r, sb_total_data_len := of_nat ?n,
            sb_memory_bio := memory_bio, sb_ssl_ptr := ssl_ptr, sb_chain_type := chain, sb_h_fresh := False,
            sb_xor_match_count := 0, sb_xor_current_match := 0\<rparr>\<rparr>)"
  define k where "k = (?n + 248) div 249"
  have k: "k \<le> BPF_MAX_LOOPS" "?n \<le> k * 249" using n by (simp_all add: k_def BPF_MAX_LOOPS_def)
  have "scan_write e ssl_ptr data_ptr (of_nat ?n) (of_nat ?n) chain memory_bio s
      = bpf_loop k (prescan_chunk (ke_mem e) data_ptr (of_nat ?n)) s0"
    using n num_chunks [of ?n] unfolding scan_write_def Let_def rl ur s0_def bs_def k_def by simp
  also have "\<dots> = bpf_loop_from k 0 (prescan_chunk (ke_mem e) data_ptr (of_nat ?n)) s0"
    using k(1) by (simp add: bpf_loop_def)
  finally have run: "scan_write e ssl_ptr data_ptr (of_nat ?n) (of_nat ?n) chain memory_bio s
      = bpf_loop_from k 0 (prescan_chunk (ke_mem e) data_ptr (of_nat ?n)) s0" .
  have "length bs = ?r" by (simp add: bs_def)
  then have s0: "scratch_ok (scratch s0)" "found (scratch s0) = found_upto d (0 * 249)"
    using assms(3) by (simp_all add: s0_def scratch_ok_def scratch_shape_def found_def found_upto_def)
  have "found_upto d (k * 249) = found_upto d ?n"
    using k(2) by (intro found_upto_extend) (auto simp: placeholder_at_def SECRET_KEY_LEN_def)
  moreover have "found_upto d ?n = take XOR_MAX_MATCHES (placeholders d)" by (simp add: found_upto_def placeholders_def)
  moreover have "no_scan s0 = no_scan (s\<lparr>scratch := write_fields ssl_ptr data_ptr ?n chain memory_bio (scratch s)\<rparr>)"
    by (simp add: s0_def) (simp add: no_scan_def write_fields_def)
  ultimately show ?thesis
    using prescan_found [OF assms(1) _ _ s0, of k] k(1) n unfolding write_scanned_def run by simp
qed

lemma scan_write_too_long:
  assumes "SCAN_LIMIT < n" "n + 248 < 2 ^ 32"
  shows "found (scratch (scan_write e ssl_ptr data_ptr (of_nat n) (of_nat n) chain memory_bio s)) = []"
proof -
  have "(n + 248) div 249 > BPF_MAX_LOOPS" using assms(1) by (simp add: SCAN_LIMIT_def BPF_MAX_LOOPS_def)
  then show ?thesis
    using num_chunks [OF assms(2)] by (simp add: scan_write_def Let_def bpf_loop_def found_def)
qed

lemma ssl_write_scans:
  assumes "maps_to (ke_mem e) data_ptr d" "data_ptr \<noteq> 0" "d \<noteq> []" "length d \<le> SCAN_LIMIT" "scratch_shape (scratch s)"
    and "tracked_cgroups s (ke_cgroup_id e) \<noteq> None"
    and "ssl_read_fd cfg e ssl = 0 \<or> conn_ip_map s \<lparr>cik_tgid = cur_tgid e, cik_fd = ssl_read_fd cfg e ssl\<rparr> \<noteq> None"
  shows "\<exists>s'. bpf_uprobe_ssl_write cfg e ssl data_ptr (of_nat (length d)) s
      = (if tls_strategy cfg (cur_tgid e) = Some STRATEGY_LIBCRYPTO_HOOK then TAIL_H_EXTRACT else TAIL_XOR_PATH, s')
    \<and> write_scanned ssl data_ptr d CHAIN_SSL (ssl_read_fd cfg e ssl = 0) s s'"
proof -
  have n: "0 < length d" "length d < 2147483648" using assms(3,4) by (simp_all add: SCAN_LIMIT_def BPF_MAX_LOOPS_def)
  then have num: "sint (of_nat (length d) :: u32) = int (length d)"
    by (simp add: signed_of_nat signed_take_bit_int_eq_self)
  show ?thesis
    using scan_write_found [OF assms(1,4,5), of ssl CHAIN_SSL "ssl_read_fd cfg e ssl = 0"] n assms num
    unfolding bpf_uprobe_ssl_write_def Let_def by (auto split: option.splits)
qed

lemma go_write_scans:
  assumes "maps_to (ke_mem e) data_ptr d" "data_ptr \<noteq> 0" "d \<noteq> []" "length d \<le> SCAN_LIMIT" "scratch_shape (scratch s)"
  shows "\<exists>s'. bpf_uprobe_go_tls_write e conn data_ptr (of_nat (length d)) s = (TAIL_XOR_PATH, s')
    \<and> write_scanned conn data_ptr d CHAIN_GO_TLS False s s'"
proof -
  have n: "0 < length d" "length d < 2147483648" using assms(3,4) by (simp_all add: SCAN_LIMIT_def BPF_MAX_LOOPS_def)
  have u: "unat (of_nat (length d) :: u64) = length d" using n by (simp add: unat_of_nat)
  then have "(of_nat (length d) :: u64) \<noteq> 0" using n by (metis less_irrefl unat_0)
  moreover have "ucast (of_nat (length d) :: u64) = (of_nat (length d) :: u32)"
    using n by (simp add: unsigned_of_nat take_bit_nat_eq_self)
  ultimately show ?thesis
    using scan_write_found [OF assms(1,4,5), of conn CHAIN_GO_TLS False] assms(2) unfolding bpf_uprobe_go_tls_write_def by auto
qed

section \<open>Properties\<close>

definition empty_config :: config where
  "empty_config = \<lparr>secret_map = \<lambda>_. None, secret_acl = \<lambda>_. None, secret_binding_mode = 0, sni_check_mode = 0,
     tls_offset_config = \<lambda>_. None, go_tls_offset_config = \<lambda>_. None, tls_strategy = \<lambda>_. None,
     trusted_dns_servers = \<lambda>_. None, dns_whitelist_enabled = 0,
     vip_config = \<lparr>vc_net4 = 0, vc_mask4 = 0, vc_net6 = replicate 16 0, vc_mask6 = replicate 16 0\<rparr>,
     vip_host_ip = \<lambda>_. None, vip_ip_host = \<lambda>_. None, vip_pod_host = \<lambda>_. None\<rparr>"

text \<open>A plaintext with a placeholder and one in Huffman code.\<close>

definition example_plaintext :: bytes where
  "example_plaintext = [0x61, 0x6B, 0x6C, 0x3A, 0x3A, 0x61, 0x62, 0x63, 0x64]
     @ [0xEB, 0x45, 0xCB, 1, 2, 3, 4, 5]"

lemma example_placeholders:
  "placeholders example_plaintext = [\<lparr>xm_pos = 1, xm_key = [0x6B, 0x6C, 0x3A, 0x3A, 0x61, 0x62, 0x63, 0x64]\<rparr>,
     \<lparr>xm_pos = 9, xm_key = [0xEB, 0x45, 0xCB, 1, 2, 3, 4, 5]\<rparr>]"
  by code_simp

lemma example_scratch_shape: "scratch_shape (scratch example_kmaps)"
  by (simp add: scratch_shape_def example_kmaps_def)

text \<open>
  C39: a write of more than 2^23 * 249 bytes is not scanned at all (\<open>bpf_loop\<close> refuses the number of
  chunks), so none of its placeholders is ever replaced. \<open>SSL_write\<close> takes up to 2^31 - 1 bytes.
\<close>

theorem long_write_not_scanned:
  assumes "SCAN_LIMIT < n" "n < 2 ^ 31" "tracked_cgroups s (ke_cgroup_id e) \<noteq> None" "ssl_read_fd cfg e ssl = 0"
    and "data_ptr \<noteq> 0"
  shows "fst (bpf_uprobe_ssl_write cfg e ssl data_ptr (of_nat n) s) \<noteq> NO_TAIL_CALL
    \<and> found (scratch (snd (bpf_uprobe_ssl_write cfg e ssl data_ptr (of_nat n) s))) = []"
proof -
  have "sint (of_nat n :: u32) = int n" using assms(2) by (simp add: signed_of_nat signed_take_bit_int_eq_self)
  then show ?thesis
    using assms scan_write_too_long [OF assms(1), of e ssl data_ptr CHAIN_SSL True s]
    unfolding bpf_uprobe_ssl_write_def Let_def by (auto split: option.splits)
qed

theorem long_write_not_scanned_witness:
  "found (scratch (snd (bpf_uprobe_ssl_write empty_config (example_env (mem_block 4096 example_plaintext)) 0 4096
      2147483647 (example_kmaps\<lparr>tracked_cgroups := [11 \<mapsto> 1]\<rparr>)))) = []"
  using long_write_not_scanned [of 2147483647 "example_kmaps\<lparr>tracked_cgroups := [11 \<mapsto> 1]\<rparr>"
      "example_env (mem_block 4096 example_plaintext)" empty_config 0 4096]
  by (simp add: SCAN_LIMIT_def BPF_MAX_LOOPS_def ssl_read_fd_def)

end
