(* ===== verification/Xor_Path.thy ===== *)
theory Xor_Path
  imports Write_Scan Key_Extract
begin

text \<open>
  \<open>bpf_xor_path\<close>: for each placeholder of a write, one run that tail-calls itself, the difference of
  placeholder and secret as a staged patch, and at the end the patches of the write under the process
  in \<open>xor_pending\<close>. Then the whole chain of programs a write starts (\<open>prog_array\<close>).

  The reference is one list function over the placeholders found: those with a secret of legal length
  that the container may redeem become patches, in order.
\<close>

section \<open>The code\<close>

definition xor_stage_init :: "kenv \<Rightarrow> kmaps \<Rightarrow> xor_pending_val" where
  "xor_stage_init e s =
     (let sd = scratch s;
          p = \<lparr>xp_ssl_ptr = sb_ssl_ptr sd, xp_tgid = cur_tgid e, xp_patch_count = 0,
            xp_patches = replicate XOR_MAX_PATCHES no_patch, xp_active = True, xp_chain_type = sb_chain_type sd,
            xp_memory_bio = sb_memory_bio sd, xp_h_valid = False, xp_plaintext_len = sb_total_data_len sd,
            xp_created_at = ke_ktime e, xp_ghash_h = replicate 16 0, xp_cipher_type = KLOAK_CIPHER_UNKNOWN,
            xp_nonce_len = 0\<rparr>
      in if sb_chain_type sd \<noteq> CHAIN_GO_TLS \<and> sb_h_fresh sd then
           (case tls_conn_state s \<lparr>ck_tgid = cur_tgid e, ck_ssl_ptr = sb_ssl_ptr sd\<rparr> of
              None \<Rightarrow> p
            | Some conn \<Rightarrow>
                if cs_cipher_type conn = KLOAK_CIPHER_AES_GCM
                then p\<lparr>xp_ghash_h := cs_ghash_h conn, xp_cipher_type := cs_cipher_type conn,
                       xp_nonce_len := cs_nonce_len conn, xp_h_valid := True\<rparr>
                else p)
         else p)"

text \<open>The exclusive or of the first bytes of the user data with the secret.\<close>

definition xor_delta_of :: "bytes \<Rightarrow> secret_value \<Rightarrow> bytes" where
  "xor_delta_of ct v = map (\<lambda>j. if j < unat (clamp_write_len (sv_len v)) then ct ! j XOR real_secret v ! j else ct ! j)
     [0..<SECRET_MAX_LEN]"

text \<open>The body between the lookup of the secret and \<open>next\<close>, for one match.\<close>

definition xor_stage_match :: "config \<Rightarrow> kenv \<Rightarrow> xor_match \<Rightarrow> kmaps \<Rightarrow> kmaps" where
  "xor_stage_match cfg e m s =
     (case secret_map cfg (xm_key m) of
        None \<Rightarrow> s
      | Some v \<Rightarrow>
          if sv_len v = 0 \<or> unat (sv_len v) > SECRET_MAX_LEN then s
          else let (allowed, s) = secret_binding_allows cfg e (xm_key m) s in
            if \<not> allowed then s
            else let s = dbg_inc DBG_XOR_SECRET_FOUND s;
                     ct = snd (probe_read_user (ke_mem e) SECRET_MAX_LEN
                       (sb_user_data_ptr (scratch s) + ucast (xm_pos m)));
                     w = (ghash_scratch s)\<lparr>ct_buf := xor_delta_of ct v\<rparr>;
                     p = staged_pending w; pi = unat (xp_patch_count p)
                 in if pi < XOR_MAX_PATCHES then
                      s\<lparr>ghash_scratch := w\<lparr>staged_pending := p\<lparr>
                        xp_patches := (xp_patches p)[pi mod XOR_MAX_PATCHES := \<lparr>secret_offset = xm_pos m,
                          secret_len = sv_len v, xor_delta = xor_delta_of ct v, patch_key = xm_key m\<rparr>],
                        xp_patch_count := xp_patch_count p + 1\<rparr>\<rparr>\<rparr>
                    else s\<lparr>ghash_scratch := w\<rparr>)"

text \<open>Whether it tail-calls itself, and the maps.\<close>

definition bpf_xor_path :: "config \<Rightarrow> kenv \<Rightarrow> kmaps \<Rightarrow> bool \<times> kmaps" where
  "bpf_xor_path cfg e s =
     (let sd = scratch s; mi = sb_xor_current_match sd in
      if mi \<ge> sb_xor_match_count sd \<or> unat mi \<ge> XOR_MAX_MATCHES then (False, s)
      else let s = (if mi = 0 then s\<lparr>ghash_scratch := (ghash_scratch s)\<lparr>staged_pending := xor_stage_init e s\<rparr>\<rparr> else s);
               s = dbg_inc DBG_XOR_PATH_ENTERED s;
               s = xor_stage_match cfg e (sb_xor_matches sd ! (unat mi mod XOR_MAX_MATCHES)) s;
               s = s\<lparr>scratch := (scratch s)\<lparr>sb_xor_current_match := mi + 1\<rparr>\<rparr>
           in if mi + 1 < sb_xor_match_count sd \<and> unat (mi + 1) < XOR_MAX_MATCHES then (True, s)
              else let p = staged_pending (ghash_scratch s) in
                if xp_patch_count p = 0 then (False, s)
                else (False, dbg_inc DBG_XOR_DELTA_DONE
                  (s\<lparr>xor_pending := map_put (ke_room e XOR_PENDING) (cur_tgid e) p (xor_pending s)\<rparr>)))"

section \<open>Tail calls\<close>

text \<open>The kernel stops a chain after 33 tail calls.\<close>

definition MAX_TAIL_CALLS :: nat where "MAX_TAIL_CALLS = 33"

fun xor_path_run :: "nat \<Rightarrow> config \<Rightarrow> kenv \<Rightarrow> kmaps \<Rightarrow> kmaps" where
  "xor_path_run 0 cfg e s = s"
| "xor_path_run (Suc n) cfg e s =
     (let (again, s') = bpf_xor_path cfg e s in if again then xor_path_run n cfg e s' else s')"

text \<open>A write probe and the programs it tail-calls.\<close>

definition run_write :: "config \<Rightarrow> kenv \<Rightarrow> tail_call \<times> kmaps \<Rightarrow> kmaps" where
  "run_write cfg e r =
     (case r of
        (NO_TAIL_CALL, s) \<Rightarrow> s
      | (TAIL_XOR_PATH, s) \<Rightarrow> xor_path_run MAX_TAIL_CALLS cfg e s
      | (TAIL_H_EXTRACT, s) \<Rightarrow>
          (let (again, s') = bpf_h_extract cfg e s in if again then xor_path_run (MAX_TAIL_CALLS - 1) cfg e s' else s'))"

section \<open>The reference\<close>

definition may_redeem :: "config \<Rightarrow> kenv \<Rightarrow> secret_key \<Rightarrow> bool" where
  "may_redeem cfg e key \<longleftrightarrow>
     secret_acl cfg \<lparr>ak_cgroup_id = ke_cgroup_id e, ak_key = key\<rparr> \<noteq> None \<or> secret_binding_mode cfg = SECRET_BINDING_AUDIT"

definition patch_of :: "config \<Rightarrow> kenv \<Rightarrow> u64 \<Rightarrow> xor_match \<Rightarrow> xor_patch list" where
  "patch_of cfg e data_ptr m =
     (case secret_map cfg (xm_key m) of
        None \<Rightarrow> []
      | Some v \<Rightarrow>
          if sv_len v \<noteq> 0 \<and> unat (sv_len v) \<le> SECRET_MAX_LEN \<and> may_redeem cfg e (xm_key m)
          then [\<lparr>secret_offset = xm_pos m, secret_len = sv_len v,
                 xor_delta = xor_delta_of (snd (probe_read_user (ke_mem e) SECRET_MAX_LEN (data_ptr + ucast (xm_pos m)))) v,
                 patch_key = xm_key m\<rparr>]
          else [])"

definition patches_of :: "config \<Rightarrow> kenv \<Rightarrow> u64 \<Rightarrow> xor_match list \<Rightarrow> xor_patch list" where
  "patches_of cfg e data_ptr ms = concat (map (patch_of cfg e data_ptr) ms)"

text \<open>A list of patches in the slots of a pending write.\<close>

definition put_patches :: "xor_patch list \<Rightarrow> xor_pending_val \<Rightarrow> xor_pending_val" where
  "put_patches ps p = p\<lparr>xp_patch_count := of_nat (length ps),
     xp_patches := ps @ replicate (XOR_MAX_PATCHES - length ps) no_patch\<rparr>"

text \<open>What the path leaves alone.\<close>

definition no_path :: "kmaps \<Rightarrow> kmaps" where
  "no_path s = no_report (s\<lparr>ghash_scratch := zero_work, xor_pending := \<lambda>_. None,
     scratch := (scratch s)\<lparr>sb_xor_current_match := 0\<rparr>\<rparr>)"

lemma length_patch_of: "length (patch_of cfg e a m) \<le> 1"
  by (simp add: patch_of_def split: option.splits)

lemma patches_of_Cons: "patches_of cfg e a (m # ms) = patch_of cfg e a m @ patches_of cfg e a ms"
  by (simp add: patches_of_def)

lemma patches_of_snoc: "patches_of cfg e a (ms @ [m]) = patches_of cfg e a ms @ patch_of cfg e a m"
  by (simp add: patches_of_def)

lemma length_patches_of: "length (patches_of cfg e a ms) \<le> length ms"
proof (induction ms)
  case (Cons m ms)
  then show ?case using length_patch_of [of cfg e a m] by (simp add: patches_of_Cons)
qed (simp add: patches_of_def)

section \<open>One match\<close>

lemma put_patches_snoc:
  assumes "length ps < XOR_MAX_PATCHES"
  shows "(put_patches ps p)\<lparr>xp_patches := (xp_patches (put_patches ps p))[length ps := q],
      xp_patch_count := xp_patch_count (put_patches ps p) + 1\<rparr> = put_patches (ps @ [q]) p"
proof -
  have "(ps @ replicate (XOR_MAX_PATCHES - length ps) no_patch)[length ps := q]
      = ps @ [q] @ replicate (XOR_MAX_PATCHES - Suc (length ps)) no_patch"
    using assms by (simp add: list_update_append Suc_diff_Suc [symmetric])
  then show ?thesis by (simp add: put_patches_def)
qed

lemma xor_stage_match_frame:
  "no_path (xor_stage_match cfg e m s) = no_path s \<and> xor_pending (xor_stage_match cfg e m s) = xor_pending s
    \<and> scratch (xor_stage_match cfg e m s) = scratch s"
proof -
  let ?s = "snd (secret_binding_allows cfg e (xm_key m) s)"
  have "scratch ?s = scratch s" "xor_pending ?s = xor_pending s" by (rule no_reportD [OF no_report_binding])+
  moreover have "no_path ?s = no_path s"
    by (simp add: no_path_def no_report_def secret_binding_allows_def report_secret_event_def dbg_inc_def Let_def)
  moreover have "no_path (t\<lparr>ghash_scratch := w\<rparr>) = no_path t" "no_path (dbg_inc i t) = no_path t" for t w i
    by (simp_all add: no_path_def no_report_def dbg_inc_def)
  ultimately show ?thesis
    by (simp add: xor_stage_match_def Let_def split_beta split: option.splits)
qed

lemma xor_stage_match_patches:
  assumes "staged_pending (ghash_scratch s) = put_patches ps p" "length ps < XOR_MAX_PATCHES"
    and "sb_user_data_ptr (scratch s) = a"
  shows "staged_pending (ghash_scratch (xor_stage_match cfg e m s)) = put_patches (ps @ patch_of cfg e a m) p"
proof -
  let ?r = "secret_binding_allows cfg e (xm_key m) s"
  have f: "ghash_scratch (snd ?r) = ghash_scratch s" "scratch (snd ?r) = scratch s"
    by (rule no_reportD [OF no_report_binding])+
  have a: "fst ?r = may_redeem cfg e (xm_key m)" by (simp add: secret_binding_allows_iff may_redeem_def)
  have c: "unat (xp_patch_count (put_patches ps p)) = length ps"
    using assms(2) by (simp add: put_patches_def XOR_MAX_PATCHES_def)
  show ?thesis
    using assms c f a put_patches_snoc [OF assms(2)]
    by (simp add: xor_stage_match_def patch_of_def Let_def split_beta split: option.splits)
qed

section \<open>All matches\<close>

text \<open>The entry of the process after a write with patches \<open>ps\<close>.\<close>

definition deposit :: "kenv \<Rightarrow> xor_patch list \<Rightarrow> xor_pending_val \<Rightarrow> (u32 \<rightharpoonup> xor_pending_val) \<Rightarrow> (u32 \<rightharpoonup> xor_pending_val)" where
  "deposit e ps p m = (if ps = [] then m else map_put (ke_room e XOR_PENDING) (cur_tgid e) (put_patches ps p) m)"

text \<open>\<open>k\<close> of the \<open>n\<close> matches are done.\<close>

definition path_at :: "config \<Rightarrow> kenv \<Rightarrow> scratch_buf \<Rightarrow> xor_pending_val \<Rightarrow> nat \<Rightarrow> kmaps \<Rightarrow> bool" where
  "path_at cfg e sd p k s \<longleftrightarrow> scratch s = sd\<lparr>sb_xor_current_match := of_nat k\<rparr>
     \<and> (if k = 0 then xor_stage_init e s = p
        else staged_pending (ghash_scratch s) = put_patches (patches_of cfg e (sb_user_data_ptr sd) (take k (found sd))) p)"

lemma put_patches_Nil: "put_patches [] (xor_stage_init e s) = xor_stage_init e s"
  by (simp add: put_patches_def xor_stage_init_def Let_def split: option.splits)

lemma xor_path_step:
  assumes "path_at cfg e sd p k s" "scratch_ok sd" "k < unat (sb_xor_match_count sd)"
  defines "n \<equiv> unat (sb_xor_match_count sd)" and "ps \<equiv> patches_of cfg e (sb_user_data_ptr sd) (found sd)"
  shows "\<exists>s'. bpf_xor_path cfg e s = (Suc k < n, s') \<and> path_at cfg e sd p (Suc k) s' \<and> no_path s' = no_path s
    \<and> xor_pending s' = (if Suc k < n then xor_pending s else deposit e ps p (xor_pending s))"
proof -
  let ?a = "sb_user_data_ptr sd" and ?m = "sb_xor_matches sd ! k"
  have n: "n \<le> 4" "k < 4" "length (sb_xor_matches sd) = 4" using assms(2,3) by (simp_all add: n_def scratch_ok_def XOR_MAX_MATCHES_def)
  have sd: "scratch s = sd\<lparr>sb_xor_current_match := of_nat k\<rparr>" using assms(1) by (simp add: path_at_def)
  have uk: "unat (of_nat k :: u32) = k" "unat (of_nat k + 1 :: u32) = Suc k"
    using n(2) by (simp_all add: unat_plus_noof)
  have cnt: "sb_xor_match_count sd = of_nat n" by (simp add: n_def)
  have lt: "(of_nat k + 1 < sb_xor_match_count sd) = (Suc k < n)" "\<not> sb_xor_match_count sd \<le> of_nat k"
      "(of_nat k = (0 :: u32)) = (k = 0)"
    using n assms(3) uk by (simp_all add: word_less_nat_alt word_le_nat_alt n_def unat_eq_0 [symmetric] del: unat_eq_0)
  define s0 where "s0 = (if k = 0 then s\<lparr>ghash_scratch := (ghash_scratch s)\<lparr>staged_pending := xor_stage_init e s\<rparr>\<rparr> else s)"
  define s1 where "s1 = dbg_inc DBG_XOR_PATH_ENTERED s0"
  define s2 where "s2 = xor_stage_match cfg e ?m s1"
  define s3 where "s3 = s2\<lparr>scratch := (scratch s2)\<lparr>sb_xor_current_match := of_nat k + 1\<rparr>\<rparr>"
  let ?ps = "\<lambda>k. patches_of cfg e ?a (take k (found sd))"
  have np: "no_path s1 = no_path s" "xor_pending s1 = xor_pending s" "scratch s1 = scratch s"
    by (simp_all add: s1_def s0_def no_path_def no_report_def dbg_inc_def)
  have len: "length (?ps k) \<le> k" using length_patches_of [of cfg e ?a "take k (found sd)"] by simp
  have "staged_pending (ghash_scratch s1) = put_patches (?ps k) p"
    using assms(1) put_patches_Nil [of e s] by (auto simp: path_at_def s1_def s0_def patches_of_def)
  moreover have "length (?ps k) < XOR_MAX_PATCHES" using len n(2) by (simp add: XOR_MAX_PATCHES_def)
  moreover have "sb_user_data_ptr (scratch s1) = ?a" by (simp add: np sd)
  ultimately have "staged_pending (ghash_scratch s2) = put_patches (?ps k @ patch_of cfg e ?a ?m) p"
    unfolding s2_def by (rule xor_stage_match_patches)
  moreover have "?ps k @ patch_of cfg e ?a ?m = ?ps (Suc k)"
    using assms(3) n by (simp add: found_def take_Suc_conv_app_nth patches_of_snoc min_def)
  ultimately have st: "staged_pending (ghash_scratch s3) = put_patches (?ps (Suc k)) p" by (simp add: s3_def)
  note f = xor_stage_match_frame [of cfg e ?m s1, folded s2_def]
  have "no_path s3 = no_path s2" by (simp add: s3_def no_path_def no_report_def)
  then have fr: "no_path s3 = no_path s" "xor_pending s3 = xor_pending s" "scratch s3 = sd\<lparr>sb_xor_current_match := of_nat (Suc k)\<rparr>"
    using f np sd by (simp_all add: s3_def add.commute)
  have at: "path_at cfg e sd p (Suc k) s3" using st fr by (simp add: path_at_def)
  have run: "bpf_xor_path cfg e s = (if Suc k < n then (True, s3)
      else if xp_patch_count (staged_pending (ghash_scratch s3)) = 0 then (False, s3)
      else (False, dbg_inc DBG_XOR_DELTA_DONE (s3\<lparr>xor_pending := map_put (ke_room e XOR_PENDING) (cur_tgid e)
        (staged_pending (ghash_scratch s3)) (xor_pending s3)\<rparr>)))"
    using n uk lt sd unfolding bpf_xor_path_def Let_def sd
    by (simp add: XOR_MAX_MATCHES_def s3_def s2_def s1_def s0_def)
  show ?thesis
  proof (cases "Suc k < n")
    case True
    then show ?thesis using run at fr by simp
  next
    case False
    then have "take (Suc k) (found sd) = found sd" using n(1) assms(2,3) length_found [OF assms(2)] by (simp add: n_def)
    then have st: "staged_pending (ghash_scratch s3) = put_patches ps p" using st by (simp add: ps_def)
    have "length ps \<le> 4" using length_patches_of [of cfg e ?a "found sd"] length_found [OF assms(2)] n(1) by (simp add: ps_def n_def)
    then have c: "xp_patch_count (put_patches ps p) = 0 \<longleftrightarrow> ps = []"
      by (auto simp: put_patches_def unat_eq_0 [symmetric] simp del: unat_eq_0)
    have "path_at cfg e sd p (Suc k) (dbg_inc i (s3\<lparr>xor_pending := x\<rparr>))"
        "no_path (dbg_inc i (s3\<lparr>xor_pending := x\<rparr>)) = no_path s3" for i x
      using at by (simp_all add: path_at_def) (simp add: no_path_def no_report_def dbg_inc_def)
    then show ?thesis using False run at fr c by (auto simp: st deposit_def)
  qed
qed

lemma xor_path_run_from:
  assumes "path_at cfg e sd p k s" "scratch_ok sd" "k < unat (sb_xor_match_count sd)" "unat (sb_xor_match_count sd) \<le> k + fuel"
  defines "s' \<equiv> xor_path_run fuel cfg e s"
  shows "xor_pending s' = deposit e (patches_of cfg e (sb_user_data_ptr sd) (found sd)) p (xor_pending s) \<and> no_path s' = no_path s"
  using assms(1,3,4) unfolding s'_def
proof (induction fuel arbitrary: k s)
  case (Suc fuel)
  then show ?case
    using xor_path_step [OF Suc.prems(1) assms(2) Suc.prems(2)] by (fastforce simp: Let_def split: if_splits)
qed simp

lemma xor_path_run_spec:
  assumes "scratch_ok (scratch s)" "sb_xor_current_match (scratch s) = 0" "unat (sb_xor_match_count (scratch s)) \<le> fuel"
    and "0 < fuel"
  shows "xor_pending (xor_path_run fuel cfg e s)
      = deposit e (patches_of cfg e (sb_user_data_ptr (scratch s)) (found (scratch s))) (xor_stage_init e s) (xor_pending s)
    \<and> no_path (xor_path_run fuel cfg e s) = no_path s"
proof (cases "sb_xor_match_count (scratch s) = 0")
  case True
  then have "found (scratch s) = []" by (simp add: found_def)
  then show ?thesis
    using True assms(2,4) by (cases fuel) (simp_all add: bpf_xor_path_def Let_def patches_of_def deposit_def)
next
  case False
  then have "0 < unat (sb_xor_match_count (scratch s))" by (simp add: unat_gt_0)
  moreover have "path_at cfg e (scratch s) (xor_stage_init e s) 0 s"
    using assms(2) by (simp add: path_at_def)
  ultimately show ?thesis using xor_path_run_from [OF _ assms(1)] assms(3) by simp
qed

section \<open>What a patch does to the record\<close>

definition secret_ok :: "secret_value \<Rightarrow> bool" where
  "secret_ok v \<longleftrightarrow> length (real_secret v) = SECRET_MAX_LEN"

lemma in_patches_of:
  assumes "q \<in> set (patches_of cfg e a ms)"
  obtains m v where "m \<in> set ms" "secret_map cfg (xm_key m) = Some v" "sv_len v \<noteq> 0" "unat (sv_len v) \<le> SECRET_MAX_LEN"
    "may_redeem cfg e (xm_key m)"
    "q = \<lparr>secret_offset = xm_pos m, secret_len = sv_len v,
       xor_delta = xor_delta_of (snd (probe_read_user (ke_mem e) SECRET_MAX_LEN (a + ucast (xm_pos m)))) v,
       patch_key = xm_key m\<rparr>"
proof -
  obtain m where m: "m \<in> set ms" "q \<in> set (patch_of cfg e a m)" using assms by (auto simp: patches_of_def)
  obtain v where "secret_map cfg (xm_key m) = Some v"
    using m(2) by (cases "secret_map cfg (xm_key m)") (auto simp: patch_of_def)
  then show ?thesis
    using that [OF m(1)] m(2) by (auto simp: patch_of_def split: if_splits)
qed

lemma take_xor_delta:
  assumes "sv_len v \<noteq> 0" "unat (sv_len v) \<le> SECRET_MAX_LEN" "secret_ok v" "length ct = SECRET_MAX_LEN"
  shows "take (unat (sv_len v)) (xor_delta_of ct v) = xor_bytes (take (unat (sv_len v)) ct) (take (unat (sv_len v)) (real_secret v))"
proof -
  have "clamp_write_len (sv_len v) = sv_len v"
    using assms(1,2) unat_gt_0 [of "sv_len v"] by (intro clamp_write_len_id) (auto simp: SECRET_MAX_LEN_def)
  then show ?thesis
    using assms by (intro nth_equalityI) (auto simp: xor_delta_of_def secret_ok_def)
qed

lemma patch_of_valid:
  assumes "q \<in> set (patches_of cfg e a ms)" "unat (secret_offset q) + unat (secret_len q) \<le> min n 16384"
  shows "patch_valid n q"
proof -
  obtain m v where "m \<in> set ms" "secret_map cfg (xm_key m) = Some v" "sv_len v \<noteq> 0" "unat (sv_len v) \<le> SECRET_MAX_LEN"
      "may_redeem cfg e (xm_key m)"
      "q = \<lparr>secret_offset = xm_pos m, secret_len = sv_len v,
         xor_delta = xor_delta_of (snd (probe_read_user (ke_mem e) SECRET_MAX_LEN (a + ucast (xm_pos m)))) v,
         patch_key = xm_key m\<rparr>"
    using in_patches_of [OF assms(1)] by metis
  then show ?thesis
    using assms(2) unat_gt_0 [of "sv_len v"] by (auto simp: patch_valid_def xor_delta_of_def SECRET_MAX_LEN_def)
qed

text \<open>With the bytes after the data mapped, the delta is that of the data and the secret.\<close>

lemma patch_of_memory:
  assumes "q \<in> set (patches_of cfg e a (take XOR_MAX_MATCHES (placeholders d)))" "\<forall>v \<in> ran (secret_map cfg). secret_ok v"
    and "length d \<le> SCAN_LIMIT" "maps_to (ke_mem e) a (d @ rest)" "length rest \<ge> 120"
    and "unat (secret_offset q) + unat (secret_len q) \<le> length d"
  defines "o' \<equiv> unat (secret_offset q)" and "n \<equiv> unat (secret_len q)"
  shows "\<exists>v. secret_map cfg (bytes_at d o' 8) = Some v \<and> may_redeem cfg e (bytes_at d o' 8) \<and> n = unat (sv_len v)
    \<and> patch_key q = bytes_at d o' 8 \<and> n \<le> SECRET_MAX_LEN \<and> length (take n (real_secret v)) = n
    \<and> take n (xor_delta q) = xor_bytes (bytes_at d o' n) (take n (real_secret v))"
proof -
  obtain m v where m: "m \<in> set (take XOR_MAX_MATCHES (placeholders d))" "secret_map cfg (xm_key m) = Some v" "sv_len v \<noteq> 0"
      "unat (sv_len v) \<le> SECRET_MAX_LEN" "may_redeem cfg e (xm_key m)"
      "q = \<lparr>secret_offset = xm_pos m, secret_len = sv_len v,
         xor_delta = xor_delta_of (snd (probe_read_user (ke_mem e) SECRET_MAX_LEN (a + ucast (xm_pos m)))) v,
         patch_key = xm_key m\<rparr>"
    using in_patches_of [OF assms(1)] by metis
  then obtain i where i: "m = placeholder_match d i" "i + 8 \<le> length d"
    by (auto simp: placeholders_def placeholder_at_def SECRET_KEY_LEN_def dest!: in_set_takeD)
  then have o': "o' = i" using assms(3) m(6) by (simp add: o'_def placeholder_match_def SCAN_LIMIT_def BPF_MAX_LOOPS_def)
  have k: "xm_key m = bytes_at d o' 8" by (simp add: i o' placeholder_match_def bytes_at_def SECRET_KEY_LEN_def)
  have ok: "secret_ok v" using assms(2) m(2) by (auto simp: ran_def)
  let ?ct = "take SECRET_MAX_LEN (drop o' (d @ rest))"
  have "maps_to (ke_mem e) a (take o' (d @ rest) @ ?ct @ drop SECRET_MAX_LEN (drop o' (d @ rest)))"
    using assms(4) by (simp del: drop_drop drop_append take_append)
  then have "maps_to (ke_mem e) (a + of_nat o') ?ct"
    using i(2) o' unfolding maps_to_append by (simp add: min_def del: drop_append take_append)
  moreover have l: "length ?ct = SECRET_MAX_LEN" using i(2) o' assms(5) by (simp add: SECRET_MAX_LEN_def)
  moreover have "(of_nat o' :: u64) = ucast (xm_pos m)" using m(6) by (simp add: o'_def)
  ultimately have ct: "snd (probe_read_user (ke_mem e) SECRET_MAX_LEN (a + ucast (xm_pos m))) = ?ct"
    using maps_to_read by (metis snd_conv)
  have n: "n = unat (sv_len v)" "n \<le> SECRET_MAX_LEN" using m(4,6) by (simp_all add: n_def)
  have "take n ?ct = bytes_at d o' n"
    using n assms(6) by (intro nth_equalityI) (auto simp: bytes_at_def nth_append o'_def n_def)
  then have "take n (xor_delta q) = xor_bytes (bytes_at d o' n) (take n (real_secret v))"
    using take_xor_delta [OF m(3,4) ok l] m(6) n(1) ct by simp
  moreover have "length (take n (real_secret v)) = n" using ok n(2) by (simp add: secret_ok_def)
  ultimately show ?thesis using m(2,5,6) k n by (intro exI [of _ v]) simp
qed

section \<open>A whole write\<close>

text \<open>The part of the state that decides what leaves on which socket.\<close>

definition net_part where
  "net_part s = (tc_pending s, tc_tag_pending s, sni_state s, vip_sock_host s, vip_sock_dst s, vip_sock s, vip_upstream s)"

lemma net_part_no_report: "no_report s = no_report t \<Longrightarrow> net_part s = net_part t"
  by (drule arg_cong [of _ _ net_part]) (simp add: no_report_def net_part_def)

lemma net_part_dbg [simp]: "net_part (dbg_inc i s) = net_part s"
  by (simp add: net_part_def)

lemma net_part_no_path: "no_path s = no_path t \<Longrightarrow> net_part s = net_part t"
  unfolding no_path_def by (drule net_part_no_report) (simp add: net_part_def)

lemma net_part_no_scan: "no_scan s = no_scan t \<Longrightarrow> net_part s = net_part t"
  by (drule arg_cong [of _ _ net_part]) (simp add: no_scan_def net_part_def)

lemma h_extract_source_frame:
  "net_part (snd (h_extract_source e off x s)) = net_part s
    \<and> xor_pending (snd (h_extract_source e off x s)) = xor_pending s \<and> scratch (snd (h_extract_source e off x s)) = scratch s"
proof -
  note f = ossl_read_gcm_h_frame [of e _ off s]
  show ?thesis
    using net_part_no_report [OF f] no_reportD(5,6) [OF f]
    by (simp add: h_extract_source_def Let_def split_beta net_part_def split: option.splits)
qed

lemma h_extract_frame:
  assumes "bpf_h_extract cfg e s = (again, s')"
  shows "net_part s' = net_part s \<and> xor_pending s' = xor_pending s
    \<and> scratch s' = (if again then (scratch s)\<lparr>sb_h_fresh := True\<rparr> else scratch s)"
  using assms h_extract_source_frame [of e _ _ s]
  by (auto simp: bpf_h_extract_def Let_def net_part_def split: option.splits prod.splits if_splits) (metis fst_conv snd_conv)+

text \<open>The write a chain works on.\<close>

definition write_pending :: "kenv \<Rightarrow> u64 \<Rightarrow> nat \<Rightarrow> chain_type \<Rightarrow> bool \<Rightarrow> xor_pending_val \<Rightarrow> bool" where
  "write_pending e ssl_ptr n chain memory_bio p \<longleftrightarrow> xp_ssl_ptr p = ssl_ptr \<and> xp_tgid p = cur_tgid e \<and> xp_active p
     \<and> xp_chain_type p = chain \<and> xp_memory_bio p = memory_bio \<and> xp_plaintext_len p = of_nat n \<and> xp_created_at p = ke_ktime e"

lemma xor_stage_init_pending:
  assumes "sb_ssl_ptr (scratch s) = ssl_ptr" "sb_chain_type (scratch s) = chain" "sb_memory_bio (scratch s) = mb"
    and "sb_total_data_len (scratch s) = of_nat n"
  shows "write_pending e ssl_ptr n chain mb (xor_stage_init e s)
    \<and> (chain = CHAIN_GO_TLS \<or> \<not> sb_h_fresh (scratch s) \<longrightarrow> \<not> xp_h_valid (xor_stage_init e s))"
  using assms by (auto simp: write_pending_def xor_stage_init_def Let_def split: option.splits)

lemma write_scanned_fields:
  assumes "write_scanned ssl a d chain mb s s'"
  shows "sb_ssl_ptr (scratch s') = ssl" "sb_chain_type (scratch s') = chain" "sb_memory_bio (scratch s') = mb"
    "sb_total_data_len (scratch s') = of_nat (length d)" "\<not> sb_h_fresh (scratch s')" "sb_user_data_ptr (scratch s') = a"
    "sb_xor_current_match (scratch s') = 0" "xor_pending s' = xor_pending s"
    "scratch_ok (scratch s')" "found (scratch s') = take XOR_MAX_MATCHES (placeholders d)"
proof -
  have e: "no_scan s' = no_scan (s\<lparr>scratch := write_fields ssl a (length d) chain mb (scratch s)\<rparr>)"
    using assms by (simp add: write_scanned_def)
  show "xor_pending s' = xor_pending s" using arg_cong [OF e, of xor_pending] by (simp add: no_scan_def)
  note c = arg_cong [OF e, of "\<lambda>s. f (scratch s)" for f]
  show "sb_ssl_ptr (scratch s') = ssl" using c [of sb_ssl_ptr] by (simp add: no_scan_def write_fields_def)
  show "sb_chain_type (scratch s') = chain" using c [of sb_chain_type] by (simp add: no_scan_def write_fields_def)
  show "sb_memory_bio (scratch s') = mb" using c [of sb_memory_bio] by (simp add: no_scan_def write_fields_def)
  show "sb_total_data_len (scratch s') = of_nat (length d)"
    using c [of sb_total_data_len] by (simp add: no_scan_def write_fields_def)
  show "\<not> sb_h_fresh (scratch s')" using c [of sb_h_fresh] by (simp add: no_scan_def write_fields_def)
  show "sb_user_data_ptr (scratch s') = a" using c [of sb_user_data_ptr] by (simp add: no_scan_def write_fields_def)
  show "sb_xor_current_match (scratch s') = 0" using c [of sb_xor_current_match] by (simp add: no_scan_def write_fields_def)
qed (use assms in \<open>simp_all add: write_scanned_def\<close>)

text \<open>From a scanned write on, with or without a fresh H.\<close>

lemma run_write_deposit:
  assumes "write_scanned ssl a d chain mb s s1" "scratch s2 = (scratch s1)\<lparr>sb_h_fresh := fresh\<rparr>" "xor_pending s2 = xor_pending s1"
    and "4 \<le> fuel"
  shows "\<exists>p. write_pending e ssl (length d) chain mb p \<and> (chain = CHAIN_GO_TLS \<or> \<not> fresh \<longrightarrow> \<not> xp_h_valid p)
    \<and> xor_pending (xor_path_run fuel cfg e s2) = deposit e (patches_of cfg e a (take XOR_MAX_MATCHES (placeholders d))) p (xor_pending s)"
proof -
  note f = write_scanned_fields [OF assms(1)]
  have "scratch_ok (scratch s2)" "found (scratch s2) = take XOR_MAX_MATCHES (placeholders d)"
      "unat (sb_xor_match_count (scratch s2)) \<le> fuel" "sb_xor_current_match (scratch s2) = 0"
    using f assms(2,4) by (auto simp: scratch_ok_def found_def XOR_MAX_MATCHES_def)
  then show ?thesis
    using xor_path_run_spec [of s2 fuel cfg e] xor_stage_init_pending [of s2 ssl chain mb "length d" e] f assms
    by (intro exI [of _ "xor_stage_init e s2"]) auto
qed

section \<open>Properties\<close>

text \<open>
  C8: the runs of \<open>bpf_xor_path\<close> over the matches of a write end, and store under the process exactly
  the patches of the placeholders whose secret exists, has a legal length and may be redeemed by the
  container (or the mode is audit), in order; a write without one leaves the entry of the process alone.
  Nothing else changes but the scratch, the counters and the reports.
\<close>

theorem xor_path_stages:
  assumes "scratch_ok (scratch s)" "sb_xor_current_match (scratch s) = 0"
  shows "xor_pending (xor_path_run MAX_TAIL_CALLS cfg e s)
      = deposit e (patches_of cfg e (sb_user_data_ptr (scratch s)) (found (scratch s))) (xor_stage_init e s) (xor_pending s)
    \<and> no_path (xor_path_run MAX_TAIL_CALLS cfg e s) = no_path s"
proof -
  have "unat (sb_xor_match_count (scratch s)) \<le> MAX_TAIL_CALLS"
    using assms(1) by (simp add: scratch_ok_def XOR_MAX_MATCHES_def MAX_TAIL_CALLS_def)
  then show ?thesis using xor_path_run_spec [OF assms] by (simp add: MAX_TAIL_CALLS_def)
qed

text \<open>
  A staged patch rewrites the record of its write: decrypted, the patched ciphertext of the data
  is the data with the secret of the placeholder, which the container may redeem, in the placeholder's
  place. The 128 bytes from each placeholder on must be mapped, also past the end of the data.
\<close>

theorem staged_patch_inserts_secret:
  assumes "q \<in> set (patches_of cfg e a (take XOR_MAX_MATCHES (placeholders d)))" "\<forall>v \<in> ran (secret_map cfg). secret_ok v"
    and "length d \<le> SCAN_LIMIT" "maps_to (ke_mem e) a (d @ rest)" "length rest \<ge> 120"
    and "length ks = length d" "unat (secret_offset q) + unat (secret_len q) \<le> min (length d) 16384"
  defines "key \<equiv> bytes_at d (unat (secret_offset q)) 8"
  shows "\<exists>v. secret_map cfg key = Some v \<and> may_redeem cfg e key \<and> unat (sv_len v) \<le> SECRET_MAX_LEN
    \<and> xor_bytes (apply_patch q (xor_bytes d ks)) ks
      = put_at (unat (secret_offset q)) (take (unat (sv_len v)) (real_secret v)) d"
proof -
  have "unat (secret_offset q) + unat (secret_len q) \<le> length d" using assms(7) by simp
  then obtain v where v: "secret_map cfg key = Some v" "may_redeem cfg e key" "unat (secret_len q) = unat (sv_len v)"
      "unat (sv_len v) \<le> SECRET_MAX_LEN" "length (take (unat (sv_len v)) (real_secret v)) = unat (secret_len q)"
      "take (unat (secret_len q)) (xor_delta q)
        = xor_bytes (bytes_at d (unat (secret_offset q)) (unat (secret_len q))) (take (unat (sv_len v)) (real_secret v))"
    using patch_of_memory [OF assms(1-5)] unfolding key_def by metis
  have "patch_valid (length d) q" using patch_of_valid [OF assms(1,7)] .
  from apply_patch_plain [OF this assms(6) v(5,6)] show ?thesis using v(1,2,4) by blast
qed

text \<open>
  C17: an \<open>SSL_write\<close> outside tracked containers, or on a server socket, changes nothing; another one, and
  every Go \<open>Write\<close>, stores, under its process, the patches of the first four
  placeholders of its data, with the connection object, the length and the way the record leaves. With
  the libcrypto strategy the H captured by the hooks may be missing; then the write is sent as it is.
\<close>

theorem write_stages_patches:
  fixes cfg :: config and ssl :: u64
  assumes "maps_to (ke_mem e) a d" "a \<noteq> 0" "d \<noteq> []" "length d \<le> SCAN_LIMIT" "scratch_shape (scratch s)"
  defines "tracked \<equiv> tracked_cgroups s (ke_cgroup_id e) \<noteq> None \<and> (ssl_read_fd cfg e ssl = 0
      \<or> conn_ip_map s \<lparr>cik_tgid = cur_tgid e, cik_fd = ssl_read_fd cfg e ssl\<rparr> \<noteq> None)"
    and "ps \<equiv> patches_of cfg e a (take XOR_MAX_MATCHES (placeholders d))"
    and "s' \<equiv> run_write cfg e (bpf_uprobe_ssl_write cfg e ssl a (of_nat (length d)) s)"
    and "hook \<equiv> tls_strategy cfg (cur_tgid e) = Some STRATEGY_LIBCRYPTO_HOOK"
  shows "(\<not> tracked \<longrightarrow> s' = s)
    \<and> (tracked \<longrightarrow> (\<exists>p. write_pending e ssl (length d) CHAIN_SSL (ssl_read_fd cfg e ssl = 0) p \<and> (xp_h_valid p \<longrightarrow> hook)
      \<and> (xor_pending s' = deposit e ps p (xor_pending s) \<or> hook \<and> xor_pending s' = xor_pending s)))
    \<and> (\<exists>p. write_pending e ssl (length d) CHAIN_GO_TLS False p \<and> \<not> xp_h_valid p
      \<and> xor_pending (run_write cfg e (bpf_uprobe_go_tls_write e ssl a (of_nat (length d)) s))
        = deposit e ps p (xor_pending s))"
proof -
  let ?mb = "ssl_read_fd cfg e ssl = 0"
  have n: "0 < length d" "length d < 2147483648" using assms(3,4) by (simp_all add: SCAN_LIMIT_def BPF_MAX_LOOPS_def)
  obtain s2 where s2: "bpf_uprobe_go_tls_write e ssl a (of_nat (length d)) s = (TAIL_XOR_PATH, s2)"
      "write_scanned ssl a d CHAIN_GO_TLS False s s2"
    using go_write_scans [OF assms(1-5)] by blast
  have go: "\<exists>p. write_pending e ssl (length d) CHAIN_GO_TLS False p \<and> \<not> xp_h_valid p
      \<and> xor_pending (run_write cfg e (bpf_uprobe_go_tls_write e ssl a (of_nat (length d)) s)) = deposit e ps p (xor_pending s)"
    using run_write_deposit [OF s2(2), of s2 "sb_h_fresh (scratch s2)" MAX_TAIL_CALLS e cfg]
    by (auto simp: run_write_def s2(1) ps_def MAX_TAIL_CALLS_def)
  have ssl: "\<exists>p. write_pending e ssl (length d) CHAIN_SSL ?mb p \<and> (xp_h_valid p \<longrightarrow> hook)
      \<and> (xor_pending s' = deposit e ps p (xor_pending s) \<or> hook \<and> xor_pending s' = xor_pending s)" if t: tracked
  proof -
    obtain s1 where s1: "bpf_uprobe_ssl_write cfg e ssl a (of_nat (length d)) s
        = (if hook then TAIL_H_EXTRACT else TAIL_XOR_PATH, s1)" "write_scanned ssl a d CHAIN_SSL ?mb s s1"
      using ssl_write_scans [OF assms(1-5)] t unfolding hook_def tracked_def by blast
    show ?thesis
    proof (cases hook)
      case False
      then show ?thesis
        using run_write_deposit [OF s1(2), of s1 False MAX_TAIL_CALLS e cfg] write_scanned_fields(5) [OF s1(2)]
        by (auto simp: s'_def run_write_def s1(1) ps_def MAX_TAIL_CALLS_def)
    next
      case True
      obtain again s3 where s3: "bpf_h_extract cfg e s1 = (again, s3)" by fastforce
      note f = h_extract_frame [OF s3] write_scanned_fields [OF s1(2)]
      show ?thesis
      proof (cases again)
        case again: True
        then show ?thesis
          using run_write_deposit [OF s1(2), of s3 True "MAX_TAIL_CALLS - 1" e cfg] f True
          by (auto simp: s'_def run_write_def s1(1) s3 ps_def MAX_TAIL_CALLS_def)
      next
        case False
        then have "xor_pending s' = xor_pending s" using f True by (simp add: s'_def run_write_def s1(1) s3)
        then show ?thesis
          using xor_stage_init_pending [OF f(2-5), of e] f(6) True by blast
      qed
    qed
  qed
  have "s' = s" if "\<not> tracked"
    using that by (auto simp: s'_def tracked_def bpf_uprobe_ssl_write_def Let_def run_write_def)
  then show ?thesis using go ssl by blast
qed

section \<open>Concrete runs\<close>

definition example_key :: secret_key where "example_key = [0x6B, 0x6C, 0x3A, 0x3A, 0x61, 0x62, 0x63, 0x64]"

definition example_secret :: secret_value where
  "example_secret = \<lparr>sv_len = 4, real_secret = [0x77, 0x78, 0x79, 0x7A] @ replicate 124 0, sv_host_len = 0,
     allowed_host = replicate 64 0, ip_len = 0, allowed_ip = replicate 16 0, sv_port = 0, protocol = 6, prefix_len = 8,
     full_prefix = replicate 42 0\<rparr>"

definition secret_config :: config where
  "secret_config = empty_config\<lparr>secret_map := [example_key \<mapsto> example_secret],
     secret_acl := [\<lparr>ak_cgroup_id = 11, ak_key = example_key\<rparr> \<mapsto> 1]\<rparr>"

definition write_env :: "nat \<Rightarrow> kenv" where
  "write_env slack = example_env (mem_block 4096 (example_plaintext @ replicate slack 0))"

lemma write_env_memory: "slack < 1000 \<Longrightarrow> maps_to (ke_mem (write_env slack)) 4096 (example_plaintext @ replicate slack 0)"
  unfolding write_env_def by (simp add: maps_to_block example_plaintext_def)

lemma secret_config_ok: "\<forall>v \<in> ran (secret_map secret_config). secret_ok v"
  by (simp add: secret_config_def secret_ok_def example_secret_def SECRET_MAX_LEN_def)

lemma example_patches:
  "\<exists>q. patches_of secret_config (write_env slack) 4096 (take XOR_MAX_MATCHES (placeholders example_plaintext)) = [q]
    \<and> secret_offset q = 1 \<and> secret_len q = 4"
proof -
  have "may_redeem secret_config (write_env slack) example_key"
    by (simp add: may_redeem_def secret_config_def write_env_def)
  then show ?thesis
    by (simp add: example_placeholders XOR_MAX_MATCHES_def patches_of_def patch_of_def secret_config_def example_key_def
        example_secret_def SECRET_MAX_LEN_def)
qed

lemma example_bytes: "bytes_at example_plaintext 1 8 = example_key" "length example_plaintext = 17"
    "secret_map secret_config example_key = Some example_secret"
  by (simp_all add: bytes_at_def example_plaintext_def example_key_def secret_config_def)

theorem staged_patch_inserts_secret_witness:
  "\<exists>q. patches_of secret_config (write_env 120) 4096 (take XOR_MAX_MATCHES (placeholders example_plaintext)) = [q]
    \<and> xor_bytes (apply_patch q (xor_bytes example_plaintext (replicate 17 9))) (replicate 17 9)
      = put_at 1 [0x77, 0x78, 0x79, 0x7A] example_plaintext"
proof -
  obtain q where q: "patches_of secret_config (write_env 120) 4096 (take XOR_MAX_MATCHES (placeholders example_plaintext)) = [q]"
      "secret_offset q = 1" "secret_len q = 4" using example_patches by blast
  have "xor_bytes (apply_patch q (xor_bytes example_plaintext (replicate 17 9))) (replicate 17 9)
      = put_at 1 (take 4 (real_secret example_secret)) example_plaintext"
    using staged_patch_inserts_secret [of q secret_config "write_env 120" 4096 example_plaintext "replicate 120 0" "replicate 17 9"]
      q secret_config_ok write_env_memory [of 120] example_bytes
    by (simp add: SCAN_LIMIT_def BPF_MAX_LOOPS_def) (simp add: example_secret_def)
  then show ?thesis using q(1) by (simp add: example_secret_def)
qed

theorem write_stages_patches_witness:
  "\<exists>p. xor_pending (run_write secret_config (write_env 120) (bpf_uprobe_ssl_write secret_config (write_env 120) 0 4096 17
      (example_kmaps\<lparr>tracked_cgroups := [11 \<mapsto> 1]\<rparr>))) 7 = Some p \<and> xp_patch_count p = 1 \<and> secret_offset (xp_patches p ! 0) = 1"
proof -
  let ?s = "example_kmaps\<lparr>tracked_cgroups := [11 \<mapsto> 1]\<rparr>"
  obtain q where q: "patches_of secret_config (write_env 120) 4096 (take XOR_MAX_MATCHES (placeholders example_plaintext)) = [q]"
      "secret_offset q = 1" "secret_len q = 4" using example_patches by blast
  have m: "maps_to (ke_mem (write_env 120)) 4096 example_plaintext"
    using write_env_memory [of 120] by (simp add: maps_to_append)
  have d: "(4096 :: u64) \<noteq> 0" "example_plaintext \<noteq> []" "length example_plaintext \<le> SCAN_LIMIT"
      "(of_nat (length example_plaintext) :: u32) = 17"
    by (simp_all add: example_plaintext_def SCAN_LIMIT_def BPF_MAX_LOOPS_def)
  have sh: "scratch_shape (scratch ?s)" using example_scratch_shape by simp
  have g: "ke_cgroup_id (write_env 120) = 11" "ssl_read_fd secret_config (write_env 120) 0 = 0"
      "tls_strategy secret_config x = None" "ke_room (write_env 120) XOR_PENDING" "cur_tgid (write_env 120) = 7" for x
    by (simp_all add: write_env_def ssl_read_fd_def secret_config_def empty_config_def)
  show ?thesis
    using write_stages_patches [OF m d(1,2,3) sh, of secret_config 0] g d(4)
    by (auto simp: q deposit_def map_put_def put_patches_def)
qed

definition matched_kmaps :: kmaps where
  "matched_kmaps = example_kmaps\<lparr>scratch := (scratch example_kmaps)\<lparr>sb_user_data_ptr := 4096, sb_xor_match_count := 2,
     sb_xor_matches := placeholders example_plaintext @ take 2 (sb_xor_matches (scratch example_kmaps))\<rparr>\<rparr>"

theorem xor_path_stages_witness:
  "\<exists>p q. xor_pending (xor_path_run MAX_TAIL_CALLS secret_config (write_env 120) matched_kmaps) 7 = Some p
    \<and> xp_patches p = [q, no_patch, no_patch, no_patch] \<and> secret_offset q = 1"
proof -
  obtain q where q: "patches_of secret_config (write_env 120) 4096 (take XOR_MAX_MATCHES (placeholders example_plaintext)) = [q]"
      "secret_offset q = 1" "secret_len q = 4" using example_patches by blast
  have "scratch_ok (scratch matched_kmaps)" "sb_xor_current_match (scratch matched_kmaps) = 0"
      "found (scratch matched_kmaps) = take XOR_MAX_MATCHES (placeholders example_plaintext)"
      "sb_user_data_ptr (scratch matched_kmaps) = 4096"
    by (simp_all add: matched_kmaps_def scratch_ok_def found_def example_placeholders example_kmaps_def XOR_MAX_MATCHES_def)
  moreover have "ke_room (write_env 120) XOR_PENDING" "cur_tgid (write_env 120) = 7"
    by (simp_all add: write_env_def)
  ultimately show ?thesis
    using xor_path_stages [of matched_kmaps secret_config "write_env 120"] q
    by (auto simp: deposit_def map_put_def put_patches_def XOR_MAX_PATCHES_def eval_nat_numeral)
qed

end
