(* ===== verification/Transition.thy ===== *)
theory Transition
  imports Prelude
begin

text \<open>
  The interface of the state machines of the data plane: what one step keeps, runs keep. A step
  relation that only moves up in an order gives an invariant for every state it started from.
\<close>

locale step_invariant =
  fixes step :: "'s \<Rightarrow> 's \<Rightarrow> bool" and inv :: "'s \<Rightarrow> bool"
  assumes inv_step: "step s t \<Longrightarrow> inv s \<Longrightarrow> inv t"
begin

lemma inv_run: "step\<^sup>*\<^sup>* s t \<Longrightarrow> inv s \<Longrightarrow> inv t"
  by (induction rule: rtranclp_induct) (auto intro: inv_step)

lemma inv_reachable: "step\<^sup>*\<^sup>* s t \<Longrightarrow> inv s \<Longrightarrow> step\<^sup>*\<^sup>* t u \<Longrightarrow> inv u"
  by (meson inv_run rtranclp_trans)

end

locale step_order =
  fixes step :: "'s \<Rightarrow> 's \<Rightarrow> bool" and le :: "'s \<Rightarrow> 's \<Rightarrow> bool"
  assumes le_refl: "le s s" and le_trans: "le s t \<Longrightarrow> le t u \<Longrightarrow> le s u"
    and le_step: "step s t \<Longrightarrow> le s t"

sublocale step_order \<subseteq> above: step_invariant step "le s0" for s0
  by unfold_locales (blast intro: le_step le_trans)

context step_order begin

lemma le_run: "step\<^sup>*\<^sup>* s t \<Longrightarrow> le s t"
  by (rule above.inv_run) (auto intro: le_refl)

end

text \<open>What a run leaves different was left so by its last event that touches it.\<close>

lemma last_touch_inv:
  assumes "\<And>ev s. ev \<in> set evs \<Longrightarrow> good s \<Longrightarrow> good (run ev s) \<and> (\<not> touches ev \<longrightarrow> f (run ev s) = f s)"
    and "good s0" "f (fold run evs s0) \<noteq> f s0"
  shows "\<exists>before ev later. evs = before @ ev # later \<and> touches ev \<and> (\<forall>x \<in> set later. \<not> touches x)
    \<and> f (fold run evs s0) = f (run ev (fold run before s0))"
proof -
  have good: "good (fold run es s0)" if "set es \<subseteq> set evs" for es
    using that by (induction es rule: rev_induct) (use assms(1,2) in auto)
  show ?thesis
    using assms(1,3) good
  proof (induction evs rule: rev_induct)
    case (snoc ev evs)
    have i: "good (fold run evs s0)" by (rule snoc.prems(3)) auto
    show ?case
    proof (cases "touches ev")
      case True
      then show ?thesis by (intro exI [of _ evs] exI [of _ ev] exI [of _ "[]"]) simp
    next
      case False
      then have k: "f (fold run (evs @ [ev]) s0) = f (fold run evs s0)" using snoc.prems(1) i by simp
      then have "f (fold run evs s0) \<noteq> f s0" using snoc.prems(2) by simp
      moreover have "good (fold run es s0)" if "set es \<subseteq> set evs" for es using that snoc.prems(3) by auto
      ultimately obtain before x later where "evs = before @ x # later" "touches x" "\<forall>y \<in> set later. \<not> touches y"
          "f (fold run evs s0) = f (run x (fold run before s0))" using snoc.IH snoc.prems(1) by auto
      then show ?thesis using False k by (intro exI [of _ before] exI [of _ x] exI [of _ "later @ [ev]"]) auto
    qed
  qed simp
qed

lemma last_touch:
  assumes "\<And>ev s. \<not> touches ev \<Longrightarrow> f (run ev s) = f s" "f (fold run evs s0) \<noteq> f s0"
  shows "\<exists>before ev later. evs = before @ ev # later \<and> touches ev \<and> (\<forall>x \<in> set later. \<not> touches x)
    \<and> f (fold run evs s0) = f (run ev (fold run before s0))"
  using last_touch_inv [of evs "\<lambda>_. True" run touches f s0] assms by simp

text \<open>What a run makes true was made so by one of its events and has stayed so since.\<close>

lemma last_flip:
  assumes "\<not> P s0" "P (fold run evs s0)"
  shows "\<exists>before ev later. evs = before @ ev # later \<and> \<not> P (fold run before s0)
    \<and> (\<forall>n \<le> length later. P (fold run (take n later) (run ev (fold run before s0))))"
  using assms(2)
proof (induction evs rule: rev_induct)
  case (snoc ev evs)
  show ?case
  proof (cases "P (fold run evs s0)")
    case True
    then obtain before x later where b: "evs = before @ x # later" "\<not> P (fold run before s0)"
        "\<forall>n \<le> length later. P (fold run (take n later) (run x (fold run before s0)))" using snoc.IH by blast
    have "P (fold run (take n (later @ [ev])) (run x (fold run before s0)))" if "n \<le> Suc (length later)" for n
      using that b snoc.prems by (cases "n = Suc (length later)") auto
    then show ?thesis using b(1,2) by (intro exI [of _ before] exI [of _ x] exI [of _ "later @ [ev]"]) simp
  next
    case False
    then show ?thesis using snoc.prems by (intro exI [of _ evs] exI [of _ ev] exI [of _ "[]"]) simp
  qed
qed (use assms(1) in simp)

end
