(* ===== verification/Sni_State.thy ===== *)
theory Sni_State
  imports Process_Track SNI_Hello Transition
begin

text \<open>
  The SNI of connections: \<open>sendmsg_first_buf\<close>, \<open>bpf_kprobe_tcp_sendmsg_sni\<close>, which parses the first
  handshake record each TCP connection writes, and \<open>tp_inet_sock_set_state\<close>, which forgets it when the
  socket starts a connection or closes.

  The 2048-byte scratch the probe copies the record to is modelled as the list of the copied bytes: the
  parser reads no other (\<open>tls_parse_sni_reads_only_copied\<close>).
\<close>

section \<open>The code\<close>

text \<open>
  The payload of a tcp_sendmsg. Kernels before 5.14 have no \<open>iter_type\<close>; the first iovec may be
  missing.
\<close>

datatype iter_type = ITER_UBUF | ITER_IOVEC | ITER_OTHER

record iov_iter =
  ii_type :: "iter_type option"
  ii_count :: u64
  ii_offset :: u64
  ii_ubuf :: u64
  ii_iov :: "(u64 \<times> u64) option"

definition sendmsg_first_buf :: "iov_iter \<Rightarrow> (u64 \<times> u64) option" where
  "sendmsg_first_buf it =
     (case ii_type it of
        None \<Rightarrow> None
      | Some ITER_UBUF \<Rightarrow> Some (ii_ubuf it + ii_offset it, ii_count it)
      | Some ITER_OTHER \<Rightarrow> None
      | Some ITER_IOVEC \<Rightarrow>
          (case ii_iov it of
             None \<Rightarrow> None
           | Some (iov_base, iov_len) \<Rightarrow>
               if ii_offset it \<ge> iov_len then None
               else Some (iov_base + ii_offset it,
                 let len = iov_len - ii_offset it in if len > ii_count it then ii_count it else len)))"

text \<open>What becomes of a parsed handshake record.\<close>

definition sni_record :: "u64 \<Rightarrow> sni_status \<times> bytes \<times> nat \<Rightarrow> kmaps \<Rightarrow> kmaps" where
  "sni_record sk r s =
     (let (status, sni, l) = r;
          cur = sni_state s sk;
          cur_status = (case cur of None \<Rightarrow> SNI_STATUS_NONE | Some c \<Rightarrow> ss_status c)
      in if cur_status = SNI_STATUS_SEEN then
           (case cur of
              None \<Rightarrow> s
            | Some c \<Rightarrow>
                if status = SNI_STATUS_ECH \<or> status = SNI_STATUS_SEEN \<and> \<not> hosts_match (ss_sni c) sni
                then s\<lparr>sni_state := (sni_state s)(sk \<mapsto> c\<lparr>ss_status := SNI_STATUS_MISMATCH\<rparr>)\<rparr>
                else s)
         else let status = (if status = SNI_NOT_CLIENT_HELLO then SNI_STATUS_MALFORMED else status)
           in dbg_inc DBG_SNI_CAPTURED (s\<lparr>sni_state := (sni_state s)(sk \<mapsto>
                \<lparr>ss_status = status, ss_len = l, ss_sni = sni\<rparr>)\<rparr>))"

definition bpf_kprobe_tcp_sendmsg_sni :: "kenv \<Rightarrow> u64 \<Rightarrow> iov_iter option \<Rightarrow> kmaps \<Rightarrow> kmaps" where
  "bpf_kprobe_tcp_sendmsg_sni e sk msg s =
     (if tracked_tgids s (cur_tgid e) = None then s
      else if sk = 0 then s
      else case msg of
        None \<Rightarrow> s
      | Some it \<Rightarrow>
          (case sendmsg_first_buf it of
             None \<Rightarrow> s
           | Some (base, len) \<Rightarrow>
               if len < 2 then s
               else let (ok, hdr) = probe_read_user (ke_mem e) 2 base in
                 if \<not> ok then s
                 else if hdr ! 0 \<noteq> TLS_CT_HANDSHAKE \<or> hdr ! 1 \<noteq> 0x03 then s
                 else let cur = sni_state s sk;
                          cur_status = (case cur of None \<Rightarrow> SNI_STATUS_NONE | Some c \<Rightarrow> ss_status c)
                   in if cur_status \<noteq> SNI_STATUS_NONE \<and> cur_status \<noteq> SNI_STATUS_SEEN then s
                   else let n = (if len > of_nat TLS_SNI_BUF_LEN then TLS_SNI_BUF_LEN else unat len);
                            (ok, buf) = probe_read_user (ke_mem e) n base
                     in if \<not> ok then s
                     else sni_record sk (tls_parse_sni buf n (replicate MAX_HOST_LEN 0)) s))"

definition IPPROTO_TCP :: u16 where "IPPROTO_TCP = 6"
definition TCP_SYN_SENT :: u32 where "TCP_SYN_SENT = 2"
definition TCP_CLOSE :: u32 where "TCP_CLOSE = 7"

definition tp_inet_sock_set_state :: "kenv \<Rightarrow> u16 \<Rightarrow> u32 \<Rightarrow> u64 \<Rightarrow> kmaps \<Rightarrow> kmaps" where
  "tp_inet_sock_set_state e proto newstate skaddr s =
     (if proto \<noteq> IPPROTO_TCP then s
      else if newstate \<noteq> TCP_SYN_SENT \<and> newstate \<noteq> TCP_CLOSE then s
      else let s = s\<lparr>sni_state := map_del skaddr (sni_state s)\<rparr> in
        if newstate = TCP_CLOSE then
          (let cookie = skc_cookie (ke_sock e skaddr) in
           if cookie \<noteq> 0 then s\<lparr>vip_sock_host := map_del cookie (vip_sock_host s),
                               vip_sock_dst := map_del cookie (vip_sock_dst s)\<rparr>
           else s)
        else s)"

section \<open>The verdict of a connection\<close>

text \<open>
  What may happen to the verdict of the connection on socket \<open>sk\<close>: any process may send anything on
  any socket, other sockets change state and lose their entries, \<open>sk\<close> changes to states that are not
  the start or the end of a connection.
\<close>

inductive conn_step :: "u64 \<Rightarrow> kmaps \<Rightarrow> kmaps \<Rightarrow> bool" for sk where
  Send: "conn_step sk s (bpf_kprobe_tcp_sendmsg_sni e k msg s)"
| Set_State: "\<lbrakk>k \<noteq> sk \<or> st \<noteq> TCP_SYN_SENT \<and> st \<noteq> TCP_CLOSE\<rbrakk> \<Longrightarrow> conn_step sk s (tp_inet_sock_set_state e proto st k s)"
| Evict: "k \<noteq> sk \<Longrightarrow> conn_step sk s (s\<lparr>sni_state := map_del k (sni_state s)\<rparr>)"
| Exec: "conn_step sk s (tp_sched_process_exec e anc tgid s)"
| Exit: "conn_step sk s (tp_sched_process_exit tgid s)"

inductive_cases conn_stepE: "conn_step sk s t"

definition verdict_le :: "sni_state_val option \<Rightarrow> sni_state_val option \<Rightarrow> bool" where
  "verdict_le a b \<longleftrightarrow>
     (case a of
        None \<Rightarrow> True
      | Some v \<Rightarrow> ss_status v = SNI_STATUS_NONE
          \<or> (\<exists>w. b = Some w \<and> ss_sni w = ss_sni v \<and> ss_len w = ss_len v
             \<and> (ss_status w = ss_status v \<or> ss_status v = SNI_STATUS_SEEN \<and> ss_status w = SNI_STATUS_MISMATCH)))"

lemma verdict_le_refl [simp]: "verdict_le a a"
  by (simp add: verdict_le_def split: option.splits)

lemma verdict_le_trans: "verdict_le a b \<Longrightarrow> verdict_le b c \<Longrightarrow> verdict_le a c"
  by (auto simp: verdict_le_def split: option.splits)

text \<open>The probe records at most one parse, on a connection not decided against.\<close>

definition undecided :: "sni_state_val option \<Rightarrow> bool" where
  "undecided v \<longleftrightarrow> (case v of None \<Rightarrow> True | Some c \<Rightarrow> ss_status c = SNI_STATUS_NONE \<or> ss_status c = SNI_STATUS_SEEN)"

lemma sni_probe_records:
  "bpf_kprobe_tcp_sendmsg_sni e sk msg s = s
    \<or> undecided (sni_state s sk) \<and> (\<exists>buf n. bpf_kprobe_tcp_sendmsg_sni e sk msg s
        = sni_record sk (tls_parse_sni buf n (replicate MAX_HOST_LEN 0)) s)"
proof -
  have "undecided v \<longleftrightarrow> (let c = case v of None \<Rightarrow> SNI_STATUS_NONE | Some c \<Rightarrow> ss_status c in
      \<not> (c \<noteq> SNI_STATUS_NONE \<and> c \<noteq> SNI_STATUS_SEEN))" for v
    by (auto simp: undecided_def split: option.splits)
  then show ?thesis
    by (simp add: bpf_kprobe_tcp_sendmsg_sni_def Let_def split_beta split: option.split) blast
qed

lemma sni_record_le: "undecided (sni_state s sk) \<Longrightarrow> verdict_le (sni_state s sk) (sni_state (sni_record sk r s) sk)"
  by (cases r) (auto simp: sni_record_def undecided_def verdict_le_def Let_def split: option.splits)

lemma sni_record_other: "k \<noteq> sk \<Longrightarrow> sni_state (sni_record sk r s) k = sni_state s k"
  by (cases r) (auto simp: sni_record_def Let_def split: option.splits)

lemma sni_probe_le: "verdict_le (sni_state s k) (sni_state (bpf_kprobe_tcp_sendmsg_sni e sk msg s) k)"
  using sni_probe_records [of e sk msg s] sni_record_le [of s sk] sni_record_other [of k sk]
  by (cases "k = sk") (metis verdict_le_refl)+

interpretation verdict: step_order "conn_step sk" "\<lambda>s t. verdict_le (sni_state s sk) (sni_state t sk)" for sk
proof unfold_locales
  fix s t assume "conn_step sk s t"
  then show "verdict_le (sni_state s sk) (sni_state t sk)"
    by cases (auto simp: sni_probe_le tp_inet_sock_set_state_def tp_sched_process_exec_def tp_sched_process_exit_def Let_def)
qed (auto intro: verdict_le_trans)

section \<open>What a handshake record decides\<close>

lemma hello_header:
  assumes "buf = client_hello minor rnd sid ciphers compr exts"
  shows "2 \<le> length buf" "take 2 buf = [TLS_CT_HANDSHAKE, 3]"
  using assms by (simp_all add: client_hello_def Let_def TLS_CT_HANDSHAKE_def)

lemma sni_probe_of_buffer:
  assumes "tracked_tgids s (cur_tgid e) \<noteq> None" "sk \<noteq> 0" "sendmsg_first_buf it = Some (base, of_nat (length buf))"
    and "maps_to (ke_mem e) base buf" "2 \<le> length buf" "length buf \<le> TLS_SNI_BUF_LEN" "take 2 buf = [TLS_CT_HANDSHAKE, 3]"
    and "undecided (sni_state s sk)"
  shows "bpf_kprobe_tcp_sendmsg_sni e sk (Some it) s = sni_record sk (tls_parse_sni buf (length buf) (replicate MAX_HOST_LEN 0)) s"
proof -
  have n: "length buf < 2 ^ 64" using assms(6) by (simp add: TLS_SNI_BUF_LEN_def)
  then have u: "unat (of_nat (length buf) :: u64) = length buf" by (simp add: unat_of_nat)
  then have l: "\<not> (of_nat (length buf) :: u64) < 2" "\<not> (of_nat (length buf) :: u64) > of_nat TLS_SNI_BUF_LEN"
    using assms(5,6) by (simp_all add: word_less_nat_alt TLS_SNI_BUF_LEN_def)
  have "maps_to (ke_mem e) base (take 2 buf @ drop 2 buf)" using assms(4) by simp
  then have "probe_read_user (ke_mem e) 2 base = (True, take 2 buf)"
    unfolding maps_to_append using assms(5) by (intro maps_to_read) auto
  moreover have "probe_read_user (ke_mem e) (length buf) base = (True, buf)"
    by (rule maps_to_read [OF assms(4) refl])
  moreover have "(case sni_state s sk of None \<Rightarrow> SNI_STATUS_NONE | Some c \<Rightarrow> ss_status c) = SNI_STATUS_NONE
      \<or> (case sni_state s sk of None \<Rightarrow> SNI_STATUS_NONE | Some c \<Rightarrow> ss_status c) = SNI_STATUS_SEEN"
    using assms(8) by (auto simp: undecided_def split: option.splits)
  ultimately show ?thesis
    using assms(1-3,7) l u by (auto simp: bpf_kprobe_tcp_sendmsg_sni_def Let_def)
qed

section \<open>Properties\<close>

text \<open>
  C13: once a connection is decided its verdict stays: a refused one stays refused with the same
  status, an accepted one keeps its host, or becomes a mismatch for good, whatever the processes of
  the node send, until its socket starts another connection, closes, or its entry is evicted.
\<close>

theorem sni_verdict_stable:
  assumes "(conn_step sk)\<^sup>*\<^sup>* s t" "sni_state s sk = Some v" "ss_status v \<noteq> SNI_STATUS_NONE"
  shows "\<exists>w. sni_state t sk = Some w \<and> ss_sni w = ss_sni v \<and> ss_len w = ss_len v
    \<and> (ss_status w = ss_status v \<or> ss_status v = SNI_STATUS_SEEN \<and> ss_status w = SNI_STATUS_MISMATCH)"
  using verdict.le_run [OF assms(1)] assms(2,3) by (auto simp: verdict_le_def)

text \<open>
  C22: the first handshake record of a connection decides it: a ClientHello with a server name makes it
  that name's connection, or one that no host restriction accepts when it also carries an encrypted
  ClientHello; a later ClientHello keeps an accepted connection only if it names the same host.
\<close>

theorem sni_hello_decides:
  assumes "tracked_tgids s (cur_tgid e) \<noteq> None" "sk \<noteq> 0" "sendmsg_first_buf it = Some (base, of_nat (length buf))"
    and "maps_to (ke_mem e) base buf"
    and "buf = client_hello minor rnd sid ciphers compr (enc_exts (es @ sni_ext name # fs))"
    and "hello_ok buf rnd sid compr" "name_ok name" "strip_dot (map lower name) \<noteq> []"
    and "other_exts es" "other_exts fs" "length es + length fs < TLS_SNI_MAX_EXTS"
  defines "host \<equiv> strip_dot (map lower name)" and "s' \<equiv> bpf_kprobe_tcp_sendmsg_sni e sk (Some it) s"
  shows "(sni_state s sk = None \<longrightarrow> sni_state s' sk = Some (if has_ech (es @ fs)
        then \<lparr>ss_status = SNI_STATUS_ECH, ss_len = 0, ss_sni = replicate MAX_HOST_LEN 0\<rparr>
        else \<lparr>ss_status = SNI_STATUS_SEEN, ss_len = length host, ss_sni = pad_host host\<rparr>))
    \<and> (\<forall>c. sni_state s sk = Some c \<and> ss_status c = SNI_STATUS_SEEN \<and> length (ss_sni c) = MAX_HOST_LEN \<longrightarrow>
        sni_state s' sk = Some (if has_ech (es @ fs) \<or> ss_sni c \<noteq> pad_host host
          then c\<lparr>ss_status := SNI_STATUS_MISMATCH\<rparr> else c))"
proof -
  note h = hello_header [OF assms(5)]
  have len: "length buf \<le> TLS_SNI_BUF_LEN" using assms(6) by (simp add: hello_ok_def)
  note parse = tls_parse_sni_named [OF assms(5-11), folded host_def]
  have run: "s' = sni_record sk (tls_parse_sni buf (length buf) (replicate MAX_HOST_LEN 0)) s" if "undecided (sni_state s sk)"
    unfolding s'_def by (rule sni_probe_of_buffer [OF assms(1-4) h(1) len h(2) that])
  have "length host < MAX_HOST_LEN" if "\<not> has_ech (es @ fs)"
    using tls_parse_sni_seen [of buf "length buf" "pad_host host" "length host"] parse that by auto
  then have "hosts_match x (pad_host host) \<longleftrightarrow> x = pad_host host" if "\<not> has_ech (es @ fs)" "length x = MAX_HOST_LEN" for x
    using hosts_match_iff [of x "pad_host host"] that by (auto simp: length_pad_host MAX_HOST_LEN_def pad_host_def)
  then show ?thesis
    using run parse by (auto simp: sni_record_def undecided_def Let_def)
qed

section \<open>Concrete connections\<close>

definition hello_env :: kenv where
  "hello_env = example_env (mem_block 4096 example_hello)"

definition hello_msg :: iov_iter where
  "hello_msg = \<lparr>ii_type = Some ITER_UBUF, ii_count = of_nat (length example_hello), ii_offset = 0, ii_ubuf = 4096, ii_iov = None\<rparr>"

definition tracked_kmaps :: kmaps where
  "tracked_kmaps = example_kmaps\<lparr>tracked_tgids := [7 \<mapsto> 1]\<rparr>"

theorem sni_hello_decides_witness:
  "sni_state (bpf_kprobe_tcp_sendmsg_sni hello_env 5 (Some hello_msg) tracked_kmaps) 5
    = Some \<lparr>ss_status = SNI_STATUS_SEEN, ss_len = 2, ss_sni = pad_host [97, 98]\<rparr>"
proof -
  have h: "hello_ok example_hello (replicate 34 7) [] [0]" "name_ok [65, 98, 46]" "other_exts []"
      "\<not> has_ech []" "strip_dot (map lower [65, 98, 46]) = [97, 98]" "length example_hello < 1000"
    by (simp_all add: hello_defs example_hello_def strip_dot_def)
  have m: "maps_to (ke_mem hello_env) 4096 example_hello" using h(6) by (simp add: hello_env_def maps_to_block)
  have b: "sendmsg_first_buf hello_msg = Some (4096, of_nat (length example_hello))"
    by (simp add: sendmsg_first_buf_def hello_msg_def)
  have t: "tracked_tgids tracked_kmaps (cur_tgid hello_env) \<noteq> None" "sni_state tracked_kmaps 5 = None"
    by (simp_all add: tracked_kmaps_def hello_env_def) (simp add: example_kmaps_def)
  have e: "example_hello = client_hello 1 (replicate 34 7) [] [0x13, 1] [0] (enc_exts ([] @ sni_ext [65, 98, 46] # []))"
    by (simp add: example_hello_def)
  show ?thesis
    using sni_hello_decides [OF t(1) _ b m e h(1,2) _ h(3,3)] h t(2) by (simp add: TLS_SNI_MAX_EXTS_def)
qed

theorem sni_verdict_stable_witness:
  "\<exists>w. sni_state (bpf_kprobe_tcp_sendmsg_sni hello_env 5 (Some hello_msg) (tracked_kmaps\<lparr>sni_state := [5 \<mapsto>
      \<lparr>ss_status = SNI_STATUS_MALFORMED, ss_len = 0, ss_sni = replicate 64 0\<rparr>]\<rparr>)) 5 = Some w
    \<and> ss_status w = SNI_STATUS_MALFORMED"
proof -
  let ?s = "tracked_kmaps\<lparr>sni_state := [5 \<mapsto> \<lparr>ss_status = SNI_STATUS_MALFORMED, ss_len = 0, ss_sni = replicate 64 0\<rparr>]\<rparr>"
  have "(conn_step 5)\<^sup>*\<^sup>* ?s (bpf_kprobe_tcp_sendmsg_sni hello_env 5 (Some hello_msg) ?s)"
    by (rule r_into_rtranclp) (rule Send)
  from sni_verdict_stable [OF this] show ?thesis by auto
qed

end
