(* ===== verification/Send_Bridge.thy ===== *)
theory Send_Bridge
  imports Sni_State Xor_Path
begin

text \<open>
  The bridge from a write to the packets of its connection: \<open>sock_dst_addr\<close>, \<open>socket_filter_patches\<close>,
  which drops the patches whose secret may not leave on the socket, and \<open>bpf_kprobe_tcp_sendmsg\<close>, which
  stages the others for \<open>tc_egress_patch\<close> once it has the connection's H.

  The reference of the filter is \<open>filter\<close> with the predicate \<open>socket_allows\<close>.
\<close>

section \<open>The code\<close>

definition sock_dst_addr :: "sock \<Rightarrow> bytes" where
  "sock_dst_addr sk =
     (if skc_family sk = 10 \<and> \<not> vip_addr_v4mapped (skc_v6_daddr sk) then skc_v6_daddr sk
      else ipv4_to_mapped (skc_daddr sk))"

text \<open>The address and port of the socket the restrictions are checked against.\<close>

definition sock_peer :: "kenv \<Rightarrow> u64 \<Rightarrow> kmaps \<Rightarrow> bytes \<times> u16" where
  "sock_peer e sk s =
     (let so = ke_sock e sk; cookie = skc_cookie so in
      case (if cookie \<noteq> 0 then vip_sock_dst s cookie else None) of
        None \<Rightarrow> (sock_dst_addr so, bswap16 (skc_dport so))
      | Some dst \<Rightarrow> (vd_ip dst, vd_port dst))"

text \<open>The two checks of one patch: socket and SNI.\<close>

definition filter_keep :: "config \<Rightarrow> kenv \<Rightarrow> u64 \<Rightarrow> bool \<Rightarrow> bytes \<Rightarrow> u16 \<Rightarrow> secret_key \<Rightarrow> kmaps \<Rightarrow> bool \<times> kmaps" where
  "filter_keep cfg e sk memory_bio daddr16 dport key s =
     (let audit = (sni_check_mode cfg = SNI_CHECK_AUDIT); cookie = skc_cookie (ke_sock e sk) in
      case secret_map cfg key of
        None \<Rightarrow> (False, s)
      | Some val \<Rightarrow>
          let sh = (if cookie \<noteq> 0 then vip_sock_host s cookie else None);
              why = vip_socket_check sh (sv_host_len val) (allowed_host val) (ip_len val) (allowed_ip val) daddr16
                      (sv_port val) dport
          in if why \<noteq> VIP_SOCK_OK then
               (False, dbg_inc (if why = VIP_SOCK_DENY_HOST then DBG_VIP_SOCK_HOST_DENY else DBG_VIP_SOCK_ADDR_DENY) s)
             else if sv_host_len val > 0 \<and> sv_host_len val < of_nat MAX_HOST_LEN then
               (let st = sni_state s sk;
                    status = (case st of None \<Rightarrow> SNI_STATUS_NONE | Some v \<Rightarrow>
                      if ss_status v = SNI_STATUS_SEEN \<and> \<not> hosts_match (ss_sni v) (allowed_host val)
                      then SNI_STATUS_MISMATCH else ss_status v)
                in if status \<noteq> SNI_STATUS_SEEN then
                     (audit, report_secret_event e key audit SECRET_EVT_SNI status memory_bio
                        (case st of None \<Rightarrow> None | Some v \<Rightarrow> Some (ss_sni v))
                        (dbg_inc (if audit then DBG_SNI_AUDIT else DBG_SNI_DENY) s))
                   else (True, s))
             else (True, s))"

definition set_staged :: "(tc_pending_val \<Rightarrow> tc_pending_val) \<Rightarrow> kmaps \<Rightarrow> kmaps" where
  "set_staged f s = s\<lparr>ghash_scratch := (ghash_scratch s)\<lparr>staged_tc := f (staged_tc (ghash_scratch s))\<rparr>\<rparr>"

text \<open>The loop, from patch \<open>p\<close> with \<open>n\<close> rounds left; \<open>pc\<close> patches are staged, \<open>kept\<close> of them were kept.\<close>

fun socket_filter_loop ::
  "config \<Rightarrow> kenv \<Rightarrow> u64 \<Rightarrow> bool \<Rightarrow> bytes \<Rightarrow> u16 \<Rightarrow> nat \<Rightarrow> nat \<Rightarrow> nat \<Rightarrow> nat \<Rightarrow> kmaps \<Rightarrow> nat \<times> kmaps" where
  "socket_filter_loop cfg e sk mb daddr dport 0 p pc kept s = (kept, s)"
| "socket_filter_loop cfg e sk mb daddr dport (Suc n) p pc kept s =
     (if p \<ge> pc then (kept, s)
      else let patch = tp_patches (staged_tc (ghash_scratch s)) ! (p mod XOR_MAX_PATCHES);
               (keep, s) = filter_keep cfg e sk mb daddr dport (patch_key patch) s
        in if \<not> keep then socket_filter_loop cfg e sk mb daddr dport n (Suc p) pc kept s
           else socket_filter_loop cfg e sk mb daddr dport n (Suc p) pc (Suc kept)
             (if kept \<noteq> p then set_staged (\<lambda>t. t\<lparr>tp_patches := (tp_patches t)[kept mod XOR_MAX_PATCHES :=
                tp_patches t ! (p mod XOR_MAX_PATCHES)]\<rparr>) s else s))"

definition socket_filter_patches :: "config \<Rightarrow> kenv \<Rightarrow> u64 \<Rightarrow> bool \<Rightarrow> kmaps \<Rightarrow> nat \<times> kmaps" where
  "socket_filter_patches cfg e sk memory_bio s =
     (let (daddr16, dport) = sock_peer e sk s;
          pc = min (unat (tp_patch_count (staged_tc (ghash_scratch s)))) XOR_MAX_PATCHES;
          (kept, s) = socket_filter_loop cfg e sk memory_bio daddr16 dport XOR_MAX_PATCHES 0 pc 0 s
      in (kept, set_staged (\<lambda>t. t\<lparr>tp_patch_count := of_nat kept\<rparr>) s))"

text \<open>
  The bridge. The 16 bytes of an H are compared as two words; \<open>xor_pending\<close> is looked up again after
  helper calls, which do not change it.
\<close>

definition store_conn_state :: "tls_conn_key \<Rightarrow> tls_conn_state_val \<Rightarrow> kmaps \<Rightarrow> kmaps" where
  "store_conn_state ck conn s =
     (if (case tls_conn_state s ck of None \<Rightarrow> True | Some c \<Rightarrow> cs_ghash_h c \<noteq> cs_ghash_h conn)
      then s\<lparr>tls_conn_state := (tls_conn_state s)(ck \<mapsto> conn)\<rparr> else s)"

text \<open>The staged entry before the filter.\<close>

definition bridge_staged :: "kenv \<Rightarrow> xor_pending_val \<Rightarrow> tc_pending_val" where
  "bridge_staged e p =
     (let pc = min (unat (xp_patch_count p)) XOR_MAX_PATCHES in
      \<lparr>tp_tgid = cur_tgid e, tp_ssl_ptr = xp_ssl_ptr p, tp_patch_count = of_nat pc,
       tp_patches = take pc (xp_patches p) @ replicate (XOR_MAX_PATCHES - pc) no_patch,
       tp_active = True, tp_plaintext_len = xp_plaintext_len p, tp_write_seq = 0\<rparr>)"

definition bridge_forget :: "kenv \<Rightarrow> xor_pending_val \<Rightarrow> kmaps \<Rightarrow> kmaps" where
  "bridge_forget e p s =
     (if \<not> xp_memory_bio p then s\<lparr>xor_pending := map_del (cur_tgid e) (xor_pending s)\<rparr> else s)"

definition bridge_key :: "kenv \<Rightarrow> u64 \<Rightarrow> tc_dest_key" where
  "bridge_key e sk = \<lparr>dk_dst_ip = sock_dst_addr (ke_sock e sk), dk_src_port = bswap16 (skc_num (ke_sock e sk)),
     dk_cgroup_id = ke_cgroup_id e\<rparr>"

definition bridge_commit :: "config \<Rightarrow> kenv \<Rightarrow> u64 \<Rightarrow> xor_pending_val \<Rightarrow> kmaps \<Rightarrow> kmaps" where
  "bridge_commit cfg e sk p s =
     (case kprobe_conn_state cfg e p s of
        (None, s) \<Rightarrow> s
      | (Some conn, s) \<Rightarrow>
          let s = store_conn_state \<lparr>ck_tgid = cur_tgid e, ck_ssl_ptr = xp_ssl_ptr p\<rparr> conn s;
              s = set_staged (\<lambda>t. t\<lparr>tp_write_seq := (if xp_memory_bio p then 0 else write_seq (ke_sock e sk))\<rparr>) s;
              s = s\<lparr>tc_pending := (tc_pending s)(bridge_key e sk \<mapsto> staged_tc (ghash_scratch s))\<rparr>
          in bridge_forget e p (dbg_inc DBG_KPROBE_BRIDGE s))"

definition bpf_kprobe_tcp_sendmsg :: "config \<Rightarrow> kenv \<Rightarrow> u64 \<Rightarrow> kmaps \<Rightarrow> kmaps" where
  "bpf_kprobe_tcp_sendmsg cfg e sk s =
     (case xor_pending s (cur_tgid e) of
        None \<Rightarrow> dbg_inc DBG_KPROBE_BRIDGE_NO_ENTRY s
      | Some p \<Rightarrow>
          if xp_patch_count p = 0 then dbg_inc DBG_KPROBE_BRIDGE_NO_ENTRY s
          else if xp_memory_bio p \<and> ke_ktime e - xp_created_at p > 2000000000
          then s\<lparr>xor_pending := map_del (cur_tgid e) (xor_pending s)\<rparr>
          else if sk = 0 then s
          else let s = set_staged (\<lambda>_. bridge_staged e p) s;
                   (kept, s) = socket_filter_patches cfg e sk (xp_memory_bio p) s
            in if kept = 0 then bridge_forget e p s else bridge_commit cfg e sk p s)"

section \<open>The reference\<close>

text \<open>A connection whose ClientHello named the host.\<close>

definition sni_is :: "u64 \<Rightarrow> kmaps \<Rightarrow> bytes \<Rightarrow> bool" where
  "sni_is sk s host \<longleftrightarrow> (\<exists>v. sni_state s sk = Some v \<and> ss_status v = SNI_STATUS_SEEN \<and> hosts_match (ss_sni v) host)"

text \<open>Every restriction of the secret is met by the socket.\<close>

definition socket_allows :: "config \<Rightarrow> kenv \<Rightarrow> u64 \<Rightarrow> kmaps \<Rightarrow> secret_key \<Rightarrow> bool" where
  "socket_allows cfg e sk s key \<longleftrightarrow>
     (\<exists>v. secret_map cfg key = Some v
        \<and> vip_socket_check (if skc_cookie (ke_sock e sk) \<noteq> 0 then vip_sock_host s (skc_cookie (ke_sock e sk)) else None)
            (sv_host_len v) (allowed_host v) (ip_len v) (allowed_ip v) (fst (sock_peer e sk s)) (sv_port v)
            (snd (sock_peer e sk s)) = VIP_SOCK_OK
        \<and> (0 < sv_host_len v \<and> sv_host_len v < of_nat MAX_HOST_LEN \<longrightarrow>
            sni_is sk s (allowed_host v) \<or> sni_check_mode cfg = SNI_CHECK_AUDIT))"

text \<open>What the filter leaves alone.\<close>

definition no_filter :: "kmaps \<Rightarrow> kmaps" where
  "no_filter s = no_report (set_staged (\<lambda>t. t\<lparr>tp_patches := [], tp_patch_count := 0\<rparr>) s)"

lemma no_filter_set_staged [simp]:
  "no_filter (set_staged (\<lambda>t. t\<lparr>tp_patches := f t\<rparr>) s) = no_filter s"
  "no_filter (set_staged (\<lambda>t. t\<lparr>tp_patch_count := g t\<rparr>) s) = no_filter s"
  by (simp_all add: no_filter_def set_staged_def)

lemma filter_keep_report: "no_report (snd (filter_keep cfg e sk mb a d key s)) = no_report s"
  by (simp add: filter_keep_def Let_def split: option.splits)

lemma no_report_no_filter: "no_report s = no_report t \<Longrightarrow> no_filter s = no_filter t"
  by (drule arg_cong [of _ _ no_filter]) (simp add: no_filter_def set_staged_def no_report_def)

lemma filter_keep_iff:
  assumes "sock_peer e sk s = (a, d)"
  shows "fst (filter_keep cfg e sk mb a d key s) \<longleftrightarrow> socket_allows cfg e sk s key"
  using assms by (auto simp: filter_keep_def socket_allows_def sni_is_def Let_def split: option.splits)

text \<open>The answer depends on parts of the state the filter does not touch.\<close>

lemma no_filterD:
  assumes "no_filter s = no_filter t"
  shows "sni_state s = sni_state t" "vip_sock_host s = vip_sock_host t" "vip_sock_dst s = vip_sock_dst t"
    "tc_pending s = tc_pending t" "xor_pending s = xor_pending t" "tls_conn_state s = tls_conn_state t"
    "tc_tag_pending s = tc_tag_pending t"
  using arg_cong [OF assms, of sni_state] arg_cong [OF assms, of vip_sock_host] arg_cong [OF assms, of vip_sock_dst]
    arg_cong [OF assms, of tc_pending] arg_cong [OF assms, of xor_pending] arg_cong [OF assms, of tls_conn_state]
    arg_cong [OF assms, of tc_tag_pending]
  by (simp_all add: no_filter_def no_report_def set_staged_def)

lemma no_filter_allows:
  assumes "no_filter s = no_filter t"
  shows "socket_allows cfg e sk s = socket_allows cfg e sk t" "sock_peer e sk s = sock_peer e sk t"
proof -
  show p: "sock_peer e sk s = sock_peer e sk t" by (simp add: sock_peer_def Let_def no_filterD [OF assms])
  show "socket_allows cfg e sk s = socket_allows cfg e sk t"
    by (rule ext) (simp add: socket_allows_def sni_is_def p no_filterD [OF assms])
qed

section \<open>The filter keeps what the socket allows\<close>

lemma set_staged_sel [simp]: "staged_tc (ghash_scratch (set_staged f s)) = f (staged_tc (ghash_scratch s))"
  by (simp add: set_staged_def)

text \<open>The staged patches \<open>qs\<close> after \<open>p\<close> rounds on \<open>ps\<close>.\<close>

definition filtered :: "(xor_patch \<Rightarrow> bool) \<Rightarrow> xor_patch list \<Rightarrow> nat \<Rightarrow> xor_patch list \<Rightarrow> bool" where
  "filtered ok ps p qs \<longleftrightarrow> length qs = length ps
     \<and> take (length (filter ok (take p ps))) qs = filter ok (take p ps) \<and> drop p qs = drop p ps"

lemma filtered_skip: "filtered ok ps p qs \<Longrightarrow> p < length ps \<Longrightarrow> \<not> ok (ps ! p) \<Longrightarrow> filtered ok ps (Suc p) qs"
  by (simp add: filtered_def take_Suc_conv_app_nth) (metis drop_drop plus_1_eq_Suc)

lemma filtered_keep:
  assumes "filtered ok ps p qs" "p < length ps" "ok (ps ! p)"
  defines "kept \<equiv> length (filter ok (take p ps))"
  shows "filtered ok ps (Suc p) (qs[kept := qs ! p])" "length (filter ok (take (Suc p) ps)) = Suc kept" "qs ! p = ps ! p" "kept \<le> p"
proof -
  show k: "kept \<le> p" using assms(2) by (simp add: kept_def) (metis length_filter_le length_take min.absorb4)
  show e: "qs ! p = ps ! p" using assms(1,2) by (simp add: filtered_def) (metis hd_drop_conv_nth)
  show l: "length (filter ok (take (Suc p) ps)) = Suc kept" using assms(2,3) by (simp add: take_Suc_conv_app_nth kept_def)
  have "drop (Suc p) (qs[kept := qs ! p]) = drop (Suc p) ps"
    using assms(1) k by (simp add: filtered_def drop_update_cancel) (metis drop_drop plus_1_eq_Suc)
  moreover have "take (Suc kept) (qs[kept := qs ! p]) = filter ok (take (Suc p) ps)"
    using assms(1-3) k e by (simp add: filtered_def kept_def take_Suc_conv_app_nth)
  ultimately show "filtered ok ps (Suc p) (qs[kept := qs ! p])"
    using assms(1) unfolding filtered_def l by simp
qed

lemma socket_filter_loop_spec:
  assumes "sock_peer e sk s0 = (a, d)" "length ps = XOR_MAX_PATCHES" "pc \<le> XOR_MAX_PATCHES"
    and "no_filter s = no_filter s0" "filtered (\<lambda>q. socket_allows cfg e sk s0 (patch_key q)) ps p (tp_patches (staged_tc (ghash_scratch s)))"
    and "p \<le> pc" "pc \<le> p + n"
  defines "ok \<equiv> \<lambda>q. socket_allows cfg e sk s0 (patch_key q)"
  shows "\<exists>s'. socket_filter_loop cfg e sk mb a d n p pc (length (filter ok (take p ps))) s = (length (filter ok (take pc ps)), s')
    \<and> no_filter s' = no_filter s0 \<and> filtered ok ps pc (tp_patches (staged_tc (ghash_scratch s')))
    \<and> (staged_tc (ghash_scratch s'))\<lparr>tp_patches := []\<rparr> = (staged_tc (ghash_scratch s))\<lparr>tp_patches := []\<rparr>"
  using assms(4-7)
proof (induction n arbitrary: p s)
  case 0
  then show ?case by (simp add: ok_def)
next
  case (Suc n)
  show ?case
  proof (cases "p \<ge> pc")
    case True
    then show ?thesis using Suc.prems by (simp add: ok_def)
  next
    case False
    let ?qs = "tp_patches (staged_tc (ghash_scratch s))" and ?kept = "length (filter ok (take p ps))"
    have p: "p < length ps" "p mod XOR_MAX_PATCHES = p" using False assms(2,3) by simp_all
    note f = Suc.prems(2) [folded ok_def]
    have q: "?qs ! p = ps ! p" using f p(1) by (simp add: filtered_def) (metis hd_drop_conv_nth)
    define r where "r = filter_keep cfg e sk mb a d (patch_key (ps ! p)) s"
    have "fst r = socket_allows cfg e sk s (patch_key (ps ! p))"
      unfolding r_def by (rule filter_keep_iff) (simp add: no_filter_allows [OF Suc.prems(1)] assms(1))
    then have keep: "fst r = ok (ps ! p)" by (simp add: no_filter_allows [OF Suc.prems(1)] ok_def)
    have rep: "no_report (snd r) = no_report s" by (simp add: r_def filter_keep_report)
    have fr: "no_filter (snd r) = no_filter s0" using no_report_no_filter [OF rep] Suc.prems(1) by simp
    have gs: "ghash_scratch (snd r) = ghash_scratch s" by (rule no_reportD [OF rep])
    have run: "socket_filter_loop cfg e sk mb a d (Suc n) p pc ?kept s =
        (if \<not> fst r then socket_filter_loop cfg e sk mb a d n (Suc p) pc ?kept (snd r)
         else socket_filter_loop cfg e sk mb a d n (Suc p) pc (Suc ?kept)
           (if ?kept \<noteq> p then set_staged (\<lambda>t. t\<lparr>tp_patches := (tp_patches t)[?kept mod XOR_MAX_PATCHES :=
              tp_patches t ! (p mod XOR_MAX_PATCHES)]\<rparr>) (snd r) else snd r))"
      using False q p(2) by (simp add: r_def split_beta Let_def)
    show ?thesis
    proof (cases "ok (ps ! p)")
      case False
      have "length (filter ok (take (Suc p) ps)) = ?kept" using p(1) False by (simp add: take_Suc_conv_app_nth)
      then show ?thesis
        using Suc.IH [of "snd r" "Suc p"] fr gs filtered_skip [OF f p(1) False] Suc.prems(3,4) \<open>\<not> p \<ge> pc\<close> keep False
        unfolding run by (simp add: ok_def)
    next
      case True
      note k = filtered_keep [OF f p(1) True]
      have m: "?kept mod XOR_MAX_PATCHES = ?kept" using k(4) p(1) assms(2) by simp
      let ?s = "if ?kept \<noteq> p then set_staged (\<lambda>t. t\<lparr>tp_patches := (tp_patches t)[?kept mod XOR_MAX_PATCHES :=
              tp_patches t ! (p mod XOR_MAX_PATCHES)]\<rparr>) (snd r) else snd r"
      have st: "staged_tc (ghash_scratch ?s) = (staged_tc (ghash_scratch s))\<lparr>tp_patches := ?qs[?kept := ?qs ! p]\<rparr>"
        using p(2) m by (auto simp: gs)
      have "no_filter ?s = no_filter s0" using fr by simp
      moreover have "filtered ok ps (Suc p) (tp_patches (staged_tc (ghash_scratch ?s)))" unfolding st using k(1) by simp
      ultimately show ?thesis
        using Suc.IH [of ?s "Suc p"] Suc.prems(3,4) \<open>\<not> p \<ge> pc\<close> keep True st k(2)
        unfolding run by (simp add: ok_def)
    qed
  qed
qed

lemma socket_filter_patches_spec:
  fixes cfg :: config and e :: kenv and sk :: u64
  assumes "staged_tc (ghash_scratch s) = t" "length (tp_patches t) = XOR_MAX_PATCHES" "tp_patch_count t = of_nat pc" "pc \<le> XOR_MAX_PATCHES"
  defines "ks \<equiv> filter (\<lambda>q. socket_allows cfg e sk s (patch_key q)) (take pc (tp_patches t))"
  shows "\<exists>s' rest. socket_filter_patches cfg e sk mb s = (length ks, s') \<and> no_filter s' = no_filter s
    \<and> staged_tc (ghash_scratch s') = t\<lparr>tp_patch_count := of_nat (length ks), tp_patches := ks @ rest\<rparr>
    \<and> length (ks @ rest) = XOR_MAX_PATCHES"
proof -
  obtain a d where pr: "sock_peer e sk s = (a, d)" by fastforce
  have pc: "min (unat (tp_patch_count t)) XOR_MAX_PATCHES = pc"
    using assms(3,4) by (simp add: XOR_MAX_PATCHES_def)
  let ?ok = "\<lambda>q. socket_allows cfg e sk s (patch_key q)"
  have "filtered ?ok (tp_patches t) 0 (tp_patches (staged_tc (ghash_scratch s)))" using assms(1) by (simp add: filtered_def)
  then obtain s' where s': "socket_filter_loop cfg e sk mb a d XOR_MAX_PATCHES 0 pc 0 s = (length ks, s')" "no_filter s' = no_filter s"
      "filtered ?ok (tp_patches t) pc (tp_patches (staged_tc (ghash_scratch s')))"
      "(staged_tc (ghash_scratch s'))\<lparr>tp_patches := []\<rparr> = t\<lparr>tp_patches := []\<rparr>"
    using socket_filter_loop_spec [OF pr assms(2,4) refl, of cfg 0 XOR_MAX_PATCHES mb] assms(1,4) by (auto simp: ks_def)
  let ?s' = "set_staged (\<lambda>t. t\<lparr>tp_patch_count := of_nat (length ks)\<rparr>) s'"
  have "socket_filter_patches cfg e sk mb s = (length ks, ?s')"
    by (simp add: socket_filter_patches_def pr assms(1) pc s'(1))
  moreover have "no_filter ?s' = no_filter s" using s'(2) by simp
  moreover define rest where "rest = drop (length ks) (tp_patches (staged_tc (ghash_scratch s')))"
  have kr: "tp_patches (staged_tc (ghash_scratch s')) = ks @ rest"
    using s'(3) unfolding filtered_def ks_def rest_def by (metis append_take_drop_id)
  then have "length (ks @ rest) = XOR_MAX_PATCHES" using s'(3) assms(2) unfolding filtered_def by simp
  moreover have "staged_tc (ghash_scratch s') = t\<lparr>tp_patches := ks @ rest\<rparr>"
    using kr arg_cong [OF s'(4), of "\<lambda>u. u\<lparr>tp_patches := ks @ rest\<rparr>"] by (cases "staged_tc (ghash_scratch s')") simp
  then have "staged_tc (ghash_scratch ?s') = t\<lparr>tp_patch_count := of_nat (length ks), tp_patches := ks @ rest\<rparr>"
    by simp
  ultimately show ?thesis by blast
qed

section \<open>The bridge\<close>

text \<open>The patches of a pending write that may leave on the socket.\<close>

definition bridged :: "config \<Rightarrow> kenv \<Rightarrow> u64 \<Rightarrow> kmaps \<Rightarrow> xor_pending_val \<Rightarrow> xor_patch list" where
  "bridged cfg e sk s p = filter (\<lambda>q. socket_allows cfg e sk s (patch_key q)) (take (unat (xp_patch_count p)) (xp_patches p))"

definition slots_ok :: "xor_pending_val \<Rightarrow> bool" where
  "slots_ok p \<longleftrightarrow> length (xp_patches p) = XOR_MAX_PATCHES \<and> unat (xp_patch_count p) \<le> XOR_MAX_PATCHES"

definition forget_write :: "kenv \<Rightarrow> xor_pending_val \<Rightarrow> (u32 \<rightharpoonup> xor_pending_val) \<Rightarrow> (u32 \<rightharpoonup> xor_pending_val)" where
  "forget_write e p m = (if xp_memory_bio p then m else map_del (cur_tgid e) m)"

text \<open>The entry of the connection: its patches, then slots nobody reads.\<close>

definition pending_entry :: "kenv \<Rightarrow> u64 \<Rightarrow> xor_pending_val \<Rightarrow> xor_patch list \<Rightarrow> xor_patch list \<Rightarrow> tc_pending_val" where
  "pending_entry e sk p ks rest = \<lparr>tp_tgid = cur_tgid e, tp_ssl_ptr = xp_ssl_ptr p, tp_patch_count = of_nat (length ks),
     tp_patches = ks @ rest, tp_active = True, tp_plaintext_len = xp_plaintext_len p,
     tp_write_seq = (if xp_memory_bio p then 0 else write_seq (ke_sock e sk))\<rparr>"

definition no_stage :: "kmaps \<Rightarrow> kmaps" where
  "no_stage s = no_report (set_staged (\<lambda>_. staged_tc zero_work) s)"

lemma no_stage_set_staged [simp]: "no_stage (set_staged f s) = no_stage s"
  by (simp add: no_stage_def set_staged_def)

lemma no_stage_no_filter: "no_filter s = no_filter t \<Longrightarrow> no_stage s = no_stage t"
  by (drule arg_cong [of _ _ no_stage]) (simp add: no_filter_def no_stage_def set_staged_def no_report_def)

lemma no_stage_no_report: "no_report s = no_report t \<Longrightarrow> no_stage s = no_stage t"
  by (drule arg_cong [of _ _ no_stage]) (simp add: no_stage_def set_staged_def no_report_def)

lemma no_stageD:
  assumes "no_stage s = no_stage t"
  shows "sni_state s = sni_state t" "vip_sock_host s = vip_sock_host t" "vip_sock_dst s = vip_sock_dst t"
    "tc_pending s = tc_pending t" "xor_pending s = xor_pending t" "tls_conn_state s = tls_conn_state t"
    "tc_tag_pending s = tc_tag_pending t"
  using arg_cong [OF assms, of sni_state] arg_cong [OF assms, of vip_sock_host] arg_cong [OF assms, of vip_sock_dst]
    arg_cong [OF assms, of tc_pending] arg_cong [OF assms, of xor_pending] arg_cong [OF assms, of tls_conn_state]
    arg_cong [OF assms, of tc_tag_pending]
  by (simp_all add: no_stage_def no_report_def set_staged_def)

definition bridge_runs :: "kenv \<Rightarrow> u64 \<Rightarrow> xor_pending_val \<Rightarrow> bool" where
  "bridge_runs e sk p \<longleftrightarrow> xp_patch_count p \<noteq> 0 \<and> slots_ok p \<and> sk \<noteq> 0
     \<and> \<not> (xp_memory_bio p \<and> ke_ktime e - xp_created_at p > 2000000000)"

lemma bridge_forget_fields [simp]:
  "xor_pending (bridge_forget e p s) = forget_write e p (xor_pending s)" "tc_pending (bridge_forget e p s) = tc_pending s"
  "tls_conn_state (bridge_forget e p s) = tls_conn_state s" "sni_state (bridge_forget e p s) = sni_state s"
  "vip_sock_host (bridge_forget e p s) = vip_sock_host s" "vip_sock_dst (bridge_forget e p s) = vip_sock_dst s"
  "tc_tag_pending (bridge_forget e p s) = tc_tag_pending s"
  by (simp_all add: bridge_forget_def forget_write_def)

text \<open>The filter's part of a run, then the rest.\<close>

lemma bridge_filters:
  fixes cfg :: config
  assumes "xor_pending s (cur_tgid e) = Some p" "bridge_runs e sk p"
  defines "ks \<equiv> bridged cfg e sk s p"
  shows "\<exists>s1 rest. no_stage s1 = no_stage s
    \<and> staged_tc (ghash_scratch s1) = (bridge_staged e p)\<lparr>tp_patch_count := of_nat (length ks), tp_patches := ks @ rest\<rparr>
    \<and> length (ks @ rest) = XOR_MAX_PATCHES
    \<and> bpf_kprobe_tcp_sendmsg cfg e sk s = (if ks = [] then bridge_forget e p s1 else bridge_commit cfg e sk p s1)"
proof -
  let ?pc = "unat (xp_patch_count p)" and ?t = "bridge_staged e p"
  have g: "xp_patch_count p \<noteq> 0" "length (xp_patches p) = XOR_MAX_PATCHES" "?pc \<le> XOR_MAX_PATCHES" "sk \<noteq> 0"
      "\<not> (xp_memory_bio p \<and> ke_ktime e - xp_created_at p > 2000000000)"
    using assms(2) by (auto simp: bridge_runs_def slots_ok_def)
  have t: "length (tp_patches ?t) = XOR_MAX_PATCHES" "tp_patch_count ?t = of_nat ?pc" "take ?pc (tp_patches ?t) = take ?pc (xp_patches p)"
    using g(2,3) by (simp_all add: bridge_staged_def Let_def)
  define s0 where "s0 = set_staged (\<lambda>_. ?t) s"
  have s0: "staged_tc (ghash_scratch s0) = ?t" "no_stage s0 = no_stage s" by (simp_all add: s0_def)
  have "socket_allows cfg e sk s0 = socket_allows cfg e sk s"
    by (rule ext) (simp add: s0_def set_staged_def socket_allows_def sni_is_def sock_peer_def)
  then have ks: "filter (\<lambda>q. socket_allows cfg e sk s0 (patch_key q)) (take ?pc (tp_patches ?t)) = ks"
    by (simp add: ks_def bridged_def t(3))
  obtain s1 rest where s1: "socket_filter_patches cfg e sk (xp_memory_bio p) s0 = (length ks, s1)" "no_filter s1 = no_filter s0"
      "staged_tc (ghash_scratch s1) = ?t\<lparr>tp_patch_count := of_nat (length ks), tp_patches := ks @ rest\<rparr>"
      "length (ks @ rest) = XOR_MAX_PATCHES"
    using socket_filter_patches_spec [OF s0(1) t(1,2) g(3), of cfg e sk "xp_memory_bio p"] unfolding ks by blast
  have "no_stage s1 = no_stage s" using no_stage_no_filter [OF s1(2)] s0(2) by simp
  moreover have "bpf_kprobe_tcp_sendmsg cfg e sk s = (if ks = [] then bridge_forget e p s1 else bridge_commit cfg e sk p s1)"
    using assms(1) g s1(1) unfolding bpf_kprobe_tcp_sendmsg_def Let_def s0_def by auto
  ultimately show ?thesis using s1(3,4) by blast
qed

text \<open>What stands in \<open>tls_conn_state\<close> for the connection: an entry with the same H stays.\<close>

definition stored_conn :: "tls_conn_state_val option \<Rightarrow> tls_conn_state_val \<Rightarrow> tls_conn_state_val" where
  "stored_conn old conn = (case old of None \<Rightarrow> conn | Some c \<Rightarrow> if cs_ghash_h c = cs_ghash_h conn then c else conn)"

lemma bridge_commits:
  fixes sk :: u64
  assumes "staged_tc (ghash_scratch s1) = (bridge_staged e p)\<lparr>tp_patch_count := of_nat (length ks), tp_patches := ks @ rest\<rparr>"
    and "kprobe_conn_state cfg e p s1 = (Some conn, s2)"
  defines "s' \<equiv> bridge_commit cfg e sk p s1" and "ck \<equiv> \<lparr>ck_tgid = cur_tgid e, ck_ssl_ptr = xp_ssl_ptr p\<rparr>"
  shows "tc_pending s' = (tc_pending s1)(bridge_key e sk \<mapsto> pending_entry e sk p ks rest)"
    "xor_pending s' = forget_write e p (xor_pending s1)" "\<exists>c. tls_conn_state s' ck = Some c \<and> cs_ghash_h c = cs_ghash_h conn"
    "\<And>k. k \<noteq> ck \<Longrightarrow> tls_conn_state s' k = tls_conn_state s1 k"
    "sni_state s' = sni_state s1" "vip_sock_host s' = vip_sock_host s1" "vip_sock_dst s' = vip_sock_dst s1"
    "tc_tag_pending s' = tc_tag_pending s1" "tls_conn_state s' ck = Some (stored_conn (tls_conn_state s1 ck) conn)"
proof -
  have rep: "no_report s2 = no_report s1" using kprobe_conn_state_frame [of cfg e p s1] assms(2) by simp
  note f = no_reportD [OF rep]
  let ?s3 = "store_conn_state ck conn s2"
  have c: "ghash_scratch ?s3 = ghash_scratch s2" "tc_pending ?s3 = tc_pending s2" "xor_pending ?s3 = xor_pending s2"
      "sni_state ?s3 = sni_state s2" "vip_sock_host ?s3 = vip_sock_host s2" "vip_sock_dst ?s3 = vip_sock_dst s2"
      "tc_tag_pending ?s3 = tc_tag_pending s2"
    by (simp_all add: store_conn_state_def)
  let ?s4 = "set_staged (\<lambda>t. t\<lparr>tp_write_seq := (if xp_memory_bio p then 0 else write_seq (ke_sock e sk))\<rparr>) ?s3"
  have e: "staged_tc (ghash_scratch ?s4) = pending_entry e sk p ks rest"
    using assms(1) by (simp add: c f(1) pending_entry_def bridge_staged_def Let_def)
  have m: "tc_pending ?s4 = tc_pending s1" "xor_pending ?s4 = xor_pending s1" "tls_conn_state ?s4 = tls_conn_state ?s3"
      "sni_state ?s4 = sni_state s1" "vip_sock_host ?s4 = vip_sock_host s1" "vip_sock_dst ?s4 = vip_sock_dst s1"
      "tc_tag_pending ?s4 = tc_tag_pending s1"
    using c f by (simp_all add: set_staged_def)
  have run: "s' = bridge_forget e p (dbg_inc DBG_KPROBE_BRIDGE (?s4\<lparr>tc_pending :=
      (tc_pending ?s4)(bridge_key e sk \<mapsto> pending_entry e sk p ks rest)\<rparr>))"
    unfolding s'_def bridge_commit_def assms(2) Let_def using e by (simp add: ck_def)
  show "tc_pending s' = (tc_pending s1)(bridge_key e sk \<mapsto> pending_entry e sk p ks rest)"
      "xor_pending s' = forget_write e p (xor_pending s1)"
      "sni_state s' = sni_state s1" "vip_sock_host s' = vip_sock_host s1" "vip_sock_dst s' = vip_sock_dst s1"
      "tc_tag_pending s' = tc_tag_pending s1"
    unfolding run using m by simp_all
  have "tls_conn_state s' = tls_conn_state ?s3" unfolding run using m(3) by simp
  then show "\<exists>c. tls_conn_state s' ck = Some c \<and> cs_ghash_h c = cs_ghash_h conn"
      "\<And>k. k \<noteq> ck \<Longrightarrow> tls_conn_state s' k = tls_conn_state s1 k"
      "tls_conn_state s' ck = Some (stored_conn (tls_conn_state s1 ck) conn)"
    using f(2) by (auto simp: store_conn_state_def stored_conn_def split: option.splits if_splits)
qed

lemma bridge_commit_failed:
  assumes "kprobe_conn_state cfg e p s1 = (None, s2)"
  shows "bridge_commit cfg e sk p s1 = s2" "no_report s2 = no_report s1"
  using assms kprobe_conn_state_frame [of cfg e p s1] by (simp_all add: bridge_commit_def)

lemma length_bridged: "slots_ok p \<Longrightarrow> length (bridged cfg e sk s p) \<le> XOR_MAX_PATCHES"
  unfolding bridged_def slots_ok_def by (rule le_trans [OF length_filter_le]) simp

lemma bridge_idle:
  assumes "\<And>p. xor_pending s (cur_tgid e) = Some p \<Longrightarrow> slots_ok p \<and> \<not> bridge_runs e sk p"
  shows "tc_pending (bpf_kprobe_tcp_sendmsg cfg e sk s) = tc_pending s
    \<and> tls_conn_state (bpf_kprobe_tcp_sendmsg cfg e sk s) = tls_conn_state s"
  using assms by (auto simp: bpf_kprobe_tcp_sendmsg_def bridge_runs_def Let_def split: option.splits)

lemma bridge_change:
  fixes s :: kmaps
  assumes "\<forall>p. xor_pending s (cur_tgid e) = Some p \<longrightarrow> slots_ok p"
    and "tc_pending (bpf_kprobe_tcp_sendmsg cfg e sk s) k \<noteq> tc_pending s k"
  shows "\<exists>p rest. k = bridge_key e sk \<and> xor_pending s (cur_tgid e) = Some p \<and> slots_ok p \<and> bridged cfg e sk s p \<noteq> []
    \<and> length (bridged cfg e sk s p @ rest) = XOR_MAX_PATCHES
    \<and> tc_pending (bpf_kprobe_tcp_sendmsg cfg e sk s) k = Some (pending_entry e sk p (bridged cfg e sk s p) rest)
    \<and> tls_conn_state (bpf_kprobe_tcp_sendmsg cfg e sk s) \<lparr>ck_tgid = cur_tgid e, ck_ssl_ptr = xp_ssl_ptr p\<rparr> \<noteq> None"
proof -
  let ?s' = "bpf_kprobe_tcp_sendmsg cfg e sk s"
  have "\<exists>p. xor_pending s (cur_tgid e) = Some p \<and> bridge_runs e sk p"
    using bridge_idle [where s = s and e = e and sk = sk and cfg = cfg] assms by (metis (full_types))
  then obtain p where p: "xor_pending s (cur_tgid e) = Some p" "bridge_runs e sk p" by blast
  let ?ks = "bridged cfg e sk s p"
  obtain s1 rest where s1: "no_stage s1 = no_stage s"
      "staged_tc (ghash_scratch s1) = (bridge_staged e p)\<lparr>tp_patch_count := of_nat (length ?ks), tp_patches := ?ks @ rest\<rparr>"
      "?s' = (if ?ks = [] then bridge_forget e p s1 else bridge_commit cfg e sk p s1)" "length (?ks @ rest) = XOR_MAX_PATCHES"
    using bridge_filters [OF p, of cfg] by blast
  note f = no_stageD [OF s1(1)]
  have ks: "?ks \<noteq> []" using assms(2) s1(3) f(4) by auto
  obtain r s2 where r: "kprobe_conn_state cfg e p s1 = (r, s2)" by fastforce
  have "r \<noteq> None"
  proof
    assume "r = None"
    then have n: "kprobe_conn_state cfg e p s1 = (None, s2)" using r by simp
    then have "tc_pending ?s' = tc_pending s"
      using s1(3) ks f(4) no_reportD(3) [OF bridge_commit_failed(2) [OF n]] by (simp add: bridge_commit_def)
    then show False using assms(2) by simp
  qed
  then obtain conn where "kprobe_conn_state cfg e p s1 = (Some conn, s2)" using r by auto
  note c = bridge_commits [OF s1(2) this, where sk = sk]
  have s': "?s' = bridge_commit cfg e sk p s1" using s1(3) ks by simp
  have "k = bridge_key e sk" using assms(2) c(1) f(4) unfolding s' by (auto split: if_splits)
  moreover have "tc_pending ?s' k = Some (pending_entry e sk p ?ks rest)" unfolding s' c(1) using calculation by simp
  moreover have "tls_conn_state ?s' \<lparr>ck_tgid = cur_tgid e, ck_ssl_ptr = xp_ssl_ptr p\<rparr> \<noteq> None" unfolding s' using c(3) by auto
  ultimately show ?thesis using p ks s1(4) by (auto simp: bridge_runs_def)
qed

lemma pending_entry_patches:
  assumes "length ks \<le> XOR_MAX_PATCHES"
  shows "take (unat (tp_patch_count (pending_entry e sk p ks rest))) (tp_patches (pending_entry e sk p ks rest)) = ks"
    "unat (tp_patch_count (pending_entry e sk p ks rest)) = length ks"
proof -
  have "unat (of_nat (length ks) :: u32) = length ks" using assms by (simp add: XOR_MAX_PATCHES_def)
  then show "take (unat (tp_patch_count (pending_entry e sk p ks rest))) (tp_patches (pending_entry e sk p ks rest)) = ks"
    "unat (tp_patch_count (pending_entry e sk p ks rest)) = length ks" by (simp_all add: pending_entry_def)
qed

section \<open>Properties\<close>

text \<open>
  C7: what a tcp_sendmsg stages for the egress program, whatever user memory holds: only patches of the
  write its process has pending, all of them allowed on this socket (host of the connect and SNI,
  address, port), under the key of this connection and container, and never without the connection's H.
\<close>

theorem bridge_only_allowed:
  fixes s :: kmaps
  assumes "\<forall>p. xor_pending s (cur_tgid e) = Some p \<longrightarrow> slots_ok p"
    and "tc_pending (bpf_kprobe_tcp_sendmsg cfg e sk s) k \<noteq> tc_pending s k"
  shows "\<exists>p v. k = bridge_key e sk \<and> xor_pending s (cur_tgid e) = Some p
    \<and> tc_pending (bpf_kprobe_tcp_sendmsg cfg e sk s) k = Some v \<and> tp_patch_count v \<noteq> 0
    \<and> (\<forall>q \<in> set (take (unat (tp_patch_count v)) (tp_patches v)). q \<in> set (xp_patches p) \<and> socket_allows cfg e sk s (patch_key q))
    \<and> tls_conn_state (bpf_kprobe_tcp_sendmsg cfg e sk s) \<lparr>ck_tgid = tp_tgid v, ck_ssl_ptr = tp_ssl_ptr v\<rparr> \<noteq> None"
proof -
  obtain p rest where b: "k = bridge_key e sk" "xor_pending s (cur_tgid e) = Some p" "slots_ok p" "bridged cfg e sk s p \<noteq> []"
      "tc_pending (bpf_kprobe_tcp_sendmsg cfg e sk s) k = Some (pending_entry e sk p (bridged cfg e sk s p) rest)"
      "tls_conn_state (bpf_kprobe_tcp_sendmsg cfg e sk s) \<lparr>ck_tgid = cur_tgid e, ck_ssl_ptr = xp_ssl_ptr p\<rparr> \<noteq> None"
    using bridge_change [OF assms] by blast
  let ?v = "pending_entry e sk p (bridged cfg e sk s p) rest"
  note n = pending_entry_patches [OF length_bridged [OF b(3)], of e sk p cfg e sk s rest]
  have "tp_patch_count ?v \<noteq> 0" using n(2) b(4) by (metis length_0_conv unat_0)
  moreover have "\<forall>q \<in> set (bridged cfg e sk s p). q \<in> set (xp_patches p) \<and> socket_allows cfg e sk s (patch_key q)"
    by (auto simp: bridged_def dest: in_set_takeD)
  moreover have "tp_tgid ?v = cur_tgid e" "tp_ssl_ptr ?v = xp_ssl_ptr p" by (simp_all add: pending_entry_def)
  ultimately show ?thesis using b(1,2,5,6) n(1) by (intro exI [of _ p] exI [of _ ?v]) auto
qed

text \<open>
  C19: the record of a write whose secrets the socket allows is staged: when the memory of its TLS
  library holds the connection's H, the connection's entry gets exactly the allowed patches, in order,
  with the sequence number of the send (none for a memory BIO), and H is stored with it; a write with
  none that is allowed leaves the entry alone. A socket write is bridged once, a memory BIO write stays.
\<close>

theorem bridge_stages_record:
  assumes "xor_pending s (cur_tgid e) = Some p" "bridge_runs e sk p" "conn_memory cfg e p h nl"
  defines "ks \<equiv> bridged cfg e sk s p" and "s' \<equiv> bpf_kprobe_tcp_sendmsg cfg e sk s"
  shows "(ks = [] \<longrightarrow> tc_pending s' = tc_pending s \<and> tls_conn_state s' = tls_conn_state s)
    \<and> (ks \<noteq> [] \<longrightarrow> (\<exists>rest. tc_pending s' = (tc_pending s)(bridge_key e sk \<mapsto> pending_entry e sk p ks rest))
        \<and> (\<exists>c. tls_conn_state s' \<lparr>ck_tgid = cur_tgid e, ck_ssl_ptr = xp_ssl_ptr p\<rparr> = Some c \<and> cs_ghash_h c = h))
    \<and> xor_pending s' = (if xp_memory_bio p then xor_pending s else (xor_pending s)(cur_tgid e := None))"
proof -
  obtain s1 rest where s1: "no_stage s1 = no_stage s"
      "staged_tc (ghash_scratch s1) = (bridge_staged e p)\<lparr>tp_patch_count := of_nat (length ks), tp_patches := ks @ rest\<rparr>"
      "s' = (if ks = [] then bridge_forget e p s1 else bridge_commit cfg e sk p s1)"
    using bridge_filters [OF assms(1,2), of cfg] unfolding ks_def s'_def by blast
  note f = no_stageD [OF s1(1)]
  obtain s2 where "kprobe_conn_state cfg e p s1
      = (Some \<lparr>cs_ghash_h = h, cs_cipher_type = KLOAK_CIPHER_AES_GCM, cs_nonce_len = nl\<rparr>, s2)"
    using kprobe_conn_state_spec [OF assms(3)] by blast
  note c = bridge_commits [OF s1(2) this, where sk = sk]
  have x: "forget_write e p (xor_pending s) = (if xp_memory_bio p then xor_pending s else (xor_pending s)(cur_tgid e := None))"
    by (simp add: forget_write_def map_del_def)
  show ?thesis
  proof (cases "ks = []")
    case True
    then show ?thesis using s1(3) f x by auto
  next
    case False
    then show ?thesis using s1(3) c(1-3) f x by auto
  qed
qed

section \<open>A concrete bridge\<close>

definition bridge_patch :: xor_patch where
  "bridge_patch = no_patch\<lparr>secret_offset := 1, secret_len := 4, patch_key := example_key\<rparr>"

definition bridge_pending :: xor_pending_val where
  "bridge_pending = example_xor_pending\<lparr>xp_patches := [bridge_patch, no_patch, no_patch, no_patch], xp_h_valid := True,
     xp_ghash_h := replicate 16 7, xp_cipher_type := KLOAK_CIPHER_AES_GCM\<rparr>"

definition bridge_kmaps :: kmaps where
  "bridge_kmaps = example_kmaps\<lparr>xor_pending := [7 \<mapsto> bridge_pending]\<rparr>"

lemma bridge_example:
  "xor_pending bridge_kmaps (cur_tgid (write_env 0)) = Some bridge_pending" "bridge_runs (write_env 0) 5 bridge_pending"
  "conn_memory secret_config (write_env 0) bridge_pending (replicate 16 7) 0"
  "bridged secret_config (write_env 0) 5 bridge_kmaps bridge_pending = [bridge_patch]"
proof -
  show "xor_pending bridge_kmaps (cur_tgid (write_env 0)) = Some bridge_pending" by (simp add: bridge_kmaps_def write_env_def)
  show "bridge_runs (write_env 0) 5 bridge_pending"
    by (simp add: bridge_runs_def slots_ok_def bridge_pending_def example_xor_pending_def XOR_MAX_PATCHES_def)
  show "conn_memory secret_config (write_env 0) bridge_pending (replicate 16 7) 0"
    by (simp add: conn_memory_def bridge_pending_def example_xor_pending_def)
  have "socket_allows secret_config e 5 bridge_kmaps example_key" for e
    by (simp add: socket_allows_def secret_config_def example_secret_def vip_socket_check_def)
  then show "bridged secret_config (write_env 0) 5 bridge_kmaps bridge_pending = [bridge_patch]"
    by (simp add: bridged_def bridge_pending_def example_xor_pending_def bridge_patch_def)
qed

lemma bridge_example_key: "bridge_key (write_env 0) 5
    = \<lparr>dk_dst_ip = ipv4_to_mapped [1, 2, 3, 4], dk_src_port = bswap16 40000, dk_cgroup_id = 11\<rparr>"
  by (simp add: bridge_key_def write_env_def sock_dst_addr_def example_sock_def)

theorem bridge_stages_record_witness:
  "\<exists>v. tc_pending (bpf_kprobe_tcp_sendmsg secret_config (write_env 0) 5 bridge_kmaps)
      \<lparr>dk_dst_ip = ipv4_to_mapped [1, 2, 3, 4], dk_src_port = bswap16 40000, dk_cgroup_id = 11\<rparr> = Some v
    \<and> tp_patch_count v = 1 \<and> tp_patches v ! 0 = bridge_patch \<and> tp_write_seq v = 5000"
  using bridge_stages_record [OF bridge_example(1-3)]
  unfolding bridge_example(4) bridge_example_key
  by (auto simp: pending_entry_def bridge_pending_def example_xor_pending_def write_env_def example_sock_def)

lemma bridge_example_staged:
  "tc_pending (bpf_kprobe_tcp_sendmsg secret_config (write_env 0) 5 bridge_kmaps) (bridge_key (write_env 0) 5) \<noteq> None"
proof -
  obtain s1 rest where s1: "staged_tc (ghash_scratch s1) = (bridge_staged (write_env 0) bridge_pending)
        \<lparr>tp_patch_count := of_nat (length [bridge_patch]), tp_patches := [bridge_patch] @ rest\<rparr>"
      "bpf_kprobe_tcp_sendmsg secret_config (write_env 0) 5 bridge_kmaps = bridge_commit secret_config (write_env 0) 5 bridge_pending s1"
    using bridge_filters [OF bridge_example(1,2), of secret_config] unfolding bridge_example(4) by auto
  obtain c s2 where "kprobe_conn_state secret_config (write_env 0) bridge_pending s1 = (Some c, s2)"
    using kprobe_conn_state_spec [OF bridge_example(3), of s1] by blast
  then show ?thesis using bridge_commits(1) [OF s1(1)] s1(2) by auto
qed

theorem bridge_only_allowed_witness:
  "socket_allows secret_config (write_env 0) 5 bridge_kmaps (patch_key bridge_patch)
    \<and> tls_conn_state (bpf_kprobe_tcp_sendmsg secret_config (write_env 0) 5 bridge_kmaps) \<noteq> (\<lambda>_. None)"
proof -
  have "tc_pending bridge_kmaps (bridge_key (write_env 0) 5) = None" by (simp add: bridge_kmaps_def example_kmaps_def)
  then have n: "tc_pending (bpf_kprobe_tcp_sendmsg secret_config (write_env 0) 5 bridge_kmaps) (bridge_key (write_env 0) 5)
      \<noteq> tc_pending bridge_kmaps (bridge_key (write_env 0) 5)" using bridge_example_staged by simp
  have p: "\<forall>p. xor_pending bridge_kmaps (cur_tgid (write_env 0)) = Some p \<longrightarrow> slots_ok p"
    using bridge_example(1,2) by (simp add: bridge_runs_def)
  obtain v :: tc_pending_val where "tls_conn_state (bpf_kprobe_tcp_sendmsg secret_config (write_env 0) 5 bridge_kmaps)
      \<lparr>ck_tgid = tp_tgid v, ck_ssl_ptr = tp_ssl_ptr v\<rparr> \<noteq> None"
    using bridge_only_allowed [OF p n] by blast
  moreover have "socket_allows secret_config (write_env 0) 5 bridge_kmaps (patch_key bridge_patch)"
    using arg_cong [OF bridge_example(4), of set] unfolding bridged_def by auto
  ultimately show ?thesis by auto
qed

end
