(* ===== verification/Vip_Connect.thy ===== *)
theory Vip_Connect
  imports Process_Track Transition
begin

text \<open>
  Connects to virtual IPs: \<open>vip_in_range\<close>, \<open>vip_addr_in_range\<close>, \<open>vip_redirect\<close> and the cgroup programs
  \<open>vip_connect4/6\<close>, which send a connect to a fake IP to a recorded address of its host and remember the
  host, and \<open>vip_getpeername4/6\<close>, which report the fake IP.

  The reference of the host a socket is attributed to is the history of its connects.
\<close>

section \<open>The code\<close>

definition vip_in_range :: "vip_config_val \<Rightarrow> u32 \<Rightarrow> bool" where
  "vip_in_range c ip4 \<longleftrightarrow> vc_mask4 c \<noteq> 0 \<and> ip4 AND vc_mask4 c = vc_net4 c"

definition vip_addr_in_range :: "vip_config_val \<Rightarrow> bytes \<Rightarrow> bool" where
  "vip_addr_in_range c ip =
     (if vip_addr_v4mapped ip then vip_in_range c (le_word (take 4 (drop 12 ip)))
      else vc_mask4 c \<noteq> 0 \<and> vip_in_prefix6 (vc_net6 c) (vc_mask6 c) ip)"

text \<open>
  The context of a connect or getpeername: addresses as bytes, the port as loaded, the socket type, the
  cookie of the socket and the socket as key of its storage.
\<close>

record sock_addr =
  sa_user_ip4 :: bytes
  sa_user_ip6 :: bytes
  sa_user_port :: u32
  sa_type :: u32
  sa_cookie :: u64
  sa_sk :: "u64 option"

datatype redirect = NOT_FAKE | REFUSED | REDIRECT bytes

definition vip_redirect :: "config \<Rightarrow> kenv \<Rightarrow> sock_addr \<Rightarrow> bytes \<Rightarrow> kmaps \<Rightarrow> redirect \<times> kmaps" where
  "vip_redirect cfg e ctx dst s =
     (if \<not> vip_addr_in_range (vip_config cfg) dst then (NOT_FAKE, s)
      else case (vip_ip_host cfg dst, vip_upstream s dst) of
        (Some ih, Some up) \<Rightarrow>
          (case vip_upstream_pick up (ke_boottime e) (ke_random e) of
             None \<Rightarrow> (REFUSED, dbg_inc DBG_VIP_CONNECT_REFUSED s)
           | Some real \<Rightarrow>
               if vip_addr_v4mapped real \<noteq> vip_addr_v4mapped dst then (REFUSED, dbg_inc DBG_VIP_CONNECT_REFUSED s)
               else let s = s\<lparr>vip_sock_host := (vip_sock_host s)(sa_cookie ctx \<mapsto> vi_host ih)\<rparr>;
                        s = (case sa_sk ctx of None \<Rightarrow> s
                             | Some sk \<Rightarrow> s\<lparr>vip_sock := map_put (ke_room e VIP_SOCK) sk
                                 \<lparr>vs_fake_ip = dst, vs_real_ip = real, vs_port = sa_user_port ctx\<rparr> (vip_sock s)\<rparr>)
                    in (REDIRECT real, dbg_inc DBG_VIP_CONNECT_REDIRECT s))
      | _ \<Rightarrow> (REFUSED, dbg_inc DBG_VIP_CONNECT_REFUSED s))"

definition vip_peer_fake :: "sock_addr \<Rightarrow> bytes \<Rightarrow> kmaps \<Rightarrow> (bytes \<times> u32) option" where
  "vip_peer_fake ctx peer s =
     (case sa_sk ctx of
        None \<Rightarrow> None
      | Some sk \<Rightarrow>
          (case vip_sock s sk of
             None \<Rightarrow> None
           | Some sv \<Rightarrow> if vip_addr_v4mapped (vs_fake_ip sv) \<noteq> vip_addr_v4mapped peer then None
                        else Some (vs_fake_ip sv, vs_port sv)))"

definition vip_forget_host :: "sock_addr \<Rightarrow> kmaps \<Rightarrow> kmaps" where
  "vip_forget_host ctx s =
     (let s = s\<lparr>vip_sock_host := map_del (sa_cookie ctx) (vip_sock_host s)\<rparr> in
      case sa_sk ctx of None \<Rightarrow> s | Some sk \<Rightarrow> s\<lparr>vip_sock := map_del sk (vip_sock s)\<rparr>)"

definition SOCK_STREAM :: u32 where "SOCK_STREAM = 1"

definition vip_record_dst :: "sock_addr \<Rightarrow> bytes \<Rightarrow> kmaps \<Rightarrow> kmaps" where
  "vip_record_dst ctx dst s =
     (if sa_type ctx \<noteq> SOCK_STREAM then s
      else s\<lparr>vip_sock_dst := (vip_sock_dst s)(sa_cookie ctx \<mapsto>
             \<lparr>vd_ip = dst, vd_port = bswap16 (ucast (sa_user_port ctx))\<rparr>)\<rparr>)"

text \<open>Whether the connect may go on (else EPERM), the context and the maps.\<close>

definition vip_connect4 :: "config \<Rightarrow> kenv \<Rightarrow> sock_addr \<Rightarrow> kmaps \<Rightarrow> bool \<times> sock_addr \<times> kmaps" where
  "vip_connect4 cfg e ctx s =
     (let dst = ipv4_to_mapped (sa_user_ip4 ctx) in
      case vip_redirect cfg e ctx dst s of
        (REDIRECT real, s) \<Rightarrow> (True, ctx\<lparr>sa_user_ip4 := take 4 (drop 12 real)\<rparr>, vip_record_dst ctx real s)
      | (NOT_FAKE, s) \<Rightarrow> (True, ctx, vip_record_dst ctx dst (vip_forget_host ctx s))
      | (REFUSED, s) \<Rightarrow> (False, ctx, vip_forget_host ctx s))"

definition vip_connect6 :: "config \<Rightarrow> kenv \<Rightarrow> sock_addr \<Rightarrow> kmaps \<Rightarrow> bool \<times> sock_addr \<times> kmaps" where
  "vip_connect6 cfg e ctx s =
     (let dst = sa_user_ip6 ctx in
      case vip_redirect cfg e ctx dst s of
        (REDIRECT real, s) \<Rightarrow> (True, ctx\<lparr>sa_user_ip6 := real\<rparr>, vip_record_dst ctx real s)
      | (NOT_FAKE, s) \<Rightarrow> (True, ctx, vip_record_dst ctx dst (vip_forget_host ctx s))
      | (REFUSED, s) \<Rightarrow> (False, ctx, vip_forget_host ctx s))"

definition vip_getpeername4 :: "sock_addr \<Rightarrow> kmaps \<Rightarrow> sock_addr" where
  "vip_getpeername4 ctx s =
     (case vip_peer_fake ctx (ipv4_to_mapped (sa_user_ip4 ctx)) s of
        None \<Rightarrow> ctx
      | Some (fake, port) \<Rightarrow> ctx\<lparr>sa_user_port := port, sa_user_ip4 := take 4 (drop 12 fake)\<rparr>)"

definition vip_getpeername6 :: "sock_addr \<Rightarrow> kmaps \<Rightarrow> sock_addr" where
  "vip_getpeername6 ctx s =
     (case vip_peer_fake ctx (sa_user_ip6 ctx) s of
        None \<Rightarrow> ctx
      | Some (fake, port) \<Rightarrow> ctx\<lparr>sa_user_port := port, sa_user_ip6 := fake\<rparr>)"

section \<open>One connect\<close>

text \<open>A connect of either family: its destination, and the context once it is sent elsewhere.\<close>

datatype family = V4 | V6

fun dst_of :: "family \<Rightarrow> sock_addr \<Rightarrow> bytes" where
  "dst_of V4 ctx = ipv4_to_mapped (sa_user_ip4 ctx)"
| "dst_of V6 ctx = sa_user_ip6 ctx"

fun set_dst :: "family \<Rightarrow> bytes \<Rightarrow> sock_addr \<Rightarrow> sock_addr" where
  "set_dst V4 real ctx = ctx\<lparr>sa_user_ip4 := take 4 (drop 12 real)\<rparr>"
| "set_dst V6 real ctx = ctx\<lparr>sa_user_ip6 := real\<rparr>"

fun vip_connect :: "family \<Rightarrow> config \<Rightarrow> kenv \<Rightarrow> sock_addr \<Rightarrow> kmaps \<Rightarrow> bool \<times> sock_addr \<times> kmaps" where
  "vip_connect V4 = vip_connect4"
| "vip_connect V6 = vip_connect6"

fun vip_getpeername :: "family \<Rightarrow> sock_addr \<Rightarrow> kmaps \<Rightarrow> sock_addr" where
  "vip_getpeername V4 = vip_getpeername4"
| "vip_getpeername V6 = vip_getpeername6"

text \<open>Where a connect to a fake IP is sent, and the host it is attributed to.\<close>

definition vip_target :: "config \<Rightarrow> kenv \<Rightarrow> bytes \<Rightarrow> kmaps \<Rightarrow> (bytes \<times> bytes) option" where
  "vip_target cfg e dst s =
     (case (vip_ip_host cfg dst, vip_upstream s dst) of
        (Some ih, Some up) \<Rightarrow>
          (case vip_upstream_pick up (ke_boottime e) (ke_random e) of
             None \<Rightarrow> None
           | Some real \<Rightarrow> if vip_addr_v4mapped real = vip_addr_v4mapped dst then Some (real, vi_host ih) else None)
      | _ \<Rightarrow> None)"

lemma vip_connect_unfold:
  "vip_connect f cfg e ctx s =
     (case vip_redirect cfg e ctx (dst_of f ctx) s of
        (REDIRECT real, s) \<Rightarrow> (True, set_dst f real ctx, vip_record_dst ctx real s)
      | (NOT_FAKE, s) \<Rightarrow> (True, ctx, vip_record_dst ctx (dst_of f ctx) (vip_forget_host ctx s))
      | (REFUSED, s) \<Rightarrow> (False, ctx, vip_forget_host ctx s))"
  by (cases f; simp add: vip_connect4_def vip_connect6_def Let_def split: prod.split redirect.split)

lemma vip_forget_fields [simp]:
  "vip_sock_host (vip_forget_host ctx s) = map_del (sa_cookie ctx) (vip_sock_host s)"
  "vip_sock_dst (vip_forget_host ctx s) = vip_sock_dst s" "vip_upstream (vip_forget_host ctx s) = vip_upstream s"
  by (simp_all add: vip_forget_host_def Let_def split: option.splits)

lemma vip_record_dst_fields [simp]:
  "vip_sock_host (vip_record_dst ctx d s) = vip_sock_host s" "vip_sock (vip_record_dst ctx d s) = vip_sock s"
  "vip_upstream (vip_record_dst ctx d s) = vip_upstream s"
  by (simp_all add: vip_record_dst_def)

lemma vip_redirect_cases:
  "vip_redirect cfg e ctx dst s =
     (if \<not> vip_addr_in_range (vip_config cfg) dst then (NOT_FAKE, s)
      else case vip_target cfg e dst s of
        None \<Rightarrow> (REFUSED, dbg_inc DBG_VIP_CONNECT_REFUSED s)
      | Some (real, host) \<Rightarrow> (REDIRECT real, dbg_inc DBG_VIP_CONNECT_REDIRECT (s\<lparr>
          vip_sock_host := (vip_sock_host s)(sa_cookie ctx \<mapsto> host),
          vip_sock := (case sa_sk ctx of None \<Rightarrow> vip_sock s
            | Some sk \<Rightarrow> map_put (ke_room e VIP_SOCK) sk
                \<lparr>vs_fake_ip = dst, vs_real_ip = real, vs_port = sa_user_port ctx\<rparr> (vip_sock s))\<rparr>)))"
  by (simp add: vip_redirect_def vip_target_def Let_def split: option.split)

lemma vip_connect_host:
  assumes "vip_connect f cfg e ctx s = (ok, ctx', s')"
  shows "vip_sock_host s' = (if vip_addr_in_range (vip_config cfg) (dst_of f ctx)
      then case vip_target cfg e (dst_of f ctx) s of None \<Rightarrow> map_del (sa_cookie ctx) (vip_sock_host s)
        | Some (real, host) \<Rightarrow> (vip_sock_host s)(sa_cookie ctx \<mapsto> host)
      else map_del (sa_cookie ctx) (vip_sock_host s))"
    "vip_upstream s' = vip_upstream s"
  using assms by (auto simp: vip_connect_unfold vip_redirect_cases split: if_splits option.splits)

section \<open>The history of a socket\<close>

text \<open>
  What happens to the maps: connects of any socket (with the configuration at that time), closes of
  sockets (as \<open>tp_inet_sock_set_state\<close> leaves \<open>vip_sock_host\<close>), and changes of the recorded addresses by
  DNS answers and the control plane.
\<close>

datatype vip_event = Connect family config kenv sock_addr | Close u64 | Upstream "bytes \<rightharpoonup> vip_upstream_val"

fun vip_run :: "vip_event \<Rightarrow> kmaps \<Rightarrow> kmaps" where
  "vip_run (Connect f cfg e ctx) s = snd (snd (vip_connect f cfg e ctx s))"
| "vip_run (Close cookie) s = s\<lparr>vip_sock_host := map_del cookie (vip_sock_host s), vip_sock_dst := map_del cookie (vip_sock_dst s)\<rparr>"
| "vip_run (Upstream up) s = s\<lparr>vip_upstream := up\<rparr>"

fun connects :: "u64 \<Rightarrow> vip_event \<Rightarrow> bool" where
  "connects c (Connect f cfg e ctx) = (sa_cookie ctx = c)"
| "connects c (Close cookie) = (cookie = c)"
| "connects c (Upstream up) = False"

lemma vip_run_other: "\<not> connects c ev \<Longrightarrow> vip_sock_host (vip_run ev s) c = vip_sock_host s c"
proof (cases ev)
  case (Connect f cfg e ctx)
  obtain ok ctx' s' where "vip_connect f cfg e ctx s = (ok, ctx', s')" by (metis prod.collapse)
  then show "\<not> connects c ev \<Longrightarrow> ?thesis"
    using vip_connect_host(1) [of f cfg e ctx s ok ctx' s'] Connect by (auto split: option.splits)
qed simp_all

text \<open>The host a socket is attributed to comes from its last connect.\<close>

lemma sock_host_from_last:
  assumes "vip_sock_host s0 c = None" "vip_sock_host (fold vip_run evs s0) c = Some h"
  shows "\<exists>before f cfg e ctx later real. evs = before @ Connect f cfg e ctx # later \<and> sa_cookie ctx = c
    \<and> (\<forall>ev \<in> set later. \<not> connects c ev) \<and> vip_addr_in_range (vip_config cfg) (dst_of f ctx)
    \<and> vip_target cfg e (dst_of f ctx) (fold vip_run before s0) = Some (real, h)"
proof -
  have "vip_sock_host (fold vip_run evs s0) c \<noteq> vip_sock_host s0 c" using assms by simp
  with last_touch [of "connects c" "\<lambda>s. vip_sock_host s c" vip_run evs s0, OF vip_run_other]
  obtain before ev later where b: "evs = before @ ev # later" "connects c ev" "\<forall>x \<in> set later. \<not> connects c x"
      "vip_sock_host (vip_run ev (fold vip_run before s0)) c = Some h"
    using assms(2) by auto
  let ?s = "fold vip_run before s0"
  obtain f cfg e ctx where ev: "ev = Connect f cfg e ctx" "sa_cookie ctx = c" using b(2,4) by (cases ev) auto
  obtain ok ctx' s' where "vip_connect f cfg e ctx ?s = (ok, ctx', s')" by (metis prod.collapse)
  then obtain real where "vip_addr_in_range (vip_config cfg) (dst_of f ctx)" "vip_target cfg e (dst_of f ctx) ?s = Some (real, h)"
    using vip_connect_host(1) [of f cfg e ctx ?s ok ctx' s'] b(4) ev by (auto split: if_splits option.splits)
  then show ?thesis using b(1,3) ev by blast
qed

section \<open>Properties\<close>

text \<open>
  C9: a connect outside the virtual IP range goes where it was going and forgets the socket's host; one
  to a fake IP with a host and a usable recorded address of the same family goes to that address and
  attributes the socket to the host; every other one is refused. TCP connects that go on record their
  destination and port.
\<close>

theorem vip_connect_exact:
  fixes f :: family and cfg :: config and e :: kenv and ctx :: sock_addr and s :: kmaps
  defines "dst \<equiv> dst_of f ctx" and "c \<equiv> sa_cookie ctx" and "port \<equiv> bswap16 (ucast (sa_user_port ctx))"
  shows "(\<not> vip_addr_in_range (vip_config cfg) dst \<longrightarrow> (\<exists>s'. vip_connect f cfg e ctx s = (True, ctx, s')
        \<and> vip_sock_host s' c = None \<and> (sa_type ctx = SOCK_STREAM \<longrightarrow> vip_sock_dst s' c = Some \<lparr>vd_ip = dst, vd_port = port\<rparr>)))
    \<and> (vip_addr_in_range (vip_config cfg) dst \<and> vip_target cfg e dst s = None \<longrightarrow>
        (\<exists>s'. vip_connect f cfg e ctx s = (False, ctx, s') \<and> vip_sock_host s' c = None))
    \<and> (\<forall>real host. vip_addr_in_range (vip_config cfg) dst \<and> vip_target cfg e dst s = Some (real, host) \<longrightarrow>
        (\<exists>s'. vip_connect f cfg e ctx s = (True, set_dst f real ctx, s') \<and> vip_sock_host s' c = Some host
          \<and> (sa_type ctx = SOCK_STREAM \<longrightarrow> vip_sock_dst s' c = Some \<lparr>vd_ip = real, vd_port = port\<rparr>)))"
  by (simp add: vip_connect_unfold vip_redirect_cases dst_def c_def port_def vip_record_dst_def)

text \<open>
  A socket is attributed to a host only by its last connect, which went to a fake IP of that host,
  was sent to an address recorded for it then, and was not followed by a close; any interleaving of
  connects of other sockets, closes and DNS answers leaves the attribution alone.
\<close>

theorem sock_host_last_connect:
  assumes "vip_sock_host s0 c = None" "vip_sock_host (fold vip_run evs s0) c = Some h"
  shows "\<exists>before f cfg e ctx later real. evs = before @ Connect f cfg e ctx # later \<and> sa_cookie ctx = c
    \<and> (\<forall>ev \<in> set later. \<not> connects c ev) \<and> vip_addr_in_range (vip_config cfg) (dst_of f ctx)
    \<and> vip_target cfg e (dst_of f ctx) (fold vip_run before s0) = Some (real, h)"
  using sock_host_from_last [OF assms] .

text \<open>
  C40: after a redirected connect \<open>getpeername\<close> reports the fake IP and the port the app connected to,
  whatever address of the same family the kernel has for the peer; after another connect it reports the
  kernel's.
\<close>

theorem getpeername_reports_fake:
  assumes "sa_sk ctx = Some k" "sa_sk peer = Some k" "ke_room e VIP_SOCK" "length (sa_user_ip4 ctx) = 4"
    and "vip_addr_v4mapped (dst_of f peer) = vip_addr_v4mapped (dst_of f ctx)"
    and "vip_connect f cfg e ctx s = (True, ctx', s')"
  shows "vip_getpeername f peer s' = (if vip_addr_in_range (vip_config cfg) (dst_of f ctx)
    then set_dst f (dst_of f ctx) (peer\<lparr>sa_user_port := sa_user_port ctx\<rparr>) else peer)"
proof -
  have p: "vip_peer_fake peer (dst_of f peer) s' = (if vip_addr_in_range (vip_config cfg) (dst_of f ctx)
      then Some (dst_of f ctx, sa_user_port ctx) else None)"
  proof (cases "vip_addr_in_range (vip_config cfg) (dst_of f ctx)")
    case True
    then obtain real host where "vip_target cfg e (dst_of f ctx) s = Some (real, host)"
        "s' = vip_record_dst ctx real (dbg_inc DBG_VIP_CONNECT_REDIRECT (s\<lparr>vip_sock_host := (vip_sock_host s)(sa_cookie ctx \<mapsto> host),
           vip_sock := map_put (ke_room e VIP_SOCK) k
             \<lparr>vs_fake_ip = dst_of f ctx, vs_real_ip = real, vs_port = sa_user_port ctx\<rparr> (vip_sock s)\<rparr>))"
      using assms(1,6) by (auto simp: vip_connect_unfold vip_redirect_cases split: option.splits)
    then show ?thesis using True assms(2,3,5) by (simp add: vip_peer_fake_def map_put_def)
  next
    case False
    then have "vip_sock s' k = None"
      using assms(1,6) by (auto simp: vip_connect_unfold vip_redirect_cases vip_forget_host_def)
    then show ?thesis using False assms(2) by (simp add: vip_peer_fake_def)
  qed
  show ?thesis
    using p by (cases f) (auto simp: vip_getpeername4_def vip_getpeername6_def)
qed

section \<open>A concrete connect\<close>

text \<open>The range 198.18.0.0/15, the fake IP 198.18.0.5 of \<open>ab\<close>, its address 1.2.3.4.\<close>

definition fake_ip :: bytes where "fake_ip = ipv4_to_mapped [198, 18, 0, 5]"

definition example_vip :: vip_config_val where
  "example_vip = \<lparr>vc_net4 = le_word [198, 18, 0, 0], vc_mask4 = le_word [255, 254, 0, 0], vc_net6 = replicate 16 0,
     vc_mask6 = replicate 16 0\<rparr>"

definition example_upstream :: vip_upstream_val where
  "example_upstream = vip_upstream_record no_upstreams (ipv4_to_mapped [1, 2, 3, 4]) 100"

definition vip_cfg :: config where
  "vip_cfg = \<lparr>secret_map = \<lambda>_. None, secret_acl = \<lambda>_. None, secret_binding_mode = 0, sni_check_mode = 0,
     tls_offset_config = \<lambda>_. None, go_tls_offset_config = \<lambda>_. None, tls_strategy = \<lambda>_. None,
     trusted_dns_servers = \<lambda>_. None, dns_whitelist_enabled = 0, vip_config = example_vip,
     vip_host_ip = [pad_host [97, 98] \<mapsto> \<lparr>vh_ip4 = [198, 18, 0, 5], vh_ip6 = replicate 16 0\<rparr>],
     vip_ip_host = [fake_ip \<mapsto> \<lparr>vi_host = pad_host [97, 98], vi_host_len = 2, vi_flags = 0, vi_retired_at = 0\<rparr>],
     vip_pod_host = [\<lparr>pod_ip = ipv4_to_mapped [10, 0, 0, 9], pod_host = pad_host [97, 98]\<rparr> \<mapsto> 1]\<rparr>"

definition vip_kmaps :: kmaps where
  "vip_kmaps = example_kmaps\<lparr>vip_upstream := [fake_ip \<mapsto> example_upstream]\<rparr>"

definition vip_ctx :: sock_addr where
  "vip_ctx = \<lparr>sa_user_ip4 = [198, 18, 0, 5], sa_user_ip6 = replicate 16 0, sa_user_port = 0xBB01, sa_type = SOCK_STREAM,
     sa_cookie = 9, sa_sk = Some 77\<rparr>"

lemma example_in_range: "vip_addr_in_range example_vip fake_ip"
  by code_simp

lemma example_pick: "vip_upstream_pick example_upstream 0 0 = Some (ipv4_to_mapped [1, 2, 3, 4])"
    "vip_addr_v4mapped (ipv4_to_mapped [1, 2, 3, 4]) = vip_addr_v4mapped fake_ip"
  by code_simp+

lemma example_target:
  "vip_addr_in_range (vip_config vip_cfg) (dst_of V4 vip_ctx)"
  "vip_target vip_cfg (example_env m) (dst_of V4 vip_ctx) vip_kmaps = Some (ipv4_to_mapped [1, 2, 3, 4], pad_host [97, 98])"
proof -
  have d: "dst_of V4 vip_ctx = fake_ip" by (simp add: vip_ctx_def fake_ip_def)
  show "vip_addr_in_range (vip_config vip_cfg) (dst_of V4 vip_ctx)" unfolding d using example_in_range by (simp add: vip_cfg_def)
  show "vip_target vip_cfg (example_env m) (dst_of V4 vip_ctx) vip_kmaps = Some (ipv4_to_mapped [1, 2, 3, 4], pad_host [97, 98])"
    unfolding d using example_pick by (simp add: vip_target_def vip_cfg_def vip_kmaps_def)
qed

theorem vip_connect_exact_witness:
  "\<exists>s'. vip_connect V4 vip_cfg (example_env (\<lambda>_. None)) vip_ctx vip_kmaps
      = (True, vip_ctx\<lparr>sa_user_ip4 := [1, 2, 3, 4]\<rparr>, s') \<and> vip_sock_host s' 9 = Some (pad_host [97, 98])
    \<and> vip_sock_dst s' 9 = Some \<lparr>vd_ip = ipv4_to_mapped [1, 2, 3, 4], vd_port = 443\<rparr>"
proof -
  have p: "bswap16 (ucast (sa_user_port vip_ctx)) = 443" by code_simp
  have c: "sa_cookie vip_ctx = 9" "sa_type vip_ctx = SOCK_STREAM" by (simp_all add: vip_ctx_def)
  have r: "set_dst V4 (ipv4_to_mapped [1, 2, 3, 4]) vip_ctx = vip_ctx\<lparr>sa_user_ip4 := [1, 2, 3, 4]\<rparr>"
    by (simp add: ipv4_to_mapped_def)
  show ?thesis
    using vip_connect_exact [of vip_cfg V4 vip_ctx "example_env (\<lambda>_. None)" vip_kmaps] example_target(1) example_target(2) [of "\<lambda>_. None"] p r
    by (simp del: dst_of.simps set_dst.simps vip_connect.simps add: c)
qed

theorem sock_host_last_connect_witness:
  "vip_sock_host (fold vip_run [Connect V4 vip_cfg (example_env (\<lambda>_. None)) vip_ctx, Close 4] vip_kmaps) 9 = Some (pad_host [97, 98])
    \<and> (\<exists>real. vip_target vip_cfg (example_env (\<lambda>_. None)) (dst_of V4 vip_ctx) vip_kmaps = Some (real, pad_host [97, 98]))"
proof -
  let ?evs = "[Connect V4 vip_cfg (example_env (\<lambda>_. None)) vip_ctx, Close 4]"
  obtain s' where s': "vip_connect V4 vip_cfg (example_env (\<lambda>_. None)) vip_ctx vip_kmaps
      = (True, set_dst V4 (ipv4_to_mapped [1, 2, 3, 4]) vip_ctx, s')" "vip_sock_host s' 9 = Some (pad_host [97, 98])"
    using example_target(1) example_target(2) [of "\<lambda>_. None"] unfolding vip_connect_unfold vip_redirect_cases
    by (simp del: dst_of.simps set_dst.simps) (simp add: vip_ctx_def)
  have h: "vip_sock_host (fold vip_run ?evs vip_kmaps) 9 = Some (pad_host [97, 98])"
    using s' by simp
  have n: "vip_sock_host vip_kmaps 9 = None" by (simp add: vip_kmaps_def example_kmaps_def)
  obtain before f cfg e ctx later real where b: "?evs = before @ Connect f cfg e ctx # later"
      "vip_target cfg e (dst_of f ctx) (fold vip_run before vip_kmaps) = Some (real, pad_host [97, 98])"
    using sock_host_last_connect [OF n h] by blast
  then have "before = []" "Connect f cfg e ctx = Connect V4 vip_cfg (example_env (\<lambda>_. None)) vip_ctx"
    by (cases before; auto simp: Cons_eq_append_conv append_eq_Cons_conv)+
  then show ?thesis using b(2) h by auto
qed

theorem getpeername_reports_fake_witness:
  "\<exists>s'. vip_getpeername V4 (vip_ctx\<lparr>sa_user_ip4 := [1, 2, 3, 4], sa_user_port := 7\<rparr>) s' = vip_ctx"
proof -
  obtain s' where s': "vip_connect V4 vip_cfg (example_env (\<lambda>_. None)) vip_ctx vip_kmaps
      = (True, set_dst V4 (ipv4_to_mapped [1, 2, 3, 4]) vip_ctx, s')"
    using example_target(1) example_target(2) [of "\<lambda>_. None"] unfolding vip_connect_unfold vip_redirect_cases
    by (simp del: dst_of.simps set_dst.simps)
  let ?peer = "vip_ctx\<lparr>sa_user_ip4 := [1, 2, 3, 4], sa_user_port := 7\<rparr>"
  have v: "vip_addr_v4mapped (dst_of V4 ?peer) = vip_addr_v4mapped (dst_of V4 vip_ctx)"
    using example_pick(2) by (simp add: vip_ctx_def fake_ip_def)
  have k: "sa_sk vip_ctx = Some 77" "sa_sk ?peer = Some 77" "length (sa_user_ip4 vip_ctx) = 4" by (simp_all add: vip_ctx_def)
  have "vip_getpeername V4 ?peer s' = set_dst V4 (dst_of V4 vip_ctx) (?peer\<lparr>sa_user_port := sa_user_port vip_ctx\<rparr>)"
    using getpeername_reports_fake [OF k(1,2) _ k(3) v s'] example_target(1) by simp
  then show ?thesis by (intro exI [of _ s']) (simp add: vip_ctx_def ipv4_to_mapped_def)
qed

end
