(* ===== verification/Dns_Rewrite.thy ===== *)
theory Dns_Rewrite
  imports Vip_Connect Dns_Parse
begin

text \<open>
  \<open>tc_dns_rewrite\<close>: the answers of trusted resolvers for watched hosts get the host's fake IP in place of
  its addresses, and the addresses are recorded for the connects; with \<open>dns_server_trusted\<close>,
  \<open>vip_record_addr\<close>, \<open>vip_rewrite_addr\<close> and the \<open>bpf_loop\<close> callbacks.

  The checksum update of \<open>bpf_l4_csum_replace\<close> is kernel code: it is the parameter \<open>csum\<close>, of which the
  properties assume what it documents, the incremental update in one's complement arithmetic.
\<close>

section \<open>The code: the packet\<close>

definition dns_server_trusted :: "config \<Rightarrow> bytes \<Rightarrow> bool" where
  "dns_server_trusted cfg ip \<longleftrightarrow> dns_whitelist_enabled cfg \<noteq> 1 \<or> trusted_dns_servers cfg ip \<noteq> None"

text \<open>Checked stores: whether \<open>bpf_skb_store_bytes\<close> succeeds, and the update of a checksum field, with
  \<open>BPF_F_MARK_MANGLED_0\<close>: a zero checksum stays, and a result of zero is stored as 0xffff.\<close>

definition skb_can_store :: "sk_buff \<Rightarrow> u32 \<Rightarrow> nat \<Rightarrow> bool" where
  "skb_can_store skb off n \<longleftrightarrow> \<not> (off > 0x7fffffff \<or> unat off + n > length (skb_data skb) \<or> \<not> skb_writable skb)"

type_synonym csum_fun = "u16 \<Rightarrow> u32 \<Rightarrow> u32 \<Rightarrow> u16"

definition l4_csum_replace :: "csum_fun \<Rightarrow> u32 \<Rightarrow> u32 \<Rightarrow> u32 \<Rightarrow> sk_buff \<Rightarrow> bool \<times> sk_buff" where
  "l4_csum_replace csum off from to skb =
     (if \<not> skb_can_store skb off 2 then (False, skb)
      else let c = le_word (bytes_at (skb_data skb) (unat off) 2) in
        if c = 0 then (True, skb)
        else let r = csum c from to in
          (True, skb_store_bytes off (rev (be_bytes 2 (if r = 0 then 0xFFFF else r))) skb))"

fun rewrite_csum :: "csum_fun \<Rightarrow> u32 \<Rightarrow> bool \<Rightarrow> bytes \<Rightarrow> bytes \<Rightarrow> nat \<Rightarrow> nat \<Rightarrow> sk_buff \<Rightarrow> bool \<times> sk_buff" where
  "rewrite_csum csum off swap from to 0 k skb = (True, skb)"
| "rewrite_csum csum off swap from to (Suc n) k skb =
     (let f = le_word (bytes_at from (4 * k) 4); t = le_word (bytes_at to (4 * k) 4);
          (ok, skb) = l4_csum_replace csum off (if swap then csum_odd_bytes f else f) (if swap then csum_odd_bytes t else t) skb
      in if ok then rewrite_csum csum off swap from to n (Suc k) skb else (False, skb))"

definition vip_rewrite_addr ::
  "csum_fun \<Rightarrow> u32 \<Rightarrow> u32 \<Rightarrow> bool \<Rightarrow> bool \<Rightarrow> bytes \<Rightarrow> bytes \<Rightarrow> bool \<Rightarrow> sk_buff \<Rightarrow> bool \<times> sk_buff" where
  "vip_rewrite_addr csum at csum_off swap has_csum from to six skb =
     (let n = (if six then 16 else 4) in
      if \<not> skb_can_store skb at n then (False, skb)
      else let skb = skb_store_bytes at (take n to) skb in
        if \<not> has_csum then (True, skb)
        else rewrite_csum csum csum_off swap from to (if six then 4 else 1) 0 skb)"

definition vip_record_addr :: "dns_addr_record \<Rightarrow> bool \<Rightarrow> bytes" where
  "vip_record_addr r six = (if six then dr_ip r else ipv4_to_mapped (dr_ip r))"

section \<open>The code: the headers\<close>

text \<open>The resolver, the pod and the offset of the UDP header.\<close>

definition dns_ip_header :: "sk_buff \<Rightarrow> (bytes \<times> bytes \<times> nat) option" where
  "dns_ip_header skb =
     (let l3_proto = skb_protocol skb in
      if l3_proto \<noteq> bswap16 0x0800 \<and> l3_proto \<noteq> bswap16 0x86DD then None
      else let l3_off = (case skb_load_bytes skb 12 2 of
                           Some h_proto \<Rightarrow> if le_word h_proto = l3_proto then 14 else 0
                         | None \<Rightarrow> 0)
      in if l3_proto = bswap16 0x0800 then
           (case skb_load_bytes skb (of_nat l3_off) 20 of
              None \<Rightarrow> None
            | Some ip \<Rightarrow>
                if drop_bit 4 (ip ! 0) \<noteq> 4 \<or> ip ! 9 \<noteq> 17 then None
                else if le_word (bytes_at ip 6 2) AND bswap16 0x3FFF \<noteq> (0 :: u16) then None
                else let ihl = unat (ip ! 0 AND 0x0F) * 4 in
                  if ihl < 20 then None
                  else Some (ipv4_to_mapped (bytes_at ip 12 4), ipv4_to_mapped (bytes_at ip 16 4), l3_off + ihl))
         else
           (case skb_load_bytes skb (of_nat l3_off) 40 of
              None \<Rightarrow> None
            | Some ip6 \<Rightarrow>
                if drop_bit 4 (ip6 ! 0) \<noteq> 6 \<or> ip6 ! 6 \<noteq> 17 then None
                else Some (bytes_at ip6 8 16, bytes_at ip6 24 16, l3_off + 40)))"

section \<open>The code: the message\<close>

text \<open>The walks, driven by \<open>bpf_loop\<close>.\<close>

definition dns_question_cb :: "bytes \<Rightarrow> nat \<Rightarrow> dns_question \<Rightarrow> bool \<times> dns_question" where
  "dns_question_cb msg idx q = dns_question_step q msg"

definition dns_answers_cb :: "bytes \<Rightarrow> nat \<Rightarrow> dns_answers \<Rightarrow> bool \<times> dns_answers" where
  "dns_answers_cb msg idx a = dns_answers_step a msg"

definition dns_walk_question :: "bytes \<Rightarrow> nat \<Rightarrow> dns_scan \<times> dns_question" where
  "dns_walk_question msg msg_len =
     (let q = dns_question_begin zero_question msg msg_len;
          q = (if dq_status q = DNS_SCAN_RUNNING then bpf_loop DNS_QNAME_STEPS (dns_question_cb msg) q else q)
      in dns_question_end q)"

definition dns_walk_answers :: "bytes \<Rightarrow> nat \<Rightarrow> nat \<Rightarrow> nat \<Rightarrow> nat \<Rightarrow> dns_scan \<times> dns_answers" where
  "dns_walk_answers msg msg_len off ancount qtype =
     dns_answers_end (bpf_loop DNS_SCAN_STEPS (dns_answers_cb msg) (dns_answers_begin zero_answers msg_len off ancount qtype))"

text \<open>What the program decides about a packet: pass it, pass it and count why, or rewrite records.\<close>

record rewrite =
  rw_l4_off :: nat
  rw_has_csum :: bool
  rw_six :: bool
  rw_fake :: bytes
  rw_recs :: "dns_addr_record list"

datatype dns_plan = PLAN_PASS | PLAN_UNBOUND | PLAN_UNCHANGED | PLAN_REWRITE rewrite

text \<open>From the question on.\<close>

definition dns_plan_answer :: "config \<Rightarrow> bytes \<Rightarrow> nat \<Rightarrow> bool \<Rightarrow> bytes \<Rightarrow> nat \<Rightarrow> dns_plan" where
  "dns_plan_answer cfg pod l4_off has_csum msg msg_len =
     (let (st, q) = dns_walk_question msg msg_len; six = (dq_qtype q = DNS_TYPE_AAAA) in
      if st \<noteq> DNS_SCAN_OK then PLAN_PASS
      else if \<not> six \<and> dq_qtype q \<noteq> DNS_TYPE_A then PLAN_PASS
      else case vip_host_ip cfg (dq_qname q) of
        None \<Rightarrow> PLAN_PASS
      | Some hv \<Rightarrow>
          let fk = (if six then vh_ip6 hv else ipv4_to_mapped (vh_ip4 hv)) in
          if \<not> vip_addr_in_range (vip_config cfg) fk then PLAN_PASS
          else if vip_pod_host cfg \<lparr>pod_ip = pod, pod_host = dq_qname q\<rparr> = None
               \<and> vip_pod_host cfg \<lparr>pod_ip = pod, pod_host = replicate MAX_HOST_LEN 0\<rparr> = None then PLAN_UNBOUND
          else let (st, a) = dns_walk_answers msg msg_len (dq_answers_off q) (dq_ancount q) (dq_qtype q) in
            if st \<noteq> DNS_SCAN_OK then PLAN_UNCHANGED
            else if da_n_recs a = 0 then PLAN_PASS
            else PLAN_REWRITE \<lparr>rw_l4_off = l4_off, rw_has_csum = has_csum, rw_six = six, rw_fake = fk,
                   rw_recs = take (min (da_n_recs a) DNS_MAX_ADDR_RECORDS) (da_recs a)\<rparr>)"

text \<open>\<open>buf\<close> is what the message buffer held before.\<close>

definition dns_plan_packet :: "config \<Rightarrow> bytes \<Rightarrow> sk_buff \<Rightarrow> dns_plan" where
  "dns_plan_packet cfg buf skb =
     (if vc_mask4 (vip_config cfg) = 0 then PLAN_PASS
      else case dns_ip_header skb of
        None \<Rightarrow> PLAN_PASS
      | Some (src, pod, l4_off) \<Rightarrow>
          (case skb_load_bytes skb (of_nat l4_off) 8 of
             None \<Rightarrow> PLAN_PASS
           | Some udp \<Rightarrow>
               if le_word (bytes_at udp 0 2) \<noteq> bswap16 53 then PLAN_PASS
               else if \<not> dns_server_trusted cfg src then PLAN_PASS
               else let udp_len = unat (bswap16 (le_word (bytes_at udp 4 2))) in
                 if udp_len < 8 + 12 then PLAN_PASS
                 else if udp_len > 8 + MAX_DNS_PKT then PLAN_PASS
                 else let msg_len = udp_len - 8 in
                   (case skb_load_bytes skb (of_nat (l4_off + 8)) msg_len of
                      None \<Rightarrow> PLAN_PASS
                    | Some m \<Rightarrow> dns_plan_answer cfg pod l4_off (le_word (bytes_at udp 6 2) \<noteq> (0 :: u16))
                        (put_at 0 m buf) msg_len)))"

section \<open>The code: the rewrite\<close>

text \<open>The first loop: the table with the real addresses, and whether there was one.\<close>

definition dns_record_addrs :: "vip_config_val \<Rightarrow> u64 \<Rightarrow> bool \<Rightarrow> dns_addr_record list \<Rightarrow> vip_upstream_val \<Rightarrow> vip_upstream_val \<times> bool" where
  "dns_record_addrs vc now six recs up =
     fold (\<lambda>r (up, recorded).
       let real = vip_record_addr r six in
       if vip_addr_in_range vc real then (up, recorded)
       else let ttl = (if dr_ttl r > 0x7FFFFFFF then 0 else dr_ttl r)
            in (vip_upstream_record up real (now + of_nat ttl * 1000000000), True)) recs (up, False)"

text \<open>The second loop, up to the first write that fails.\<close>

fun dns_rewrite_recs :: "csum_fun \<Rightarrow> vip_config_val \<Rightarrow> rewrite \<Rightarrow> dns_addr_record list \<Rightarrow> sk_buff \<Rightarrow> bool \<times> sk_buff" where
  "dns_rewrite_recs csum vc rw [] skb = (True, skb)"
| "dns_rewrite_recs csum vc rw (r # rs) skb =
     (if vip_addr_in_range vc (vip_record_addr r (rw_six rw)) then dns_rewrite_recs csum vc rw rs skb
      else let rdata = (if rw_six rw then rw_fake rw else drop 12 (rw_fake rw));
               (ok, skb) = vip_rewrite_addr csum (of_nat (rw_l4_off rw + 8 + dr_off r)) (of_nat (rw_l4_off rw + 6))
                 (odd (dr_off r)) (rw_has_csum rw) (dr_ip r) rdata (rw_six rw) skb
           in if ok then dns_rewrite_recs csum vc rw rs skb else (False, skb))"

datatype verdict = TC_PASS | TC_ACT_SHOT

definition dns_rewrite_answer :: "csum_fun \<Rightarrow> config \<Rightarrow> kenv \<Rightarrow> rewrite \<Rightarrow> sk_buff \<Rightarrow> kmaps \<Rightarrow> verdict \<times> sk_buff \<times> kmaps" where
  "dns_rewrite_answer csum cfg e rw skb s =
     (let up0 = (case vip_upstream s (rw_fake rw) of None \<Rightarrow> no_upstreams | Some up \<Rightarrow> up);
          (up, recorded) = dns_record_addrs (vip_config cfg) (ke_boottime e) (rw_six rw) (rw_recs rw) up0
      in if \<not> recorded then (TC_PASS, skb, s)
         else if \<not> ke_room e VIP_UPSTREAM \<and> vip_upstream s (rw_fake rw) = None then (TC_PASS, skb, s)
         else let s = s\<lparr>vip_upstream := map_put (ke_room e VIP_UPSTREAM) (rw_fake rw) up (vip_upstream s)\<rparr>;
                  (ok, skb) = dns_rewrite_recs csum (vip_config cfg) rw (rw_recs rw) skb
           in if ok then (TC_PASS, skb, dbg_inc DBG_VIP_DNS_REWRITTEN s) else (TC_ACT_SHOT, skb, s))"

definition tc_dns_rewrite :: "csum_fun \<Rightarrow> config \<Rightarrow> kenv \<Rightarrow> bytes \<Rightarrow> sk_buff \<Rightarrow> kmaps \<Rightarrow> verdict \<times> sk_buff \<times> kmaps" where
  "tc_dns_rewrite csum cfg e buf skb s =
     (case dns_plan_packet cfg buf skb of
        PLAN_PASS \<Rightarrow> (TC_PASS, skb, s)
      | PLAN_UNBOUND \<Rightarrow> (TC_PASS, skb, dbg_inc DBG_VIP_DNS_UNBOUND s)
      | PLAN_UNCHANGED \<Rightarrow> (TC_PASS, skb, dbg_inc DBG_VIP_DNS_UNCHANGED s)
      | PLAN_REWRITE rw \<Rightarrow> dns_rewrite_answer csum cfg e rw skb s)"

section \<open>The walks are those of the message parser\<close>

lemma bpf_loop_question: "bpf_loop_from n i (dns_question_cb msg) q = dns_question_loop n q msg"
  by (induction n arbitrary: i q) (simp_all add: dns_question_cb_def split: prod.split)

lemma bpf_loop_answers: "bpf_loop_from n i (dns_answers_cb msg) a = dns_answers_loop n a msg"
  by (induction n arbitrary: i a) (simp_all add: dns_answers_cb_def split: prod.split)

lemma question_loop_stopped: "dq_status q \<noteq> DNS_SCAN_RUNNING \<Longrightarrow> dns_question_loop n q msg = q"
  by (cases n) (simp_all add: dns_question_step_def)

lemma dns_walk_question_parse: "dns_walk_question msg len = dns_parse_question msg len zero_question"
  by (auto simp: dns_walk_question_def dns_parse_question_def Let_def bpf_loop_def bpf_loop_question question_loop_stopped
      BPF_MAX_LOOPS_def DNS_QNAME_STEPS_def MAX_HOST_LEN_def)

lemma dns_walk_answers_scan: "dns_walk_answers msg len off an ty = dns_scan_addr_records msg len off an ty zero_answers"
  by (simp add: dns_walk_answers_def dns_scan_addr_records_def bpf_loop_def bpf_loop_answers BPF_MAX_LOOPS_def DNS_SCAN_STEPS_def)

section \<open>The sum of a datagram\<close>

text \<open>The sum of the bytes as 16-bit numbers; \<open>p\<close> is the offset of the first byte.\<close>

fun wsum :: "nat \<Rightarrow> bytes \<Rightarrow> nat" where
  "wsum p [] = 0"
| "wsum p (b # bs) = (if even p then 1 else 256) * unat b + wsum (Suc p) bs"

text \<open>What \<open>bpf_l4_csum_replace\<close> documents: the field moves by the opposite of the change of the data.\<close>

definition csum_ok :: "csum_fun \<Rightarrow> bool" where
  "csum_ok csum \<longleftrightarrow> (\<forall>c f t. (unat (csum c f t) + unat t) mod 65535 = (unat c + unat f) mod 65535)"

lemma wsum_append: "wsum p (a @ b) = wsum p a + wsum (p + length a) b"
  by (induction a arbitrary: p) simp_all

lemma wsum_parity: "even p = even q \<Longrightarrow> wsum p a = wsum q a"
proof (induction a arbitrary: p q)
  case (Cons x xs)
  then have "wsum (Suc p) xs = wsum (Suc q) xs" by (intro Cons.IH) simp
  then show ?case using Cons.prems by simp
qed simp

lemma unat_be_word_snoc:
  assumes "unat (be_word bs :: 'a::len word) * 256 + 255 < 2 ^ LENGTH('a)" "8 \<le> LENGTH('a)"
  shows "unat (be_word (bs @ [b]) :: 'a word) = 256 * unat (be_word bs :: 'a word) + unat b"
proof -
  have b: "unat b < 256" using unsigned_less [of b] by simp
  have "unat b < 2 ^ LENGTH('a)" using b assms(1) by linarith
  then have ub: "unat (ucast b :: 'a word) = unat b" by (simp add: unsigned_ucast_eq take_bit_nat_eq_self_iff)
  have d: "push_bit 8 (be_word bs :: 'a word) AND ucast b = 0"
    by (rule bit_eqI) (auto simp: bit_simps dest: bit_imp_le_length)
  have p: "unat (push_bit 8 (be_word bs :: 'a word)) = 256 * unat (be_word bs :: 'a word)"
    unfolding unsigned_push_bit_eq using assms(1) by (simp add: push_bit_eq_mult take_bit_nat_eq_self_iff mult.commute)
  show ?thesis
    unfolding be_word_snoc disjunctive_add_eq_or [OF d, symmetric]
    using b ub p assms(1) by (subst unat_plus_noof) simp_all
qed

lemma unat_be_word_4: "unat (be_word [a, b, c, d] :: u32) = 256 * (256 * (256 * unat a + unat b) + unat c) + unat d"
  and unat_be_word_2: "unat (be_word [a, b] :: u16) = 256 * unat a + unat b"
proof -
  have u: "unat x < 256" for x :: u8 using unsigned_less [of x] by simp
  note l = u [of a] u [of b] u [of c] u [of d]
  have n: "be_word [] = (0 :: u32)" "be_word [] = (0 :: u16)" by (simp_all add: be_word_def)
  have 1: "unat (be_word [a] :: u32) = unat a" "unat (be_word [a] :: u16) = unat a"
    using unat_be_word_snoc [of "[]" a, where 'a = 32] unat_be_word_snoc [of "[]" a, where 'a = 16] by (simp_all add: n)
  show "unat (be_word [a, b] :: u16) = 256 * unat a + unat b"
    using unat_be_word_snoc [of "[a]" b, where 'a = 16] l by (simp add: 1)
  have 2: "unat (be_word [a, b] :: u32) = 256 * unat a + unat b"
    using unat_be_word_snoc [of "[a]" b, where 'a = 32] l by (simp add: 1)
  have 3: "unat (be_word [a, b, c] :: u32) = 256 * (256 * unat a + unat b) + unat c"
    using unat_be_word_snoc [of "[a, b]" c, where 'a = 32] l by (simp add: 2)
  show "unat (be_word [a, b, c, d] :: u32) = 256 * (256 * (256 * unat a + unat b) + unat c) + unat d"
    using unat_be_word_snoc [of "[a, b, c]" d, where 'a = 32] l by (simp add: 3)
qed

lemma mod_lift: "x = y + 65535 * k \<Longrightarrow> x mod 65535 = y mod 65535" for x y k :: nat
  by simp

text \<open>Four bytes as the number the checksum update takes, swapped where they start at an odd offset.\<close>

lemma csum_word:
  assumes "length xs = 4"
  shows "unat (if odd p then csum_odd_bytes (le_word xs) else le_word xs) mod 65535 = wsum p xs mod 65535"
proof -
  obtain a b c d where x: "xs = [a, b, c, d]"
    using assms by (auto simp: numeral_eq_Suc length_Suc_conv)
  show ?thesis
  proof (cases "odd p")
    case True
    have "256 * (256 * (256 * unat c + unat d) + unat a) + unat b
        = 256 * unat a + unat b + 256 * unat c + unat d + 65535 * (256 * unat c + unat d)" by simp
    from mod_lift [OF this] show ?thesis
      using True by (simp add: x le_word_def csum_odd_bytes_swap unat_be_word_4 add.assoc add.left_commute)
  next
    case False
    have "256 * (256 * (256 * unat d + unat c) + unat b) + unat a
        = unat a + 256 * unat b + unat c + 256 * unat d + 65535 * (256 * unat d + unat c)" by simp
    from mod_lift [OF this] show ?thesis
      using False by (simp add: x le_word_def unat_be_word_4 add.assoc add.left_commute)
  qed
qed

section \<open>The rewrite of one record\<close>

lemma skb_store_at:
  assumes "skb_data skb = A @ old @ C" "length A = unat off" "off \<le> 0x7fffffff" "length xs = length old" "skb_writable skb"
  shows "skb_can_store skb off (length old)" "skb_store_bytes off xs skb = skb\<lparr>skb_data := A @ xs @ C\<rparr>"
  using assms by (auto simp: skb_can_store_def skb_store_bytes_def put_at_def)

lemma csum_replaced:
  fixes c :: u16 and x y :: u8
  assumes "unat c = unat x + 256 * unat y"
  shows "rev (be_bytes 2 c) = [x, y]"
proof -
  have "c = be_word [y, x]" using assms by (intro word_unat_eq_iff [THEN iffD2]) (simp add: unat_be_word_2)
  then show ?thesis using be_bytes_be_word [of "[y, x]", where 'a = 16] by (simp add: numeral_2_eq_2)
qed

lemma u16_bytes: "\<exists>x y. rev (be_bytes 2 c) = [x, y] \<and> unat c = unat x + 256 * unat y" for c :: u16
proof -
  have "length (be_bytes 2 c) = Suc (Suc 0)" by simp
  then obtain y x where "be_bytes 2 c = [y, x]" unfolding length_Suc_conv by blast
  moreover have "c = be_word (be_bytes 2 c)" by (rule be_word_be_bytes [symmetric]) simp
  ultimately show ?thesis using unat_be_word_2 [of y x] by auto
qed

text \<open>The state of a datagram: what is before the checksum field, the field (not zero), and the rest.\<close>

lemma l4_csum_replace_ok:
  assumes "csum_ok csum" "skb_data skb = A @ [x, y] @ C" "length A = unat off" "off \<le> 0x7fffffff" "skb_writable skb"
    and "[x, y] \<noteq> [0, 0]"
  shows "\<exists>x' y'. l4_csum_replace csum off f t skb = (True, skb\<lparr>skb_data := A @ [x', y'] @ C\<rparr>) \<and> [x', y'] \<noteq> [0, 0]
    \<and> (wsum 0 [x', y'] + unat t) mod 65535 = (wsum 0 [x, y] + unat f) mod 65535"
proof -
  let ?c = "be_word [y, x] :: u16" and ?r = "csum (be_word [y, x]) f t"
  let ?v = "if ?r = 0 then 0xFFFF else ?r"
  obtain x' y' where v: "rev (be_bytes 2 ?v) = [x', y']" "unat ?v = unat x' + 256 * unat y'"
    using u16_bytes by blast
  have l: "le_word (bytes_at (skb_data skb) (unat off) 2) = ?c"
    using assms(2,3) by (simp add: bytes_at_def le_word_def)
  have c0: "?c \<noteq> 0"
  proof
    assume "?c = 0"
    then have "256 * unat y + unat x = 0" using unat_be_word_2 [of y x] by simp
    then show False using assms(6) by (simp add: unat_eq_zero)
  qed
  have "unat ?v mod 65535 = unat ?r mod 65535" by simp
  then have "(unat ?v + unat t) mod 65535 = (unat ?c + unat f) mod 65535"
    using assms(1) unfolding csum_ok_def by (metis mod_add_left_eq)
  then have m: "(wsum 0 [x', y'] + unat t) mod 65535 = (wsum 0 [x, y] + unat f) mod 65535"
    unfolding v(2) by (simp add: unat_be_word_2 add.commute)
  have "?v \<noteq> 0" by simp
  then have n: "[x', y'] \<noteq> [0, 0]" using v(2) by (auto simp: unat_eq_zero)
  have st: "skb_can_store skb off 2" "skb_store_bytes off [x', y'] skb = skb\<lparr>skb_data := A @ [x', y'] @ C\<rparr>"
    using skb_store_at [OF assms(2-4), of "[x', y']"] assms(5) by (simp_all add: numeral_2_eq_2)
  show ?thesis
    using st c0 v(1) n m by (intro exI [of _ x'] exI [of _ y']) (simp add: l4_csum_replace_def l Let_def)
qed

lemma mod_chain:
  fixes a b c d e f g :: nat
  assumes "(b + d) mod 65535 = (a + c) mod 65535" "(e + g) mod 65535 = (b + f) mod 65535"
  shows "(e + (d + g)) mod 65535 = (a + (c + f)) mod 65535"
proof -
  have "(e + (d + g)) mod 65535 = ((e + g) + d) mod 65535" by (simp add: ac_simps)
  also have "\<dots> = ((b + f) + d) mod 65535" using assms(2) by (metis mod_add_left_eq)
  also have "\<dots> = ((b + d) + f) mod 65535" by (simp add: ac_simps)
  also have "\<dots> = ((a + c) + f) mod 65535" using assms(1) by (metis mod_add_left_eq)
  finally show ?thesis by (simp add: ac_simps)
qed

lemma wsum_bytes_at:
  assumes "4 * Suc n \<le> length d"
  shows "wsum p (take (4 * Suc n) d) = wsum p (take 4 d) + wsum p (take (4 * n) (drop 4 d))"
proof -
  have "take (4 * Suc n) d = take 4 d @ take (4 * n) (drop 4 d)" using take_add [of 4 "4 * n" d] by simp
  then show ?thesis using assms wsum_parity [of "p + 4" p] by (simp add: wsum_append)
qed

lemma rewrite_csum_ok:
  assumes "csum_ok csum" "length A = unat off" "off \<le> 0x7fffffff"
  shows "skb_writable skb \<Longrightarrow> skb_data skb = A @ [x, y] @ C \<Longrightarrow> [x, y] \<noteq> [0, 0] \<Longrightarrow> 4 * (k + n) \<le> length from \<Longrightarrow> 4 * (k + n) \<le> length to \<Longrightarrow>
    \<exists>x' y'. rewrite_csum csum off (odd p) from to n k skb = (True, skb\<lparr>skb_data := A @ [x', y'] @ C\<rparr>) \<and> [x', y'] \<noteq> [0, 0]
    \<and> (wsum 0 [x', y'] + wsum p (take (4 * n) (drop (4 * k) to))) mod 65535
      = (wsum 0 [x, y] + wsum p (take (4 * n) (drop (4 * k) from))) mod 65535"
proof (induction n arbitrary: k x y skb)
  case 0
  then show ?case by (intro exI [of _ x] exI [of _ y]) (simp flip: 0(2))
next
  case (Suc n)
  let ?w = "\<lambda>d. if odd p then csum_odd_bytes (le_word (take 4 (drop (4 * k) d))) else le_word (take 4 (drop (4 * k) d))"
  have w: "unat (?w d) mod 65535 = wsum p (take 4 (drop (4 * k) d)) mod 65535" if "4 * (k + Suc n) \<le> length d" for d
    by (rule csum_word) (use that in simp)
  have b: "wsum p (take (4 * Suc n) (drop (4 * k) d)) = wsum p (take 4 (drop (4 * k) d)) + wsum p (take (4 * n) (drop (4 * Suc k) d))"
    if "4 * (k + Suc n) \<le> length d" for d
    using wsum_bytes_at [of n "drop (4 * k) d" p] that by (simp add: ac_simps)
  obtain x1 y1 where 1: "l4_csum_replace csum off (?w from) (?w to) skb = (True, skb\<lparr>skb_data := A @ [x1, y1] @ C\<rparr>)"
      "[x1, y1] \<noteq> [0, 0]" "(wsum 0 [x1, y1] + unat (?w to)) mod 65535 = (wsum 0 [x, y] + unat (?w from)) mod 65535"
    using l4_csum_replace_ok [OF assms(1) Suc.prems(2) assms(2,3) Suc.prems(1) Suc.prems(3)] by blast
  have r1: "(wsum 0 [x1, y1] + wsum p (take 4 (drop (4 * k) to))) mod 65535
      = (wsum 0 [x, y] + wsum p (take 4 (drop (4 * k) from))) mod 65535"
    using 1(3) unfolding mod_add_cong [OF refl w [OF Suc.prems(4)]] mod_add_cong [OF refl w [OF Suc.prems(5)]] .
  let ?s = "skb\<lparr>skb_data := A @ [x1, y1] @ C\<rparr>"
  obtain x' y' where 2: "rewrite_csum csum off (odd p) from to n (Suc k) ?s = (True, ?s\<lparr>skb_data := A @ [x', y'] @ C\<rparr>)"
      "[x', y'] \<noteq> [0, 0]" "(wsum 0 [x', y'] + wsum p (take (4 * n) (drop (4 * Suc k) to))) mod 65535
      = (wsum 0 [x1, y1] + wsum p (take (4 * n) (drop (4 * Suc k) from))) mod 65535"
    using Suc.IH [of ?s x1 y1 "Suc k"] 1(2) Suc.prems(1,4,5) by (simp del: wsum.simps) blast
  show ?case
    using 1(1) 2(1,2) mod_chain [OF r1 2(3)] unfolding b [OF Suc.prems(4)] b [OF Suc.prems(5)]
    by (intro exI [of _ x'] exI [of _ y']) (simp add: bytes_at_def del: wsum.simps)
qed

lemma vip_rewrite_addr_ok:
  fixes six :: bool and C D :: bytes
  defines "n \<equiv> if six then 16 else 4"
  assumes "csum_ok csum" "length A = unat off" "unat at = unat off + 2 + length B" "unat at \<le> 0x7fffffff" "skb_writable skb"
    and d: "skb_data skb = A @ [x, y] @ B @ old @ D" "length old = n" "take n from = old" "n \<le> length to"
    and z: "has_csum \<longrightarrow> [x, y] \<noteq> [0, 0]"
  shows "\<exists>x' y'. vip_rewrite_addr csum at off (odd p) has_csum from to six skb
      = (True, skb\<lparr>skb_data := A @ [x', y'] @ B @ take n to @ D\<rparr>) \<and> (if has_csum
      then [x', y'] \<noteq> [0, 0] \<and> (wsum 0 [x', y'] + wsum p (take n to)) mod 65535 = (wsum 0 [x, y] + wsum p old) mod 65535
      else x' = x \<and> y' = y)"
proof -
  have la: "length (A @ [x, y] @ B) = unat at" using assms(3,4) by simp
  have a7: "at \<le> 0x7fffffff" "off \<le> 0x7fffffff" using assms(4,5) by (simp_all add: word_le_nat_alt)
  have lt: "length (take n to) = length old" using d(2,4) by simp
  have d': "skb_data skb = (A @ [x, y] @ B) @ old @ D" using d(1) by simp
  let ?s = "skb\<lparr>skb_data := A @ [x, y] @ B @ take n to @ D\<rparr>"
  have st: "skb_can_store skb at n" "skb_store_bytes at (take n to) skb = ?s"
    using skb_store_at [OF d' la a7(1) lt assms(6)] d(2) by simp_all
  have lf: "n \<le> length from" using arg_cong [OF d(3), of length] d(2) by simp
  let ?k = "if six then 4 else 1 :: nat"
  have k: "4 * ?k = n" by (simp add: n_def)
  show ?thesis
  proof (cases has_csum)
    case False
    then show ?thesis
      using st by (intro exI [of _ x] exI [of _ y]) (simp add: vip_rewrite_addr_def Let_def flip: n_def)
  next
    case True
    have "\<exists>x' y'. rewrite_csum csum off (odd p) from to ?k 0 ?s = (True, ?s\<lparr>skb_data := A @ [x', y'] @ B @ take n to @ D\<rparr>)
        \<and> [x', y'] \<noteq> [0, 0] \<and> (wsum 0 [x', y'] + wsum p (take (4 * ?k) (drop (4 * 0) to))) mod 65535
      = (wsum 0 [x, y] + wsum p (take (4 * ?k) (drop (4 * 0) from))) mod 65535"
      by (rule rewrite_csum_ok [OF assms(2,3) a7(2)]) (use assms(6) z True lf d(4) k in simp_all)
    then show ?thesis
      using True st unfolding k mult_0_right drop0 d(3)
      by (simp add: vip_rewrite_addr_def Let_def del: wsum.simps flip: n_def)
  qed
qed

section \<open>The rewrite of an answer\<close>

text \<open>The address a record gives, and the record after the rewrite.\<close>

definition rr_ip :: "nat \<Rightarrow> dns_rr \<Rightarrow> bytes" where
  "rr_ip ty r = (if ty = DNS_TYPE_AAAA then rr_data r else ipv4_to_mapped (rr_data r))"

definition rr_real :: "vip_config_val \<Rightarrow> nat \<Rightarrow> dns_rr \<Rightarrow> bool" where
  "rr_real vc ty r \<longleftrightarrow> rr_wanted ty r \<and> \<not> vip_addr_in_range vc (rr_ip ty r)"

definition faked :: "vip_config_val \<Rightarrow> nat \<Rightarrow> bytes \<Rightarrow> dns_rr \<Rightarrow> dns_rr" where
  "faked vc ty fake r =
     (if rr_real vc ty r then r\<lparr>rr_data := (if ty = DNS_TYPE_AAAA then fake else drop 12 fake)\<rparr> else r)"

lemma length_wire_faked:
  assumes "body_ok ty r" "length fake = 16" "ty = DNS_TYPE_A \<or> ty = DNS_TYPE_AAAA"
  shows "length (rr_data (faked vc ty fake r)) = length (rr_data r)"
  using assms by (auto simp: faked_def rr_real_def body_ok_def dns_addr_len_def DNS_TYPE_A_def DNS_TYPE_AAAA_def)

lemma wire_faked [simp]:
  "wire_owner (faked vc ty fake r) = wire_owner r" "rr_fixed (faked vc ty fake r) = rr_fixed r"
  by (simp_all add: faked_def wire_owner_def)

lemma listed_record_ip:
  assumes "length (rr_data r) = (if ty = DNS_TYPE_AAAA then 16 else 4)"
  shows "vip_record_addr \<lparr>dr_off = a, dr_ttl = b, dr_ip = rr_data r @ replicate (16 - length (rr_data r)) 0\<rparr> (ty = DNS_TYPE_AAAA)
    = rr_ip ty r"
  using assms by (auto simp: vip_record_addr_def rr_ip_def ipv4_to_mapped_def nth_append)

lemma dns_rewrite_recs_ok:
  fixes vc :: vip_config_val and rw :: rewrite
  defines "six \<equiv> rw_six rw" and "l4 \<equiv> rw_l4_off rw"
  assumes ok: "csum_ok csum" "six = (ty = DNS_TYPE_AAAA)" "ty = DNS_TYPE_A \<or> ty = DNS_TYPE_AAAA" "length (rw_fake rw) = 16"
    "length A = l4 + 6"
  shows "skb_writable skb \<Longrightarrow> length (skb_data skb) \<le> 0x7fffffff \<Longrightarrow> skb_data skb = A @ [x, y] @ B @ wire_rrs rs @ D \<Longrightarrow>
    length B = off \<Longrightarrow> (\<forall>r \<in> set rs. body_ok ty r) \<Longrightarrow> (rw_has_csum rw \<longrightarrow> [x, y] \<noteq> [0, 0]) \<Longrightarrow>
    \<exists>x' y'. dns_rewrite_recs csum vc rw (listed off ty rs) skb
      = (True, skb\<lparr>skb_data := A @ [x', y'] @ B @ wire_rrs (map (faked vc ty (rw_fake rw)) rs) @ D\<rparr>)
    \<and> (if rw_has_csum rw then [x', y'] \<noteq> [0, 0] \<and> (wsum 0 [x', y'] + wsum off (wire_rrs (map (faked vc ty (rw_fake rw)) rs))) mod 65535
        = (wsum 0 [x, y] + wsum off (wire_rrs rs)) mod 65535
      else x' = x \<and> y' = y)"
proof (induction rs arbitrary: x y B off skb)
  case Nil
  then show ?case by (intro exI [of _ x] exI [of _ y]) (simp flip: Nil(3))
next
  case (Cons r rs)
  let ?f = "faked vc ty (rw_fake rw)" and ?n = "if six then 16 else 4 :: nat"
  let ?h = "wire_owner r @ rr_fixed r @ [of_nat (length (rr_data r) div 256), of_nat (length (rr_data r))]"
  let ?off = "off + length (wire_owner r) + length (wire_body r)"
  have b: "body_ok ty r" using Cons.prems(5) by simp
  have lf: "length (rr_data (?f r)) = length (rr_data r)" by (rule length_wire_faked [OF b ok(4,3)])
  have wr: "wire_owner r @ wire_body r = ?h @ rr_data r" "wire_owner r @ wire_body (?f r) = ?h @ rr_data (?f r)"
    by (simp_all add: wire_body_def lf)
  have lb: "length (wire_body r) = 10 + length (rr_data r)" using b by (simp add: wire_body_def body_ok_def)
  have lh: "length ?h = length (wire_owner r) + 10" using b by (simp add: body_ok_def)
  have lw: "length (wire_body (?f r)) = length (wire_body r)" using b lf by (simp add: wire_body_def)
  \<comment> \<open>the record itself\<close>
  have 1: "\<exists>x1 y1. dns_rewrite_recs csum vc rw (rr_addr (off + length (wire_owner r)) ty r @ l) skb
      = dns_rewrite_recs csum vc rw l (skb\<lparr>skb_data := A @ [x1, y1] @ (B @ ?h @ rr_data (?f r)) @ wire_rrs rs @ D\<rparr>)
    \<and> (if rw_has_csum rw then [x1, y1] \<noteq> [0, 0] \<and> (wsum 0 [x1, y1] + wsum (off + length ?h) (rr_data (?f r))) mod 65535
        = (wsum 0 [x, y] + wsum (off + length ?h) (rr_data r)) mod 65535 else x1 = x \<and> y1 = y)" for l
  proof (cases "rr_real vc ty r")
    case False
    have "rr_addr (off + length (wire_owner r)) ty r = [] \<or> (\<exists>q. rr_addr (off + length (wire_owner r)) ty r = [q]
        \<and> vip_addr_in_range vc (vip_record_addr q six))"
      using False b ok(2,3) listed_record_ip [of r ty]
      by (auto simp: rr_addr_def rr_real_def body_ok_def dns_addr_len_def DNS_TYPE_A_def DNS_TYPE_AAAA_def)
    moreover have "skb\<lparr>skb_data := A @ [x, y] @ (B @ ?h @ rr_data r) @ wire_rrs rs @ D\<rparr> = skb"
      using Cons.prems(3) wr(1) by simp
    moreover have "?f r = r" using False by (simp add: faked_def)
    ultimately show ?thesis
      using Cons.prems(6) by (intro exI [of _ x] exI [of _ y]) (auto simp: six_def)
  next
    case True
    have n: "length (rr_data r) = ?n" "rr_wanted ty r"
      using True b ok(2,3) by (auto simp: rr_real_def body_ok_def dns_addr_len_def DNS_TYPE_A_def DNS_TYPE_AAAA_def)
    let ?p = "off + length (wire_owner r) + 10" and ?to = "if six then rw_fake rw else drop 12 (rw_fake rw)"
    let ?q = "\<lparr>dr_off = ?p, dr_ttl = 65536 * num16 (rr_fixed r) 4 + num16 (rr_fixed r) 6,
       dr_ip = rr_data r @ replicate (16 - length (rr_data r)) 0\<rparr>"
    have q: "rr_addr (off + length (wire_owner r)) ty r = [?q]" using n(2) by (simp add: rr_addr_def)
    have v: "\<not> vip_addr_in_range vc (vip_record_addr ?q six)"
      using True listed_record_ip [of r ty] n(1) ok(2) by (simp add: rr_real_def)
    have to: "take ?n ?to = rr_data (?f r)" "?n \<le> length ?to" using True ok(2,4) by (auto simp: faked_def)
    have d: "skb_data skb = A @ [x, y] @ (B @ ?h) @ rr_data r @ wire_rrs rs @ D" using Cons.prems(3) wr(1) by simp
    have lB: "length (B @ ?h) = ?p" using lh Cons.prems(4) by simp
    have lt: "l4 + 8 + ?p \<le> 0x7fffffff"
      using Cons.prems(2) arg_cong [OF d, of length] lB ok(5) by (simp del: append_assoc)
    have u: "length A = unat (of_nat (l4 + 6) :: u32)" "unat (of_nat (l4 + 8 + ?p) :: u32) = unat (of_nat (l4 + 6) :: u32) + 2 + length (B @ ?h)"
      "unat (of_nat (l4 + 8 + ?p) :: u32) \<le> 0x7fffffff"
      using lt ok(5) lB by (simp_all add: unat_of_nat_u32 del: of_nat_add)
    have "\<exists>x' y'. vip_rewrite_addr csum (of_nat (l4 + 8 + ?p)) (of_nat (l4 + 6)) (odd ?p) (rw_has_csum rw) (dr_ip ?q) ?to six skb
      = (True, skb\<lparr>skb_data := A @ [x', y'] @ (B @ ?h) @ take ?n ?to @ wire_rrs rs @ D\<rparr>) \<and> (if rw_has_csum rw
      then [x', y'] \<noteq> [0, 0] \<and> (wsum 0 [x', y'] + wsum ?p (take ?n ?to)) mod 65535 = (wsum 0 [x, y] + wsum ?p (rr_data r)) mod 65535
      else x' = x \<and> y' = y)"
      by (rule vip_rewrite_addr_ok [OF ok(1) u Cons.prems(1) d n(1) _ to(2) Cons.prems(6)]) (simp add: n(1))
    then obtain x1 y1 where w: "vip_rewrite_addr csum (of_nat (l4 + 8 + ?p)) (of_nat (l4 + 6)) (odd ?p) (rw_has_csum rw) (dr_ip ?q) ?to six skb
      = (True, skb\<lparr>skb_data := A @ [x1, y1] @ (B @ ?h @ rr_data (?f r)) @ wire_rrs rs @ D\<rparr>)"
      "if rw_has_csum rw then [x1, y1] \<noteq> [0, 0] \<and> (wsum 0 [x1, y1] + wsum ?p (rr_data (?f r))) mod 65535 = (wsum 0 [x, y] + wsum ?p (rr_data r)) mod 65535
      else x1 = x \<and> y1 = y"
      unfolding to(1) append_assoc by blast
    have ph: "off + length ?h = ?p" using lh by simp
    show ?thesis
      unfolding q ph using v w unfolding six_def l4_def
      by (intro exI [of _ x1] exI [of _ y1]) (simp add: Let_def del: wsum.simps)
  qed
  define l where "l = listed ?off ty rs"
  obtain x1 y1 where r1: "dns_rewrite_recs csum vc rw (rr_addr (off + length (wire_owner r)) ty r @ l) skb
      = dns_rewrite_recs csum vc rw l (skb\<lparr>skb_data := A @ [x1, y1] @ (B @ ?h @ rr_data (?f r)) @ wire_rrs rs @ D\<rparr>)"
    "if rw_has_csum rw then [x1, y1] \<noteq> [0, 0] \<and> (wsum 0 [x1, y1] + wsum (off + length ?h) (rr_data (?f r))) mod 65535
        = (wsum 0 [x, y] + wsum (off + length ?h) (rr_data r)) mod 65535 else x1 = x \<and> y1 = y"
    using 1 [of l] by blast
  let ?s = "skb\<lparr>skb_data := A @ [x1, y1] @ (B @ ?h @ rr_data (?f r)) @ wire_rrs rs @ D\<rparr>"
  have ls: "length (skb_data ?s) = length (skb_data skb)" using Cons.prems(3) wr(1) lf by (simp add: lw lb lh)
  have z1: "rw_has_csum rw \<longrightarrow> [x1, y1] \<noteq> [0, 0]" using r1(2) by (simp split: if_splits)
  have o1: "length (B @ ?h @ rr_data (?f r)) = ?off" using Cons.prems(4) lf lh lb by simp
  have "\<exists>x' y'. dns_rewrite_recs csum vc rw l ?s
      = (True, ?s\<lparr>skb_data := A @ [x', y'] @ (B @ ?h @ rr_data (?f r)) @ wire_rrs (map ?f rs) @ D\<rparr>)
    \<and> (if rw_has_csum rw then [x', y'] \<noteq> [0, 0] \<and> (wsum 0 [x', y'] + wsum ?off (wire_rrs (map ?f rs))) mod 65535
        = (wsum 0 [x1, y1] + wsum ?off (wire_rrs rs)) mod 65535
      else x' = x1 \<and> y' = y1)"
    unfolding l_def by (rule Cons.IH) (use Cons.prems(1,2,5) ls o1 z1 in simp_all)
  then obtain x2 y2 where r2: "dns_rewrite_recs csum vc rw l ?s
      = (True, skb\<lparr>skb_data := A @ [x2, y2] @ (B @ ?h @ rr_data (?f r)) @ wire_rrs (map ?f rs) @ D\<rparr>)"
    "if rw_has_csum rw then [x2, y2] \<noteq> [0, 0] \<and> (wsum 0 [x2, y2] + wsum ?off (wire_rrs (map ?f rs))) mod 65535
        = (wsum 0 [x1, y1] + wsum ?off (wire_rrs rs)) mod 65535
      else x2 = x1 \<and> y2 = y1" by auto
  have off: "off + length ?h + length (rr_data r) = ?off" using lh lb by simp
  have e: "wire_rrs (r # rs) = ?h @ rr_data r @ wire_rrs rs" "wire_rrs (map ?f (r # rs)) = ?h @ rr_data (?f r) @ wire_rrs (map ?f rs)"
    using arg_cong [OF wr(1), of "\<lambda>z. z @ wire_rrs rs"] arg_cong [OF wr(2), of "\<lambda>z. z @ wire_rrs (map ?f rs)"] by simp_all
  have ws: "wsum off (wire_rrs (r # rs)) = wsum off ?h + (wsum (off + length ?h) (rr_data r) + wsum ?off (wire_rrs rs))"
    "wsum off (wire_rrs (map ?f (r # rs))) = wsum off ?h + (wsum (off + length ?h) (rr_data (?f r)) + wsum ?off (wire_rrs (map ?f rs)))"
    unfolding e wsum_append [of off ?h] wsum_append [of _ "rr_data r"] wsum_append [of _ "rr_data (?f r)"] lf off by (rule refl)+
  have m: "(wsum 0 [x2, y2] + wsum off (wire_rrs (map ?f (r # rs)))) mod 65535 = (wsum 0 [x, y] + wsum off (wire_rrs (r # rs))) mod 65535"
    if h: "rw_has_csum rw"
  proof -
    have "(wsum 0 [x2, y2] + (wsum (off + length ?h) (rr_data (?f r)) + wsum ?off (wire_rrs (map ?f rs)))) mod 65535
      = (wsum 0 [x, y] + (wsum (off + length ?h) (rr_data r) + wsum ?off (wire_rrs rs))) mod 65535"
      by (rule mod_chain) (use r1(2) r2(2) in \<open>simp_all only: h if_True\<close>)
    from mod_add_cong [OF this refl, of "wsum off ?h"] show ?thesis
      unfolding ws by (simp only: ac_simps)
  qed
  have R: "dns_rewrite_recs csum vc rw (listed off ty (r # rs)) skb
      = (True, skb\<lparr>skb_data := A @ [x2, y2] @ B @ wire_rrs (map ?f (r # rs)) @ D\<rparr>)"
    unfolding listed.simps l_def [symmetric] r1(1) r2(1) e(2) by simp
  show ?case
  proof (cases "rw_has_csum rw")
    case True
    then show ?thesis
      using R m r2(2) unfolding if_P [OF True] by blast
  next
    case False
    then show ?thesis
      using R r1(2) r2(2) unfolding if_not_P [OF False] by blast
  qed
qed

text \<open>What the first loop records: the address of every record to rewrite, until its TTL.\<close>

definition rr_ttl :: "dns_rr \<Rightarrow> nat" where
  "rr_ttl r = (let ttl = 65536 * num16 (rr_fixed r) 4 + num16 (rr_fixed r) 6 in if ttl > 0x7FFFFFFF then 0 else ttl)"

definition upstreams_after :: "u64 \<Rightarrow> nat \<Rightarrow> dns_rr list \<Rightarrow> vip_upstream_val \<Rightarrow> vip_upstream_val" where
  "upstreams_after now ty rs up =
     fold (\<lambda>r up. vip_upstream_record up (rr_ip ty r) (now + of_nat (rr_ttl r) * 1000000000)) rs up"

lemma dns_record_addrs_listed:
  assumes "ty = DNS_TYPE_A \<or> ty = DNS_TYPE_AAAA"
  shows "\<forall>r \<in> set rs. body_ok ty r \<Longrightarrow> dns_record_addrs vc now (ty = DNS_TYPE_AAAA) (listed off ty rs) up
    = (upstreams_after now ty (filter (rr_real vc ty) rs) up, \<exists>r \<in> set rs. rr_real vc ty r)"
proof -
  let ?six = "ty = DNS_TYPE_AAAA"
  let ?f = "\<lambda>r (up, recorded). let real = vip_record_addr r ?six in
       if vip_addr_in_range vc real then (up, recorded)
       else let ttl = (if dr_ttl r > 0x7FFFFFFF then 0 else dr_ttl r)
            in (vip_upstream_record up real (now + of_nat ttl * 1000000000), True)"
  have "\<forall>r \<in> set rs. body_ok ty r \<Longrightarrow> fold ?f (listed off ty rs) (up, b)
    = (upstreams_after now ty (filter (rr_real vc ty) rs) up, b \<or> (\<exists>r \<in> set rs. rr_real vc ty r))" for b
  proof (induction rs arbitrary: off up b)
    case Nil
    then show ?case by (simp add: upstreams_after_def)
  next
    case (Cons r rs)
    have IH: "fold ?f (listed o' ty rs) (u, b)
      = (upstreams_after now ty (filter (rr_real vc ty) rs) u, b \<or> (\<exists>r \<in> set rs. rr_real vc ty r))" for o' u b
      using Cons.IH Cons.prems by simp
    have ok: "body_ok ty r" using Cons.prems by simp
    have h: "fold ?f (rr_addr o' ty r) (up, b) = (if rr_real vc ty r
        then (vip_upstream_record up (rr_ip ty r) (now + of_nat (rr_ttl r) * 1000000000), True) else (up, b))" for o'
    proof (cases "rr_wanted ty r")
      case True
      then have "length (rr_data r) = (if ty = DNS_TYPE_AAAA then 16 else 4)"
        using ok assms by (auto simp: body_ok_def dns_addr_len_def DNS_TYPE_A_def DNS_TYPE_AAAA_def)
      from listed_record_ip [OF this] True obtain q where "rr_addr o' ty r = [q]" "vip_record_addr q ?six = rr_ip ty r"
          "(if dr_ttl q > 0x7FFFFFFF then 0 else dr_ttl q) = rr_ttl r"
        by (simp add: rr_addr_def rr_ttl_def Let_def)
      then show ?thesis using True by (simp add: rr_real_def)
    qed (simp add: rr_addr_def rr_real_def)
    show ?case
      unfolding listed.simps fold_append o_apply h
      by (cases "rr_real vc ty r") (simp_all only: if_True if_False IH, simp_all add: upstreams_after_def)
  qed
  then show "\<forall>r \<in> set rs. body_ok ty r \<Longrightarrow> dns_record_addrs vc now (ty = DNS_TYPE_AAAA) (listed off ty rs) up
    = (upstreams_after now ty (filter (rr_real vc ty) rs) up, \<exists>r \<in> set rs. rr_real vc ty r)"
    by (simp add: dns_record_addrs_def)
qed

lemma bswap16_be_word: "bswap16 (be_word [a, b]) = be_word [b, a]"
proof (rule bit_eqI)
  fix n
  assume "possible_bit TYPE(16 word) n"
  then have n: "n < 16" by (simp add: possible_bit_def)
  have "n < 8 \<or> (\<exists>m < 8. n = 8 + m)" using n by presburger
  then show "bit (bswap16 (be_word [a, b])) n = bit (be_word [b, a] :: u16) n"
    by (auto simp: bswap16_def bit_or_iff bit_push_bit_iff bit_drop_bit_eq bit_be_word)
qed

lemma num16_word:
  assumes "i + 1 < length d"
  shows "unat (bswap16 (le_word (bytes_at d i 2))) = num16 d i"
proof -
  have "take 2 (drop i d) = [d ! i, d ! (i + 1)]"
    using assms by (simp add: numeral_2_eq_2 take_Suc_conv_app_nth Cons_nth_drop_Suc [symmetric])
  then show ?thesis by (simp add: bytes_at_def le_word_def bswap16_be_word unat_be_word_2 num16_def)
qed

lemma num16_eq:
  assumes "i + 1 < length d"
  shows "le_word (bytes_at d i 2) = bswap16 w \<longleftrightarrow> num16 d i = unat w" "le_word (bytes_at d i 2) = (0 :: u16) \<longleftrightarrow> num16 d i = 0"
proof -
  have e: "bswap16 x = y \<longleftrightarrow> x = bswap16 y" for x y by (metis bswap16_bswap16)
  have z: "bswap16 0 = 0" by code_simp
  show "le_word (bytes_at d i 2) = bswap16 w \<longleftrightarrow> num16 d i = unat w"
    unfolding num16_word [OF assms, symmetric] by (metis e word_unat_eq_iff)
  show "le_word (bytes_at d i 2) = (0 :: u16) \<longleftrightarrow> num16 d i = 0"
    unfolding num16_word [OF assms, symmetric] by (metis e z unat_eq_zero)
qed

lemma dns_scan_listed:
  assumes "length msg = 512" "dns_scan_addr_records msg len off an ty zero_answers = (DNS_SCAN_OK, a)"
  shows "length (da_listed a) = da_n_recs a"
proof -
  let ?a = "dns_answers_begin zero_answers len off an ty"
  have "walking ty msg ?a" and n: "da_n_recs ?a = 0" "da_in_name ?a"
    using assms(1) by (simp_all add: walking_def dns_answers_begin_def zero_answers_def Let_def MAX_DNS_PKT_def
        DNS_MAX_ADDR_RECORDS_def)
  from dns_answers_sound [OF this(1) assms(2) [unfolded dns_scan_addr_records_def]] obtain rs
    where "da_listed a = da_listed ?a @ listed (da_off ?a) ty rs" "da_n_recs a = da_n_recs ?a + length (listed (da_off ?a) ty rs)"
    unfolding scanned_def if_P [OF n(2)] by blast
  then show ?thesis by (simp only: n(1) take_0 append_Nil add_0)
qed

section \<open>Which packets are rewritten\<close>

text \<open>
  The answers to rewrite, as bytes: a datagram from port 53 of a trusted resolver, one question for a
  watched host, and records of which some are addresses of the question's type; the pod has a secret
  for the host, or for every host.
\<close>

definition wire_reply :: "bytes \<Rightarrow> bytes list \<Rightarrow> bytes \<Rightarrow> dns_rr list \<Rightarrow> bytes \<Rightarrow> bytes" where
  "wire_reply hdr ls qt rs tail = hdr @ wire_labels ls @ 0 # qt @ wire_rrs rs @ tail"

definition qtype_of :: "bool \<Rightarrow> nat" where "qtype_of six = (if six then DNS_TYPE_AAAA else DNS_TYPE_A)"

definition question_ok :: "bytes list \<Rightarrow> bool" where
  "question_ok ls \<longleftrightarrow> (\<forall>l \<in> set ls. host_label l) \<and> ls \<noteq> [] \<and> length (dotted ls) < MAX_HOST_LEN"

definition records_ok :: "nat \<Rightarrow> nat \<Rightarrow> dns_rr list \<Rightarrow> bool" where
  "records_ok off ty rs \<longleftrightarrow> (\<forall>r \<in> set rs. owner_ok r \<and> body_ok ty r) \<and> (\<Sum>r \<leftarrow> rs. rr_steps r) \<le> DNS_SCAN_STEPS
     \<and> length (listed off ty rs) \<le> DNS_MAX_ADDR_RECORDS"

definition pod_has_secret :: "config \<Rightarrow> bytes \<Rightarrow> bytes \<Rightarrow> bool" where
  "pod_has_secret cfg pod host \<longleftrightarrow> vip_pod_host cfg \<lparr>pod_ip = pod, pod_host = host\<rparr> \<noteq> None
     \<or> vip_pod_host cfg \<lparr>pod_ip = pod, pod_host = replicate MAX_HOST_LEN 0\<rparr> \<noteq> None"

definition host_fake :: "config \<Rightarrow> bool \<Rightarrow> bytes \<Rightarrow> bytes option" where
  "host_fake cfg six host = (case vip_host_ip cfg host of None \<Rightarrow> None
     | Some hv \<Rightarrow> Some (if six then vh_ip6 hv else ipv4_to_mapped (vh_ip4 hv)))"

definition reply_for :: "config \<Rightarrow> bytes \<Rightarrow> bytes \<Rightarrow> bytes list \<Rightarrow> bytes \<Rightarrow> dns_rr list \<Rightarrow> rewrite \<Rightarrow> bool" where
  "reply_for cfg pod hdr ls qt rs rw \<longleftrightarrow> answer_header hdr (length rs) \<and> question_ok ls \<and> length qt = 4
     \<and> num16 qt 0 = qtype_of (rw_six rw)
     \<and> host_fake cfg (rw_six rw) (pad_host (dotted ls)) = Some (rw_fake rw) \<and> vip_addr_in_range (vip_config cfg) (rw_fake rw)
     \<and> pod_has_secret cfg pod (pad_host (dotted ls))
     \<and> records_ok (17 + length (wire_labels ls)) (qtype_of (rw_six rw)) rs
     \<and> rw_recs rw = listed (17 + length (wire_labels ls)) (qtype_of (rw_six rw)) rs \<and> rw_recs rw \<noteq> []"

lemma qt4: "length qt = 4 \<longleftrightarrow> (\<exists>t1 t2 c1 c2. qt = [t1, t2, c1, c2])" for qt :: bytes
  by (auto simp: numeral_eq_Suc length_Suc_conv)

lemma dns_plan_answer_iff:
  assumes "length msg = 512" "take len msg = m"
  shows "dns_plan_answer cfg pod l4 hc msg len = PLAN_REWRITE rw \<longleftrightarrow> rw_l4_off rw = l4 \<and> rw_has_csum rw = hc
    \<and> (\<exists>hdr ls qt rs tail. m = wire_reply hdr ls qt rs tail \<and> reply_for cfg pod hdr ls qt rs rw)"
    (is "?L \<longleftrightarrow> ?R")
proof
  assume L: ?L
  let ?six = "dq_qtype (snd (dns_walk_question msg len)) = DNS_TYPE_AAAA"
  obtain q where q: "dns_parse_question msg len zero_question = (DNS_SCAN_OK, q)"
    using L by (cases "dns_walk_question msg len")
      (auto simp: dns_plan_answer_def Let_def dns_walk_question_parse split: if_splits)
  have ty: "dq_qtype q = qtype_of (dq_qtype q = DNS_TYPE_AAAA)"
    using L q by (auto simp: dns_plan_answer_def Let_def dns_walk_question_parse qtype_of_def split: if_splits)
  obtain hv where hv: "vip_host_ip cfg (dq_qname q) = Some hv"
    using L q by (auto simp: dns_plan_answer_def Let_def dns_walk_question_parse split: if_splits option.splits)
  let ?ty = "dq_qtype q" and ?off = "dq_answers_off q" and ?fk = "if dq_qtype q = DNS_TYPE_AAAA then vh_ip6 hv else ipv4_to_mapped (vh_ip4 hv)"
  obtain a where a: "dns_scan_addr_records msg len ?off (dq_ancount q) ?ty zero_answers = (DNS_SCAN_OK, a)"
    using L q hv by (cases "dns_walk_answers msg len ?off (dq_ancount q) ?ty")
      (auto simp: dns_plan_answer_def Let_def dns_walk_question_parse dns_walk_answers_scan split: if_splits)
  have g: "vip_addr_in_range (vip_config cfg) ?fk" "pod_has_secret cfg pod (dq_qname q)" "da_n_recs a \<noteq> 0"
      "rw = \<lparr>rw_l4_off = l4, rw_has_csum = hc, rw_six = (?ty = DNS_TYPE_AAAA), rw_fake = ?fk,
        rw_recs = take (min (da_n_recs a) DNS_MAX_ADDR_RECORDS) (da_recs a)\<rparr>"
    using L q hv a by (auto simp: dns_plan_answer_def Let_def dns_walk_question_parse dns_walk_answers_scan
        pod_has_secret_def split: if_splits)
  from dns_parse_question_sound [OF assms(1) q] obtain hdr ls t1 t2 c1 c2 rest where
    w: "take len msg = hdr @ wire_labels ls @ 0 # t1 # t2 # c1 # c2 # rest" "answer_header hdr (dq_ancount q)"
      "\<forall>l \<in> set ls. host_label l" "ls \<noteq> []" "length (dotted ls) < MAX_HOST_LEN" "dq_qname q = pad_host (dotted ls)"
      "dq_qtype q = 256 * unat t1 + unat t2" "dq_answers_off q = 12 + length (wire_labels ls) + 5" by blast
  have off: "?off = 17 + length (wire_labels ls)" using w(8) by simp
  have dr: "drop ?off (take len msg) = rest" unfolding w(1) off using w(2) by (simp add: answer_header_def)
  from dns_scan_listed [OF assms(1) a] have ll: "length (da_listed a) = da_n_recs a" .
  with a dns_scan_iff [OF assms(1), of len ?off "dq_ancount q" ?ty "da_listed a"] obtain rs tail where
    r: "drop ?off (take len msg) = wire_rrs rs @ tail" "length rs = dq_ancount q" "\<forall>r \<in> set rs. owner_ok r \<and> body_ok ?ty r"
      "(\<Sum>r \<leftarrow> rs. rr_steps r) \<le> DNS_SCAN_STEPS" "da_listed a = listed ?off ?ty rs" "length (da_listed a) \<le> DNS_MAX_ADDR_RECORDS"
    by metis
  have recs: "rw_recs rw = listed ?off ?ty rs" using g(4) r(5,6) ll by (simp add: min_def)
  have "reply_for cfg pod hdr ls [t1, t2, c1, c2] rs rw"
    unfolding reply_for_def records_ok_def question_ok_def
    using w(2-7) r(2-6) ll g hv recs ty off by (auto simp: num16_def host_fake_def)
  moreover have "m = wire_reply hdr ls [t1, t2, c1, c2] rs tail"
    using w(1) dr r(1) assms(2) by (simp add: wire_reply_def)
  ultimately show ?R using g(4) by (metis rewrite.select_convs(1,2))
next
  assume ?R
  then obtain hdr ls qt rs tail where R: "rw_l4_off rw = l4" "rw_has_csum rw = hc" "m = wire_reply hdr ls qt rs tail"
    "reply_for cfg pod hdr ls qt rs rw" by blast
  note f = R(4) [unfolded reply_for_def question_ok_def records_ok_def]
  obtain t1 t2 c1 c2 where qt: "qt = [t1, t2, c1, c2]" using f qt4 by blast
  let ?ty = "qtype_of (rw_six rw)" and ?off = "17 + length (wire_labels ls)"
  have w: "take len msg = hdr @ wire_labels ls @ 0 # t1 # t2 # c1 # c2 # wire_rrs rs @ tail"
    using R(3) assms(2) by (simp add: wire_reply_def qt)
  have "\<exists>q. dns_parse_question msg len zero_question = (DNS_SCAN_OK, q) \<and> dq_qname q = pad_host (dotted ls)
      \<and> dq_qname_len q = length (dotted ls) \<and> dq_qtype q = ?ty \<and> dq_ancount q = length rs \<and> dq_answers_off q = ?off"
    unfolding dns_parse_question_iff [OF assms(1)]
    by (intro exI [of _ hdr] exI [of _ ls] exI [of _ t1] exI [of _ t2] exI [of _ c1] exI [of _ c2] exI [of _ "wire_rrs rs @ tail"])
      (use w f in \<open>simp add: qt num16_def\<close>)
  then obtain q where q: "dns_parse_question msg len zero_question = (DNS_SCAN_OK, q)" "dq_qname q = pad_host (dotted ls)"
      "dq_qtype q = ?ty" "dq_ancount q = length rs" "dq_answers_off q = ?off" by blast
  have dr: "drop ?off (take len msg) = wire_rrs rs @ tail" unfolding w using f by (simp add: answer_header_def)
  have "\<exists>a. dns_scan_addr_records msg len ?off (length rs) ?ty zero_answers = (DNS_SCAN_OK, a) \<and> da_listed a = rw_recs rw
      \<and> da_n_recs a = length (rw_recs rw)"
    unfolding dns_scan_iff [OF assms(1)] using dr f by auto
  then obtain a where a: "dns_scan_addr_records msg len ?off (length rs) ?ty zero_answers = (DNS_SCAN_OK, a)"
      "da_listed a = rw_recs rw" "da_n_recs a = length (rw_recs rw)" by blast
  have six: "?ty = DNS_TYPE_AAAA \<longleftrightarrow> rw_six rw" by (simp add: qtype_of_def DNS_TYPE_A_def DNS_TYPE_AAAA_def)
  have A: "\<not> rw_six rw \<Longrightarrow> ?ty = DNS_TYPE_A" by (simp add: qtype_of_def)
  obtain hv where hv: "vip_host_ip cfg (pad_host (dotted ls)) = Some hv"
      "rw_fake rw = (if rw_six rw then vh_ip6 hv else ipv4_to_mapped (vh_ip4 hv))"
    using f by (auto simp: host_fake_def split: option.splits)
  have rec: "take (min (da_n_recs a) DNS_MAX_ADDR_RECORDS) (da_recs a) = rw_recs rw" "da_n_recs a \<noteq> 0"
    using a(2,3) f by (auto simp: min_def)
  have p: "\<not> (vip_pod_host cfg \<lparr>pod_ip = pod, pod_host = pad_host (dotted ls)\<rparr> = None
      \<and> vip_pod_host cfg \<lparr>pod_ip = pod, pod_host = replicate MAX_HOST_LEN 0\<rparr> = None)"
      "vip_addr_in_range (vip_config cfg) (if rw_six rw then vh_ip6 hv else ipv4_to_mapped (vh_ip4 hv))"
    using f hv(2) by (simp_all add: pod_has_secret_def)
  define ty where "ty = ?ty"
  note ty = ty_def [symmetric]
  have rw: "\<lparr>rw_l4_off = l4, rw_has_csum = hc, rw_six = rw_six rw,
      rw_fake = (if rw_six rw then vh_ip6 hv else ipv4_to_mapped (vh_ip4 hv)),
      rw_recs = take (min (da_n_recs a) DNS_MAX_ADDR_RECORDS) (da_recs a)\<rparr> = rw"
    unfolding rec(1) hv(2) [symmetric] using R(1,2) by simp
  show ?L
    using rec(2) A p unfolding dns_plan_answer_def dns_walk_question_parse dns_walk_answers_scan Let_def q(1) prod.case q(2-5)
      hv(1) option.case a(1) [unfolded ty] six [unfolded ty] ty
    using rw by (cases "rw_six rw") (auto simp: six [unfolded ty] a(1) [unfolded ty])
qed

definition answer_packet ::
  "config \<Rightarrow> sk_buff \<Rightarrow> rewrite \<Rightarrow> bytes \<Rightarrow> bytes \<Rightarrow> bytes list \<Rightarrow> bytes \<Rightarrow> dns_rr list \<Rightarrow> bytes \<Rightarrow> bool" where
  "answer_packet cfg skb rw udp hdr ls qt rs tail \<longleftrightarrow> (let msg = wire_reply hdr ls qt rs tail in
     vc_mask4 (vip_config cfg) \<noteq> 0
     \<and> (\<exists>src pod. dns_ip_header skb = Some (src, pod, rw_l4_off rw) \<and> dns_server_trusted cfg src
          \<and> reply_for cfg pod hdr ls qt rs rw)
     \<and> skb_load_bytes skb (of_nat (rw_l4_off rw)) 8 = Some udp
     \<and> skb_load_bytes skb (of_nat (rw_l4_off rw + 8)) (length msg) = Some msg
     \<and> num16 udp 0 = 53 \<and> num16 udp 4 = 8 + length msg \<and> length msg \<le> MAX_DNS_PKT
     \<and> rw_has_csum rw = (num16 udp 6 \<noteq> 0))"

lemma take_put_front: "length m \<le> length b \<Longrightarrow> take (length m) (put_at 0 m b) = m"
  by (simp add: put_at_def)

lemma dns_plan_packet_iff:
  assumes "length buf = 512"
  shows "dns_plan_packet cfg buf skb = PLAN_REWRITE rw \<longleftrightarrow> (\<exists>udp hdr ls qt rs tail. answer_packet cfg skb rw udp hdr ls qt rs tail)"
    (is "?L \<longleftrightarrow> ?R")
proof
  assume L: ?L
  obtain src pod l4 where h: "vc_mask4 (vip_config cfg) \<noteq> 0" "dns_ip_header skb = Some (src, pod, l4)"
    using L by (auto simp: dns_plan_packet_def split: if_splits option.splits)
  obtain udp where u: "skb_load_bytes skb (of_nat l4) 8 = Some udp"
    using L h by (cases "skb_load_bytes skb (of_nat l4) 8") (simp_all add: dns_plan_packet_def)
  have l: "length udp = 8" using skb_load_bytes_length [OF u] .
  have n: "le_word (bytes_at udp 0 2) = bswap16 53 \<longleftrightarrow> num16 udp 0 = 53" "le_word (bytes_at udp 6 2) \<noteq> (0 :: u16) \<longleftrightarrow> num16 udp 6 \<noteq> 0"
      "unat (bswap16 (le_word (bytes_at udp 4 2))) = num16 udp 4"
    using num16_eq(1) [of 0 udp 53] num16_eq(2) [of 6 udp] num16_word [of 4 udp] l by simp_all
  have p: "num16 udp 0 = 53" "dns_server_trusted cfg src" "\<not> num16 udp 4 < 8 + 12" "\<not> num16 udp 4 > 8 + MAX_DNS_PKT"
    using L h u n by (auto simp: dns_plan_packet_def Let_def split: if_splits)
  define len where "len = num16 udp 4 - 8"
  obtain m where m: "skb_load_bytes skb (of_nat (l4 + 8)) len = Some m"
    using L h u n p by (cases "skb_load_bytes skb (of_nat (l4 + 8)) len") (simp_all add: dns_plan_packet_def Let_def len_def)
  have A: "dns_plan_answer cfg pod l4 (num16 udp 6 \<noteq> 0) (put_at 0 m buf) len = PLAN_REWRITE rw"
    using L h u n p m by (simp add: dns_plan_packet_def Let_def len_def)
  have lm: "length m = len" using skb_load_bytes_length [OF m] .
  have len: "len \<le> 512" "num16 udp 4 = 8 + len" using p(3,4) by (simp_all add: len_def MAX_DNS_PKT_def)
  have b: "length (put_at 0 m buf) = 512" "take len (put_at 0 m buf) = m"
    using lm len assms take_put_front [of m buf] by simp_all
  obtain hdr ls qt rs tail where "rw_l4_off rw = l4" "rw_has_csum rw = (num16 udp 6 \<noteq> 0)" "m = wire_reply hdr ls qt rs tail"
      "reply_for cfg pod hdr ls qt rs rw"
    using A unfolding dns_plan_answer_iff [OF b] by blast
  then have "answer_packet cfg skb rw udp hdr ls qt rs tail"
    using h u p m lm len by (auto simp: answer_packet_def Let_def MAX_DNS_PKT_def)
  then show ?R by blast
next
  assume ?R
  then obtain udp hdr ls qt rs tail where R: "answer_packet cfg skb rw udp hdr ls qt rs tail" by blast
  define m where "m = wire_reply hdr ls qt rs tail"
  let ?l4 = "rw_l4_off rw"
  obtain src pod where h: "dns_ip_header skb = Some (src, pod, ?l4)" "dns_server_trusted cfg src" "reply_for cfg pod hdr ls qt rs rw"
    and f: "vc_mask4 (vip_config cfg) \<noteq> 0" "skb_load_bytes skb (of_nat ?l4) 8 = Some udp"
      "skb_load_bytes skb (of_nat (?l4 + 8)) (length m) = Some m" "num16 udp 0 = 53" "num16 udp 4 = 8 + length m"
      "length m \<le> MAX_DNS_PKT" "rw_has_csum rw = (num16 udp 6 \<noteq> 0)"
    using R unfolding answer_packet_def Let_def m_def [symmetric] by blast
  have l: "length udp = 8" using skb_load_bytes_length [OF f(2)] .
  have n: "le_word (bytes_at udp 0 2) = bswap16 53" "le_word (bytes_at udp 6 2) \<noteq> (0 :: u16) \<longleftrightarrow> num16 udp 6 \<noteq> 0"
      "unat (bswap16 (le_word (bytes_at udp 4 2))) = 8 + length m"
    using num16_eq(1) [of 0 udp 53] num16_eq(2) [of 6 udp] num16_word [of 4 udp] l f(4,5) by simp_all
  have lm: "12 \<le> length m" using h(3) by (simp add: m_def wire_reply_def reply_for_def answer_header_def)
  have b: "length (put_at 0 m buf) = 512" "take (length m) (put_at 0 m buf) = m"
    using f(6) assms take_put_front [of m buf] by (simp_all add: MAX_DNS_PKT_def)
  have "dns_plan_answer cfg pod ?l4 (num16 udp 6 \<noteq> 0) (put_at 0 m buf) (length m) = PLAN_REWRITE rw"
    unfolding dns_plan_answer_iff [OF b] using h(3) f(7) m_def by blast
  then show ?L using h f n lm by (simp add: dns_plan_packet_def Let_def)
qed

section \<open>The rewritten packet\<close>

lemma dns_ip_header_off: "dns_ip_header skb = Some (src, pod, l4) \<Longrightarrow> l4 \<le> 74"
proof -
  have b: "unat (w AND 0x0F) \<le> 15" for w :: u8
    using word_and_le1 [of w "0x0F"] by (simp add: word_le_nat_alt)
  have "x + unat (w AND 0x0F) * 4 \<le> 74" if "x \<le> 14" for x and w :: u8 using b [of w] that by linarith
  then show "dns_ip_header skb = Some (src, pod, l4) \<Longrightarrow> l4 \<le> 74"
    by (fastforce simp: dns_ip_header_def Let_def split: if_splits option.splits)
qed

lemma wsum_datagram:
  assumes "length U = 6"
  shows "wsum 0 (U @ [x, y] @ B @ W @ T)
    = wsum 0 U + wsum 0 B + wsum (length B + length W) T + (wsum 0 [x, y] + wsum (length B) W)"
proof -
  have "wsum 8 B = wsum 0 B" "wsum (8 + length B) W = wsum (length B) W"
      "wsum (8 + length B + length W) T = wsum (length B + length W) T"
    by (rule wsum_parity, simp)+
  then show ?thesis using assms by (simp add: wsum_append)
qed

lemma length_wire_rrs_faked:
  assumes "length fake = 16" "ty = DNS_TYPE_A \<or> ty = DNS_TYPE_AAAA" "\<forall>r \<in> set rs. body_ok ty r"
  shows "length (wire_rrs (map (faked vc ty fake) rs)) = length (wire_rrs rs)"
  using assms(3) by (induction rs) (auto simp: wire_body_def length_wire_faked [OF _ assms(1,2)])

lemma split_datagram:
  assumes "take 8 (drop l4 d) = udp" "length udp = 8" "take (length msg) (drop (l4 + 8) d) = msg" "l4 + 8 + length msg \<le> length d"
  shows "d = take (l4 + 6) d @ [udp ! 6, udp ! 7] @ msg @ drop (l4 + 8 + length msg) d"
proof -
  have "drop 6 udp = [udp ! 6, udp ! 7]"
    using assms(2) Cons_nth_drop_Suc [of 6 udp] Cons_nth_drop_Suc [of 7 udp] by simp
  moreover have "take 2 (drop (l4 + 6) d) = drop 6 (take 8 (drop l4 d))" by (simp add: drop_take add.commute)
  ultimately have "take 2 (drop (l4 + 6) d) = [udp ! 6, udp ! 7]" using assms(1) by simp
  then have 1: "drop (l4 + 6) d = [udp ! 6, udp ! 7] @ drop (l4 + 8) d"
    using append_take_drop_id [of 2 "drop (l4 + 6) d"] by (simp add: add.commute)
  have "drop (l4 + 8) d = msg @ drop (l4 + 8 + length msg) d"
    using append_take_drop_id [of "length msg" "drop (l4 + 8) d"] assms(3) by (simp add: add.commute add.left_commute)
  then show ?thesis using append_take_drop_id [of "l4 + 6" d] unfolding 1 by simp
qed

lemma answer_packet_data:
  assumes "answer_packet cfg skb rw udp hdr ls qt rs tail"
  defines "d \<equiv> skb_data skb" and "l4 \<equiv> rw_l4_off rw" and "msg \<equiv> wire_reply hdr ls qt rs tail"
  shows "d = take (l4 + 6) d @ [udp ! 6, udp ! 7] @ msg @ drop (l4 + 8 + length msg) d" "length (take (l4 + 6) d) = l4 + 6"
    and "rw_has_csum rw \<longleftrightarrow> [udp ! 6, udp ! 7] \<noteq> [0, 0]"
proof -
  obtain src pod where h: "dns_ip_header skb = Some (src, pod, l4)"
    and u: "skb_load_bytes skb (of_nat l4) 8 = Some udp"
    and m: "skb_load_bytes skb (of_nat (l4 + 8)) (length msg) = Some msg"
    and c: "rw_has_csum rw = (num16 udp 6 \<noteq> 0)"
    using assms(1) unfolding answer_packet_def Let_def l4_def msg_def by blast
  have n: "unat (of_nat l4 :: u32) = l4" "unat (of_nat (l4 + 8) :: u32) = l4 + 8"
    using dns_ip_header_off [OF h] by (simp_all del: of_nat_add)
  have "take 8 (drop l4 d) = udp" "take (length msg) (drop (l4 + 8) d) = msg" and l: "l4 + 8 + length msg \<le> length d"
    using u m unfolding skb_load_bytes_def n d_def by (simp_all split: if_splits)
  then show "d = take (l4 + 6) d @ [udp ! 6, udp ! 7] @ msg @ drop (l4 + 8 + length msg) d"
    using split_datagram skb_load_bytes_length [OF u] by blast
  show "length (take (l4 + 6) d) = l4 + 6" using l by simp
  show "rw_has_csum rw \<longleftrightarrow> [udp ! 6, udp ! 7] \<noteq> [0, 0]"
    unfolding c num16_def by (auto simp: unat_eq_zero)
qed

section \<open>Properties\<close>

text \<open>
  C10: whatever the packet, it is changed or dropped, or an address recorded, only if it is an answer of a
  trusted resolver for a watched host, to a pod with a secret for the host; only the host's fake IP then
  has new upstreams, and the programs' other maps but for the counters stay as they are.
\<close>

theorem dns_rewrite_only_bound:
  assumes "length buf = 512" "tc_dns_rewrite csum cfg e buf skb s = (v, skb', s')"
    and "skb' \<noteq> skb \<or> v \<noteq> TC_PASS \<or> vip_upstream s' \<noteq> vip_upstream s"
  shows "\<exists>rw udp hdr ls qt rs tail. answer_packet cfg skb rw udp hdr ls qt rs tail
    \<and> (\<forall>k. k \<noteq> rw_fake rw \<longrightarrow> vip_upstream s' k = vip_upstream s k)
    \<and> vip_sock_host s' = vip_sock_host s \<and> tc_pending s' = tc_pending s \<and> xor_pending s' = xor_pending s"
proof -
  obtain rw where p: "dns_plan_packet cfg buf skb = PLAN_REWRITE rw"
    using assms(2,3) by (cases "dns_plan_packet cfg buf skb") (auto simp: tc_dns_rewrite_def)
  have r: "dns_rewrite_answer csum cfg e rw skb s = (v, skb', s')" using assms(2) p by (simp add: tc_dns_rewrite_def)
  have "(\<forall>k. k \<noteq> rw_fake rw \<longrightarrow> vip_upstream s' k = vip_upstream s k)
    \<and> vip_sock_host s' = vip_sock_host s \<and> tc_pending s' = tc_pending s \<and> xor_pending s' = xor_pending s"
    using r by (auto simp: dns_rewrite_answer_def Let_def split_beta split: if_splits)
  then show ?thesis using p unfolding dns_plan_packet_iff [OF assms(1)] by blast
qed

text \<open>
  C11: an answer to rewrite, with a real address in it, in a writable packet is delivered with the fake IP
  in place of every such address and every other byte of the message as it was; the addresses are
  recorded for the fake IP until their TTL; a checksum stays present and right (the 16-bit sum of the
  datagram does not change), an absent one stays absent.
\<close>

theorem dns_rewrite_exact:
  fixes cfg :: config and rw :: rewrite and rs :: "dns_rr list" and s :: kmaps and e :: kenv
  defines "ty \<equiv> qtype_of (rw_six rw)" and "fake \<equiv> rw_fake rw"
  defines "fakes \<equiv> map (faked (vip_config cfg) ty fake) rs"
  assumes "length buf = 512" "answer_packet cfg skb rw udp hdr ls qt rs tail" "\<exists>r \<in> set rs. rr_real (vip_config cfg) ty r"
    and "length fake = 16" "ke_room e VIP_UPSTREAM" "skb_writable skb" "length (skb_data skb) \<le> 0x7fffffff" "csum_ok csum"
  shows "\<exists>A x y x' y' D s'. length A = rw_l4_off rw + 6 \<and> skb_data skb = A @ [x, y] @ wire_reply hdr ls qt rs tail @ D
    \<and> tc_dns_rewrite csum cfg e buf skb s = (TC_PASS, skb\<lparr>skb_data := A @ [x', y'] @ wire_reply hdr ls qt fakes tail @ D\<rparr>, s')
    \<and> vip_upstream s' = (vip_upstream s)(fake \<mapsto> upstreams_after (ke_boottime e) ty (filter (rr_real (vip_config cfg) ty) rs)
        (case vip_upstream s fake of None \<Rightarrow> no_upstreams | Some up \<Rightarrow> up))
    \<and> (if [x, y] = [0, 0] then [x', y'] = [0, 0]
       else [x', y'] \<noteq> [0, 0] \<and> wsum 0 (drop (rw_l4_off rw) (A @ [x', y'] @ wire_reply hdr ls qt fakes tail)) mod 65535
         = wsum 0 (drop (rw_l4_off rw) (A @ [x, y] @ wire_reply hdr ls qt rs tail)) mod 65535)"
proof -
  let ?vc = "vip_config cfg" and ?l4 = "rw_l4_off rw" and ?d = "skb_data skb"
  let ?msg = "wire_reply hdr ls qt rs tail" and ?up0 = "case vip_upstream s fake of None \<Rightarrow> no_upstreams | Some up \<Rightarrow> up"
  define A where "A = take (?l4 + 6) ?d"
  define D where "D = drop (?l4 + 8 + length ?msg) ?d"
  define B where "B = hdr @ wire_labels ls @ 0 # qt"
  define x y where "x = udp ! 6" and "y = udp ! 7"
  have ty: "ty = DNS_TYPE_A \<or> ty = DNS_TYPE_AAAA" "rw_six rw = (ty = DNS_TYPE_AAAA)"
    by (simp_all add: ty_def qtype_of_def DNS_TYPE_A_def DNS_TYPE_AAAA_def)
  note d = answer_packet_data [OF assms(5), folded A_def D_def x_def y_def]
  obtain pod where r: "reply_for cfg pod hdr ls qt rs rw"
    using assms(5) unfolding answer_packet_def Let_def by blast
  note f = r [unfolded reply_for_def records_ok_def, folded ty_def]
  define off where "off = 17 + length (wire_labels ls)"
  have off: "length B = off" using f by (simp add: B_def off_def answer_header_def)
  have ok: "\<forall>r \<in> set rs. body_ok ty r" using f by blast
  have recs: "rw_recs rw = listed off ty rs" unfolding off_def using f by blast
  have msg: "wire_reply hdr ls qt z tail = B @ wire_rrs z @ tail" for z by (simp add: wire_reply_def B_def)
  have d1: "skb_data skb = A @ [x, y] @ B @ wire_rrs rs @ tail @ D" using d(1) unfolding msg by simp
  have "\<exists>x' y'. dns_rewrite_recs csum ?vc rw (listed off ty rs) skb
      = (True, skb\<lparr>skb_data := A @ [x', y'] @ B @ wire_rrs fakes @ tail @ D\<rparr>)
    \<and> (if rw_has_csum rw then [x', y'] \<noteq> [0, 0] \<and> (wsum 0 [x', y'] + wsum off (wire_rrs fakes)) mod 65535
        = (wsum 0 [x, y] + wsum off (wire_rrs rs)) mod 65535
      else x' = x \<and> y' = y)"
    unfolding fakes_def fake_def
    by (rule dns_rewrite_recs_ok [OF assms(11) ty(2,1) assms(7) [unfolded fake_def] d(2) assms(9,10) d1 off ok]) (use d(3) in blast)
  then obtain x' y' where w: "dns_rewrite_recs csum ?vc rw (rw_recs rw) skb
      = (True, skb\<lparr>skb_data := A @ [x', y'] @ B @ wire_rrs fakes @ tail @ D\<rparr>)"
    and c: "if rw_has_csum rw then [x', y'] \<noteq> [0, 0] \<and> (wsum 0 [x', y'] + wsum off (wire_rrs fakes)) mod 65535
        = (wsum 0 [x, y] + wsum off (wire_rrs rs)) mod 65535 else x' = x \<and> y' = y"
    unfolding recs by blast
  have lw: "length (wire_rrs fakes) = length (wire_rrs rs)"
    unfolding fakes_def by (rule length_wire_rrs_faked [OF assms(7) ty(1) ok])
  have u: "length (drop ?l4 A) = 6" using d(2) by simp
  have a: "drop ?l4 (A @ z) = drop ?l4 A @ z" for z using d(2) by simp
  have cs: "wsum 0 (drop ?l4 (A @ [x', y'] @ wire_reply hdr ls qt fakes tail)) mod 65535
      = wsum 0 (drop ?l4 (A @ [x, y] @ ?msg)) mod 65535" if "rw_has_csum rw"
    unfolding a msg wsum_datagram [OF u] lw off
    by (rule mod_add_cong [OF refl]) (use c that in \<open>simp only: if_True\<close>)
  have p: "dns_plan_packet cfg buf skb = PLAN_REWRITE rw"
    unfolding dns_plan_packet_iff [OF assms(4)] using assms(5) by blast
  have ra: "dns_record_addrs ?vc (ke_boottime e) (rw_six rw) (rw_recs rw) ?up0
      = (upstreams_after (ke_boottime e) ty (filter (rr_real ?vc ty) rs) ?up0, True)"
    unfolding recs ty(2) using dns_record_addrs_listed [OF ty(1) ok] assms(6) by simp
  let ?s = "s\<lparr>vip_upstream := map_put True fake (upstreams_after (ke_boottime e) ty (filter (rr_real ?vc ty) rs) ?up0) (vip_upstream s)\<rparr>"
  have res: "tc_dns_rewrite csum cfg e buf skb s
      = (TC_PASS, skb\<lparr>skb_data := A @ [x', y'] @ wire_reply hdr ls qt fakes tail @ D\<rparr>, dbg_inc DBG_VIP_DNS_REWRITTEN ?s)"
    unfolding msg using p w ra assms(8) by (simp add: tc_dns_rewrite_def dns_rewrite_answer_def Let_def flip: fake_def)
  have up: "vip_upstream (dbg_inc DBG_VIP_DNS_REWRITTEN ?s)
      = (vip_upstream s)(fake \<mapsto> upstreams_after (ke_boottime e) ty (filter (rr_real ?vc ty) rs) ?up0)"
    by (simp add: map_put_def)
  have sum: "if [x, y] = [0, 0] then [x', y'] = [0, 0]
       else [x', y'] \<noteq> [0, 0] \<and> wsum 0 (drop ?l4 (A @ [x', y'] @ wire_reply hdr ls qt fakes tail)) mod 65535
         = wsum 0 (drop ?l4 (A @ [x, y] @ ?msg)) mod 65535"
  proof (cases "[x, y] = [0, 0]")
    case True
    then have "\<not> rw_has_csum rw" using d(3) by blast
    then show ?thesis using c True by simp
  next
    case False
    then have "rw_has_csum rw" using d(3) by blast
    then show ?thesis unfolding if_not_P [OF False] using c cs by presburger
  qed
  show ?thesis
    by (rule exI [of _ A], rule exI [of _ x], rule exI [of _ y], rule exI [of _ x'], rule exI [of _ y'], rule exI [of _ D],
      rule exI, intro conjI, rule d(2), rule d(1), rule res, rule up, rule sum)
qed

text \<open>An answer for \<open>ab\<close> with one address, 1.2.3.4, as a packet; and a checksum update.\<close>

definition example_rr :: dns_rr where
  "example_rr = \<lparr>rr_labels = [], rr_end = [0xC0, 12], rr_fixed = [0, 1, 0, 1, 0, 0, 0, 60], rr_data = [1, 2, 3, 4]\<rparr>"

definition example_hdr :: bytes where "example_hdr = [0x12, 0x34, 0x81, 0x80, 0, 1, 0, 1, 0, 0, 0, 0]"

definition example_udp :: bytes where "example_udp = [0, 53, 0x9C, 0x40, 0, 44, 0x12, 0x34]"

definition dns_skb :: "bool \<Rightarrow> sk_buff" where
  "dns_skb w = \<lparr>skb_data = [0x45, 0, 0, 0, 0, 0, 0, 0, 64, 17, 0, 0, 10, 0, 0, 53, 10, 0, 0, 9] @ example_udp
       @ wire_reply example_hdr [[0x61, 0x62]] [0, 1, 0, 1] [example_rr] [],
     skb_headlen = 64, skb_protocol = 8, skb_sk = None, skb_cgroup_id = 0, skb_writable = w\<rparr>"

definition example_rewrite :: rewrite where
  "example_rewrite = \<lparr>rw_l4_off = 20, rw_has_csum = True, rw_six = False, rw_fake = fake_ip,
     rw_recs = [\<lparr>dr_off = 32, dr_ttl = 60, dr_ip = [1, 2, 3, 4] @ replicate 12 0\<rparr>]\<rparr>"

definition example_csum :: csum_fun where
  "example_csum c f t = of_nat ((unat c + unat f + 65535 * 65538 - unat t) mod 65535)"

lemma example_csum_ok: "csum_ok example_csum"
proof -
  have "(unat (example_csum c f t) + unat t) mod 65535 = (unat c + unat f) mod 65535" for c f t
  proof -
    have "unat t < 4294967296" using unsigned_less [of t] by simp
    then have t: "unat t \<le> 65535 * 65538" by simp
    have "(unat c + unat f + 65535 * 65538 - unat t) mod 65535 < 65536"
      by (rule less_trans [OF mod_less_divisor]) simp_all
    then have "unat (example_csum c f t) = (unat c + unat f + 65535 * 65538 - unat t) mod 65535"
      by (simp add: example_csum_def unat_of_nat)
    then have "(unat (example_csum c f t) + unat t) mod 65535 = ((unat c + unat f + 65535 * 65538 - unat t) + unat t) mod 65535"
      by (simp only: mod_add_left_eq)
    also have "(unat c + unat f + 65535 * 65538 - unat t) + unat t = unat c + unat f + 65535 * 65538" using t by simp
    finally show ?thesis by (simp only: mod_mult_self2)
  qed
  then show ?thesis by (simp add: csum_ok_def)
qed

lemma example_reply_for: "reply_for vip_cfg (ipv4_to_mapped [10, 0, 0, 9]) example_hdr [[0x61, 0x62]] [0, 1, 0, 1] [example_rr] example_rewrite"
proof -
  have h: "pad_host (dotted [[0x61, 0x62]]) = pad_host [97, 98]" by code_simp
  have "question_ok [[0x61, 0x62]]" by code_simp
  moreover have "records_ok 20 DNS_TYPE_A [example_rr]"
    by (simp add: records_ok_def example_rr_def owner_ok_def body_ok_def rr_wanted_def rr_addr_def num16_def dns_addr_len_def
        DNS_TYPE_A_def DNS_CLASS_IN_def rr_steps_def DNS_SCAN_STEPS_def DNS_MAX_ADDR_RECORDS_def)
  moreover have "answer_header example_hdr 1" by code_simp
  moreover have "listed 20 DNS_TYPE_A [example_rr] = rw_recs example_rewrite"
    by (simp add: example_rr_def rr_wanted_def rr_addr_def num16_def dns_addr_len_def wire_owner_def example_rewrite_def
        DNS_TYPE_A_def DNS_CLASS_IN_def)
  ultimately show ?thesis
    unfolding reply_for_def h using example_in_range
    by (simp add: qtype_of_def num16_def example_rewrite_def vip_cfg_def host_fake_def pod_has_secret_def fake_ip_def DNS_TYPE_A_def)
qed

lemma example_answer_packet:
  "answer_packet vip_cfg (dns_skb w) example_rewrite example_udp example_hdr [[0x61, 0x62]] [0, 1, 0, 1] [example_rr] []"
proof -
  have "vc_mask4 (vip_config vip_cfg) \<noteq> 0" by code_simp
  moreover have "dns_ip_header (dns_skb w) = Some (ipv4_to_mapped [10, 0, 0, 53], ipv4_to_mapped [10, 0, 0, 9], 20)"
    unfolding dns_skb_def by code_simp
  moreover have "dns_server_trusted vip_cfg ip" for ip by (simp add: dns_server_trusted_def vip_cfg_def)
  moreover have "skb_load_bytes (dns_skb w) 20 8 = Some example_udp" unfolding dns_skb_def by code_simp
  moreover have "length (wire_reply example_hdr [[0x61, 0x62]] [0, 1, 0, 1] [example_rr] []) = 36" by code_simp
  moreover have "skb_load_bytes (dns_skb w) 28 36 = Some (wire_reply example_hdr [[0x61, 0x62]] [0, 1, 0, 1] [example_rr] [])"
    unfolding dns_skb_def by code_simp
  moreover have "num16 example_udp 0 = 53 \<and> num16 example_udp 4 = 44 \<and> num16 example_udp 6 \<noteq> 0" by code_simp
  ultimately show ?thesis
    using example_reply_for by (simp add: answer_packet_def example_rewrite_def MAX_DNS_PKT_def Let_def)
qed

lemma example_real: "rr_real (vip_config vip_cfg) DNS_TYPE_A example_rr"
  by code_simp

theorem dns_rewrite_only_bound_witness:
  "tc_dns_rewrite example_csum vip_cfg (example_env (\<lambda>_. None)) (replicate 512 0) (dns_skb False) example_kmaps
     = (TC_ACT_SHOT, dns_skb False, snd (snd (tc_dns_rewrite example_csum vip_cfg (example_env (\<lambda>_. None)) (replicate 512 0)
         (dns_skb False) example_kmaps)))
   \<and> (\<exists>rw udp hdr ls qt rs tail. answer_packet vip_cfg (dns_skb False) rw udp hdr ls qt rs tail)"
proof -
  let ?e = "example_env (\<lambda>_. None)"
  have ty: "DNS_TYPE_A = DNS_TYPE_A \<or> DNS_TYPE_A = DNS_TYPE_AAAA" by simp
  have six: "(DNS_TYPE_A = DNS_TYPE_AAAA) = rw_six example_rewrite"
    by (simp add: example_rewrite_def DNS_TYPE_A_def DNS_TYPE_AAAA_def)
  have ok: "\<forall>r \<in> set [example_rr]. body_ok DNS_TYPE_A r"
    using example_reply_for by (simp add: reply_for_def records_ok_def example_rewrite_def qtype_of_def)
  have recs: "rw_recs example_rewrite = listed 20 DNS_TYPE_A [example_rr]"
    using example_reply_for by (simp add: reply_for_def example_rewrite_def qtype_of_def)
  have p: "dns_plan_packet vip_cfg (replicate 512 0) (dns_skb False) = PLAN_REWRITE example_rewrite"
    using dns_plan_packet_iff [of "replicate 512 0"] example_answer_packet by (simp, blast)
  have ra: "snd (dns_record_addrs (vip_config vip_cfg) now (rw_six example_rewrite) (rw_recs example_rewrite) up)" for now up
    unfolding recs six [symmetric] dns_record_addrs_listed [OF ty ok] using example_real by simp
  have "\<not> skb_can_store (dns_skb False) at n" for at n by (simp add: skb_can_store_def dns_skb_def)
  then have nw: "vip_rewrite_addr csum at off sw hc from to six (dns_skb False) = (False, dns_skb False)" for csum at off sw hc "from" to six
    by (simp add: vip_rewrite_addr_def)
  have "\<not> vip_addr_in_range (vip_config vip_cfg) (vip_record_addr (hd (rw_recs example_rewrite)) False)" by code_simp
  then have w: "dns_rewrite_recs example_csum (vip_config vip_cfg) example_rewrite (rw_recs example_rewrite) (dns_skb False) = (False, dns_skb False)"
    by (simp add: example_rewrite_def nw)
  obtain s' where r: "tc_dns_rewrite example_csum vip_cfg ?e (replicate 512 0) (dns_skb False) example_kmaps = (TC_ACT_SHOT, dns_skb False, s')"
    using ra w by (simp add: tc_dns_rewrite_def p dns_rewrite_answer_def Let_def split_beta example_env_def)
  show ?thesis
  proof
    show "tc_dns_rewrite example_csum vip_cfg ?e (replicate 512 0) (dns_skb False) example_kmaps
      = (TC_ACT_SHOT, dns_skb False, snd (snd (tc_dns_rewrite example_csum vip_cfg ?e (replicate 512 0) (dns_skb False) example_kmaps)))"
      using r by simp
    have "length (replicate 512 (0 :: u8)) = 512" "dns_skb False \<noteq> dns_skb False \<or> TC_ACT_SHOT \<noteq> TC_PASS
        \<or> vip_upstream s' \<noteq> vip_upstream example_kmaps" by simp_all
    from dns_rewrite_only_bound [OF this(1) r this(2)]
    show "\<exists>rw udp hdr ls qt rs tail. answer_packet vip_cfg (dns_skb False) rw udp hdr ls qt rs tail" by blast
  qed
qed

theorem dns_rewrite_exact_witness:
  "\<exists>skb' s'. tc_dns_rewrite example_csum vip_cfg (example_env (\<lambda>_. None)) (replicate 512 0) (dns_skb True) example_kmaps
      = (TC_PASS, skb', s') \<and> drop 60 (skb_data skb') = [198, 18, 0, 5] \<and> vip_upstream s' fake_ip \<noteq> None"
proof -
  let ?rs = "map (faked (vip_config vip_cfg) (qtype_of False) fake_ip) [example_rr]"
  let ?m = "\<lambda>rs. wire_reply example_hdr [[0x61, 0x62]] [0, 1, 0, 1] rs []"
  have rw: "rw_six example_rewrite = False" "rw_fake example_rewrite = fake_ip" "rw_l4_off example_rewrite = 20"
    by (simp_all add: example_rewrite_def)
  have real: "\<exists>r \<in> set [example_rr]. rr_real (vip_config vip_cfg) (qtype_of (rw_six example_rewrite)) r"
    using example_real by (simp add: qtype_of_def rw)
  have f: "length (rw_fake example_rewrite) = 16" by (simp add: rw fake_ip_def ipv4_to_mapped_def)
  have m: "length (?m [example_rr]) = 36" "drop 32 (?m ?rs) = [198, 18, 0, 5]" "length (?m ?rs) = 36" by code_simp+
  have d: "length (skb_data (dns_skb True)) = 64" by (simp add: dns_skb_def m example_udp_def)
  have w: "skb_writable (dns_skb True)" "ke_room (example_env (\<lambda>_. None)) VIP_UPSTREAM" "length (skb_data (dns_skb True)) \<le> 0x7fffffff"
    using d by (simp_all add: dns_skb_def example_env_def)
  obtain A x y x' y' D s' where r: "length A = 20 + 6" "skb_data (dns_skb True) = A @ [x, y] @ ?m [example_rr] @ D"
      "tc_dns_rewrite example_csum vip_cfg (example_env (\<lambda>_. None)) (replicate 512 0) (dns_skb True) example_kmaps
        = (TC_PASS, (dns_skb True)\<lparr>skb_data := A @ [x', y'] @ ?m ?rs @ D\<rparr>, s')" "vip_upstream s' fake_ip \<noteq> None"
    using dns_rewrite_exact [OF _ example_answer_packet real f w(2,1,3) example_csum_ok, of "replicate 512 0" example_kmaps]
    unfolding rw by auto
  have "D = []" using arg_cong [OF r(2), of length] d m(1) r(1) by simp
  then have "drop 60 (A @ [x', y'] @ ?m ?rs @ D) = [198, 18, 0, 5]" using r(1) m(2) by simp
  then show ?thesis using r(3,4) by auto
qed

end
