(* ===== verification/Data_Events.thy ===== *)
theory Data_Events
  imports Send_Bridge Vip_Connect Dns_Rewrite
begin

text \<open>
  The programs of \<open>tls_uprobe.c\<close> together: the events of a node as one datatype, what they do to the
  maps, and which maps each of them leaves alone.

  The programs run one after the other here, each to its end with those it tail-calls.
\<close>

section \<open>Events\<close>

text \<open>An entry of an LRU map, which an update of the map may evict.\<close>

datatype lru_entry = LRU_CONN_IP conn_ip_key | LRU_EVP_H evp_h_key | LRU_CONN_STATE tls_conn_key | LRU_SNI u64
  | LRU_TC_PENDING tc_dest_key | LRU_TC_TAG tc_dest_key | LRU_SOCK_HOST u64 | LRU_SOCK_DST u64

fun evict :: "lru_entry \<Rightarrow> kmaps \<Rightarrow> kmaps" where
  "evict (LRU_CONN_IP k) s = s\<lparr>conn_ip_map := map_del k (conn_ip_map s)\<rparr>"
| "evict (LRU_EVP_H k) s = s\<lparr>evp_h_cache := map_del k (evp_h_cache s)\<rparr>"
| "evict (LRU_CONN_STATE k) s = s\<lparr>tls_conn_state := map_del k (tls_conn_state s)\<rparr>"
| "evict (LRU_SNI k) s = s\<lparr>sni_state := map_del k (sni_state s)\<rparr>"
| "evict (LRU_TC_PENDING k) s = s\<lparr>tc_pending := map_del k (tc_pending s)\<rparr>"
| "evict (LRU_TC_TAG k) s = s\<lparr>tc_tag_pending := map_del k (tc_tag_pending s)\<rparr>"
| "evict (LRU_SOCK_HOST k) s = s\<lparr>vip_sock_host := map_del k (vip_sock_host s)\<rparr>"
| "evict (LRU_SOCK_DST k) s = s\<lparr>vip_sock_dst := map_del k (vip_sock_dst s)\<rparr>"

datatype dp_event = Syscall conn_event | Exec kenv bool u32 | Exit u32
  | Evp_Init kenv u64 | Evp_Init_Return kenv
  | Ssl_Write kenv u64 u64 u32 | Go_Write kenv u64 u64 u64
  | Send_Hello kenv u64 "iov_iter option" | Send kenv u64 | Sock_State kenv u16 u32 u64
  | Egress bool sk_buff | Dns_Answer csum_fun kenv bytes sk_buff
  | Connect_Hook family kenv sock_addr | Evict lru_entry

fun dp_run :: "config \<Rightarrow> dp_event \<Rightarrow> kmaps \<Rightarrow> kmaps" where
  "dp_run cfg (Syscall ev) s = conn_track ev s"
| "dp_run cfg (Exec e anc tgid) s = tp_sched_process_exec e anc tgid s"
| "dp_run cfg (Exit tgid) s = tp_sched_process_exit tgid s"
| "dp_run cfg (Evp_Init e ctx) s = bpf_uprobe_evp_cipher_init e ctx s"
| "dp_run cfg (Evp_Init_Return e) s = bpf_uretprobe_evp_cipher_init cfg e s"
| "dp_run cfg (Ssl_Write e ssl a n) s = run_write cfg e (bpf_uprobe_ssl_write cfg e ssl a n s)"
| "dp_run cfg (Go_Write e conn a n) s = run_write cfg e (bpf_uprobe_go_tls_write e conn a n s)"
| "dp_run cfg (Send_Hello e sk msg) s = bpf_kprobe_tcp_sendmsg_sni e sk msg s"
| "dp_run cfg (Send e sk) s = bpf_kprobe_tcp_sendmsg cfg e sk s"
| "dp_run cfg (Sock_State e proto st sk) s = tp_inet_sock_set_state e proto st sk s"
| "dp_run cfg (Egress tail skb) s = snd (tc_egress_patch tail skb s)"
| "dp_run cfg (Dns_Answer csum e buf skb) s = snd (snd (tc_dns_rewrite csum cfg e buf skb s))"
| "dp_run cfg (Connect_Hook f e ctx) s = snd (snd (vip_connect f cfg e ctx s))"
| "dp_run cfg (Evict x) s = evict x s"

abbreviation dp_exec :: "config \<Rightarrow> dp_event list \<Rightarrow> kmaps \<Rightarrow> kmaps" where
  "dp_exec cfg evs s \<equiv> fold (dp_run cfg) evs s"

section \<open>What the egress programs leave alone\<close>

lemma bpf_loop_keeps:
  assumes "\<And>i s. g (snd (f i s)) = g s"
  shows "g (bpf_loop n f s) = g s"
proof -
  have "g (bpf_loop_from n i f s) = g s" for i
    by (induction n arbitrary: i s) (auto simp: assms split_beta Let_def)
  then show ?thesis by (simp add: bpf_loop_def)
qed

lemma more_upd_work [simp]: "ghash_cpu.more (upd_work f s) = ghash_cpu.more s"
  by (simp add: upd_work_def)

lemma more_mul_loop [simp]: "ghash_cpu.more (gf128_mul_loop a v s) = ghash_cpu.more s"
  unfolding gf128_mul_loop_def by (subst bpf_loop_keeps) (auto simp: gf128_mul_iter_def Let_def split_beta)

lemma more_ghash_callbacks [simp]:
  "ghash_cpu.more (snd (copy_h_power_step i s)) = ghash_cpu.more s"
  "ghash_cpu.more (snd (h_power_step i s)) = ghash_cpu.more s"
  by (auto simp: copy_h_power_step_def h_power_step_def Let_def split: option.split)

lemma more_ghash_block [simp]: "ghash_cpu.more (snd (ghash_block_iter i s)) = ghash_cpu.more s"
  by (simp add: ghash_block_iter_def Let_def bpf_loop_keeps [where g = ghash_cpu.more])

lemma more_ghash_patch [simp]: "ghash_cpu.more (snd (ghash_patch_iter i s)) = ghash_cpu.more s"
  by (simp add: ghash_patch_iter_def Let_def bpf_loop_keeps [where g = ghash_cpu.more])

lemma tc_more_cong: "ghash_cpu.more s = ghash_cpu.more t \<Longrightarrow> tc_pending s = tc_pending t \<and> tc_maps.more s = tc_maps.more t"
  by (cases s; cases t) simp

lemma ghash_update_frame:
  "tc_pending (snd (tc_ghash_update skb s)) = tc_pending s \<and> tc_maps.more (snd (tc_ghash_update skb s)) = tc_maps.more s"
proof -
  have tag: "tc_pending (snd (tc_ghash_tag skb off t)) = tc_pending t \<and> tc_maps.more (snd (tc_ghash_tag skb off t)) = tc_maps.more t"
    for off and t :: "'a tc_maps_scheme"
    by (auto simp: tc_ghash_tag_def Let_def upd_work_def split: option.split)
  let ?s1 = "upd_work (\<lambda>w. w\<lparr>ghash_active := False\<rparr>) s"
  let ?s2 = "bpf_loop 11 copy_h_power_step ?s1"
  have "ghash_cpu.more (bpf_loop n ghash_patch_iter (upd_work f ?s2)) = ghash_cpu.more s" for n f
    by (simp add: bpf_loop_keeps [where g = ghash_cpu.more])
  from tc_more_cong [OF this] show ?thesis
    using tag by (simp add: tc_ghash_update_def Let_def)
qed

lemma apply_patches_frame:
  assumes "tc_apply_patches po rl nl pc skb s = (skb', s', applied)"
  shows "tc_pending s' = tc_pending s \<and> tc_maps.more s' = tc_maps.more s"
proof -
  have step: "tc_pending (fst (snd (tc_apply_patch po rl nl p st))) = tc_pending (fst (snd st))
      \<and> tc_maps.more (fst (snd (tc_apply_patch po rl nl p st))) = tc_maps.more (fst (snd st))" for p and st :: "sk_buff \<times> 'a tc_maps_scheme \<times> nat"
    by (cases st) (auto simp: tc_apply_patch_def Let_def upd_work_def upd_patch_def dbg_inc_def split: option.split)
  have "tc_pending (fst (snd (fold (tc_apply_patch po rl nl) ps st))) = tc_pending (fst (snd st))
      \<and> tc_maps.more (fst (snd (fold (tc_apply_patch po rl nl) ps st))) = tc_maps.more (fst (snd st))" for ps and st :: "sk_buff \<times> 'a tc_maps_scheme \<times> nat"
    by (induction ps arbitrary: st) (auto simp: step)
  from this [of "[0..<pc]" "(skb, s, 0)"] show ?thesis using assms by (simp add: tc_apply_patches_def)
qed

text \<open>An egress run only marks entries of \<open>tc_pending\<close> as used.\<close>

definition used :: "tc_pending_val option \<Rightarrow> tc_pending_val option" where
  "used x = map_option (\<lambda>v. v\<lparr>tp_active := False\<rparr>) x"

lemma patch_record_frame:
  defines "r \<equiv> \<lambda>tail skb seg pending po rl nl s. snd (tc_patch_record tail skb seg pending po rl nl s)"
  shows "used (tc_pending (r tail skb seg pending po rl nl s) k) = used (tc_pending s k)
    \<and> tc_maps.more (r tail skb seg pending po rl nl s) = tc_maps.more s"
proof -
  let ?s1 = "tc_stage seg pending po rl nl s"
  obtain skb' s2 n where a: "tc_apply_patches po rl nl (unat (xp_patch_count (staged_pending (ghash_scratch ?s1)))) skb ?s1 = (skb', s2, n)"
    by (metis prod.collapse)
  have "tc_pending ?s1 = tc_pending s" "tc_maps.more ?s1 = tc_maps.more s" by (simp_all add: tc_stage_def upd_work_def Let_def)
  then show ?thesis
    using apply_patches_frame [OF a] a
    by (auto simp: r_def tc_patch_record_def Let_def used_def ghash_update_frame [THEN conjunct1]
        ghash_update_frame [THEN conjunct2] split: option.split)
qed

lemma egress_frame:
  "used (tc_pending (snd (tc_egress_patch tail skb s)) k) = used (tc_pending s k)
    \<and> tc_maps.more (snd (tc_egress_patch tail skb s)) = tc_maps.more s"
proof -
  have c: "tc_pending (dbg_inc i t) = tc_pending t" "tc_maps.more (dbg_inc i t) = tc_maps.more t" for i and t :: "'a tc_maps_scheme"
    by (simp_all add: dbg_inc_def)
  have d: "tc_pending (snd (tc_deferred_tag skb seg tag t)) = tc_pending t" "tc_maps.more (snd (tc_deferred_tag skb seg tag t)) = tc_maps.more t"
    for seg tag and t :: "'a tc_maps_scheme"
    by (simp_all add: tc_deferred_tag_def Let_def)
  show ?thesis
    by (simp add: tc_egress_patch_def Let_def split_beta c d patch_record_frame [THEN conjunct1]
        patch_record_frame [THEN conjunct2] split: option.split del: tc_first_record.simps)
qed

text \<open>The maps the egress programs do not have.\<close>

lemma kmaps_more_cong:
  fixes s t :: kmaps
  assumes "tc_maps.more s = tc_maps.more t"
  shows "xor_pending s = xor_pending t" "scratch s = scratch t" "sni_state s = sni_state t" "vip_upstream s = vip_upstream t"
    "vip_sock_host s = vip_sock_host t" "vip_sock_dst s = vip_sock_dst t" "vip_sock s = vip_sock t"
  using assms by (cases s; cases t; simp)+

lemmas egress_keeps = kmaps_more_cong [OF egress_frame [THEN conjunct2]]

section \<open>What a write does\<close>

lemma prescan_scan_keeps:
  "scratch_ok (scratch s) \<Longrightarrow> scratch_ok (scratch (prescan_scan n i off s)) \<and> no_scan (prescan_scan n i off s) = no_scan s"
proof (induction n arbitrary: i s)
  case (Suc n)
  let ?sd = "scratch s"
  let ?m = "\<lparr>xm_pos = off + of_nat i, xm_key = take SECRET_KEY_LEN (drop (i mod MAX_DATA_SIZE) (sb_data ?sd))\<rparr>"
  let ?sd' = "?sd\<lparr>sb_xor_matches := (sb_xor_matches ?sd)[unat (sb_xor_match_count ?sd) := ?m],
      sb_xor_match_count := sb_xor_match_count ?sd + 1\<rparr>"
  let ?s = "dbg_inc DBG_XOR_PRESCAN_MATCH (s\<lparr>scratch := ?sd'\<rparr>)"
  show ?case
  proof (cases "unat (sb_xor_match_count ?sd) < XOR_MAX_MATCHES")
    case True
    then have "scratch_ok (scratch ?s)" using found_push(2) [OF Suc.prems True] by simp
    moreover have "no_scan ?s = no_scan s" by (simp add: no_scan_def dbg_inc_def)
    ultimately show ?thesis using Suc.IH [of ?s "Suc i"] Suc.IH [OF Suc.prems, of "Suc i"] True by (simp add: Let_def)
  qed (use Suc.prems in \<open>simp add: Let_def\<close>)
qed simp

lemma prescan_chunk_keeps:
  assumes "scratch_ok (scratch s)"
  shows "scratch_ok (scratch (snd (prescan_chunk mem a n i s))) \<and> no_scan (snd (prescan_chunk mem a n i s)) = no_scan s"
proof -
  let ?bs = "\<lambda>r off. snd (probe_read_user mem (min r MAX_DATA_SIZE) (a + off))"
  let ?t = "\<lambda>r off. s\<lparr>scratch := (scratch s)\<lparr>sb_data := put_at 0 (?bs r off) (sb_data (scratch s))\<rparr>\<rparr>"
  have "scratch_ok (scratch (?t r off))" for r off using assms by (simp add: scratch_ok_def)
  moreover have "no_scan (?t r off) = no_scan s" for r off by (simp add: no_scan_def)
  ultimately show ?thesis
    using assms prescan_scan_keeps by (simp add: prescan_chunk_def Let_def)
qed

lemma bpf_loop_from_keeps:
  assumes "P s" "\<And>j t. P t \<Longrightarrow> P (snd (f j t))"
  shows "P (bpf_loop_from n i f s)"
  using assms(1) by (induction n arbitrary: i s) (auto simp: split_beta Let_def assms(2))

text \<open>A scanned write is ready for \<open>bpf_xor_path\<close>, whatever memory held.\<close>

lemma scan_write_ready:
  fixes mb :: bool and chain :: chain_type and n r :: u32 and a ssl :: u64 and e :: kenv
  assumes "scratch_shape (scratch s)"
  defines "s' \<equiv> scan_write e ssl a r n chain mb s"
  shows "scratch_ok (scratch s')" "sb_xor_current_match (scratch s') = 0" "net_part s' = net_part s" "xor_pending s' = xor_pending s"
proof -
  define bs where "bs r = snd (probe_read_user (ke_mem e) (unat r) a)" for r :: u32
  define s0 where "s0 r = dbg_inc DBG_XOR_CONN_CHECK (s\<lparr>scratch := (scratch s)\<lparr>
            sb_data := put_at 0 (bs r) (sb_data (scratch s)),
            sb_user_data_ptr := a, sb_read_len := r, sb_total_data_len := n,
            sb_memory_bio := mb, sb_ssl_ptr := ssl, sb_chain_type := chain, sb_h_fresh := False,
            sb_xor_match_count := 0, sb_xor_current_match := 0\<rparr>\<rparr>)" for r
  let ?r = "if r > of_nat MAX_DATA_SIZE then of_nat MAX_DATA_SIZE else r"
  have "unat ?r \<le> MAX_DATA_SIZE" by (simp add: MAX_DATA_SIZE_def word_less_nat_alt)
  then have ok0: "scratch_ok (scratch (s0 ?r))"
    using assms(1) by (simp add: s0_def bs_def scratch_ok_def scratch_shape_def)
  have run: "\<exists>k. s' = bpf_loop k (prescan_chunk (ke_mem e) a n) (s0 ?r)"
    unfolding s'_def scan_write_def s0_def bs_def Let_def by blast
  have "scratch_ok (scratch (bpf_loop k (prescan_chunk (ke_mem e) a n) (s0 ?r)))
      \<and> no_scan (bpf_loop k (prescan_chunk (ke_mem e) a n) (s0 ?r)) = no_scan (s0 ?r)" for k
  proof -
    have "(\<lambda>t. scratch_ok (scratch t) \<and> no_scan t = no_scan (s0 ?r)) (bpf_loop_from k 0 (prescan_chunk (ke_mem e) a n) (s0 ?r))"
      by (rule bpf_loop_from_keeps) (use ok0 prescan_chunk_keeps in auto)
    then show ?thesis using ok0 by (simp add: bpf_loop_def)
  qed
  then have k: "scratch_ok (scratch s')" "no_scan s' = no_scan (s0 ?r)" using run by auto
  show "scratch_ok (scratch s')" by (rule k(1))
  show "sb_xor_current_match (scratch s') = 0"
    using arg_cong [OF k(2), of "\<lambda>s. sb_xor_current_match (scratch s)"] by (simp add: no_scan_def s0_def)
  show "net_part s' = net_part s" using net_part_no_scan [OF k(2)] by (simp add: s0_def net_part_def)
  show "xor_pending s' = xor_pending s"
    using arg_cong [OF k(2), of xor_pending] by (simp add: no_scan_def s0_def)
qed

text \<open>The patches an entry of \<open>xor_pending\<close> holds, and where they come from.\<close>

definition held :: "xor_pending_val \<Rightarrow> xor_patch list" where
  "held p = take (unat (xp_patch_count p)) (xp_patches p)"

definition staged_in :: "config \<Rightarrow> kenv \<Rightarrow> xor_pending_val \<Rightarrow> bool" where
  "staged_in cfg e p \<longleftrightarrow> slots_ok p \<and> (\<forall>q \<in> set (held p). \<exists>a m. q \<in> set (patch_of cfg e a m))"

lemma staged_in_put:
  assumes "length ms \<le> XOR_MAX_PATCHES"
  shows "staged_in cfg e (put_patches (patches_of cfg e a ms) p)"
proof -
  let ?ps = "patches_of cfg e a ms"
  have l: "length ?ps \<le> 4" using length_patches_of [of cfg e a ms] assms by (simp add: XOR_MAX_PATCHES_def)
  then have "held (put_patches ?ps p) = ?ps" by (simp add: held_def put_patches_def)
  moreover have "\<forall>q \<in> set ?ps. \<exists>a m. q \<in> set (patch_of cfg e a m)" by (auto simp: patches_of_def)
  ultimately show ?thesis using l by (simp add: staged_in_def slots_ok_def put_patches_def XOR_MAX_PATCHES_def)
qed

text \<open>Of the rest of the state a write changes nothing that decides what leaves on which socket.\<close>

definition write_done :: "config \<Rightarrow> kenv \<Rightarrow> kmaps \<Rightarrow> kmaps \<Rightarrow> bool" where
  "write_done cfg e s s' \<longleftrightarrow> net_part s' = net_part s \<and> scratch_shape (scratch s')
     \<and> (\<forall>t p. xor_pending s' t = Some p \<longrightarrow> xor_pending s t = Some p \<or> t = cur_tgid e \<and> staged_in cfg e p)"

lemma xor_path_done:
  assumes "scratch_ok (scratch s)" "sb_xor_current_match (scratch s) = 0" "4 \<le> fuel"
  shows "write_done cfg e s (xor_path_run fuel cfg e s)"
proof -
  let ?s' = "xor_path_run fuel cfg e s" and ?ms = "found (scratch s)"
  have l: "length ?ms \<le> XOR_MAX_PATCHES"
    using assms(1) length_found [OF assms(1)] by (simp add: scratch_ok_def XOR_MAX_MATCHES_def XOR_MAX_PATCHES_def)
  have "unat (sb_xor_match_count (scratch s)) \<le> fuel" using assms(1,3) by (simp add: scratch_ok_def XOR_MAX_MATCHES_def)
  then have r: "xor_pending ?s' = deposit e (patches_of cfg e (sb_user_data_ptr (scratch s)) ?ms) (xor_stage_init e s) (xor_pending s)"
      "no_path ?s' = no_path s"
    using xor_path_run_spec [OF assms(1,2), of fuel cfg e] assms(3) by simp_all
  have "scratch_shape (scratch (no_path t)) = scratch_shape (scratch t)" for t
    by (simp add: no_path_def no_report_def scratch_shape_def)
  then have "scratch_shape (scratch ?s') = scratch_shape (scratch s)" using r(2) by metis
  moreover have "scratch_shape (scratch s)" using assms(1) by (simp add: scratch_ok_def scratch_shape_def)
  ultimately show ?thesis
    using net_part_no_path [OF r(2)] r(1) staged_in_put [OF l]
    by (auto simp: write_done_def deposit_def map_put_def split: if_splits)
qed

lemma run_write_done:
  assumes "scratch_ok (scratch s)" "sb_xor_current_match (scratch s) = 0"
  shows "write_done cfg e s (run_write cfg e (t, s))"
proof -
  have same: "write_done cfg e s s" using assms by (simp add: write_done_def scratch_ok_def scratch_shape_def)
  have path: "write_done cfg e s (xor_path_run fuel cfg e s')"
    if "net_part s' = net_part s" "xor_pending s' = xor_pending s" "4 \<le> fuel"
      "scratch s' = (scratch s)\<lparr>sb_h_fresh := b\<rparr>" for s' fuel b
  proof -
    have "scratch_ok (scratch s')" "sb_xor_current_match (scratch s') = 0"
      using assms that(4) by (simp_all add: scratch_ok_def)
    from xor_path_done [OF this that(3), of cfg e] show ?thesis using that(1,2) by (simp add: write_done_def)
  qed
  show ?thesis
  proof (cases t)
    case NO_TAIL_CALL
    then show ?thesis using same by (simp add: run_write_def)
  next
    case TAIL_XOR_PATH
    then show ?thesis using path [of s 33 "sb_h_fresh (scratch s)"] by (simp add: run_write_def MAX_TAIL_CALLS_def)
  next
    case TAIL_H_EXTRACT
    obtain again s' where h: "bpf_h_extract cfg e s = (again, s')" by fastforce
    note f = h_extract_frame [OF h]
    show ?thesis
    proof (cases again)
      case True
      then show ?thesis
        using path [of s' 32 True] f h TAIL_H_EXTRACT by (simp add: run_write_def MAX_TAIL_CALLS_def)
    next
      case False
      then show ?thesis
        using same f h TAIL_H_EXTRACT by (simp add: run_write_def write_done_def)
    qed
  qed
qed

lemma write_event_done:
  assumes "scratch_shape (scratch s)"
  shows "write_done cfg e s (dp_run cfg (Ssl_Write e ssl a n) s)" "write_done cfg e s (dp_run cfg (Go_Write e ssl a len) s)"
proof -
  have same: "write_done cfg e s s" using assms by (simp add: write_done_def)
  have w: "write_done cfg e s (run_write cfg e (t, scan_write e ssl a r k chain mb s))" for t r k chain mb
    using run_write_done [OF scan_write_ready(1,2) [OF assms]] scan_write_ready(3,4) [OF assms]
    by (simp add: write_done_def)
  show "write_done cfg e s (dp_run cfg (Ssl_Write e ssl a n) s)"
    using same w by (auto simp: bpf_uprobe_ssl_write_def Let_def run_write_def [of cfg e "(NO_TAIL_CALL, s)"] split: option.split)
  show "write_done cfg e s (dp_run cfg (Go_Write e ssl a len) s)"
    using same w by (auto simp: bpf_uprobe_go_tls_write_def run_write_def [of cfg e "(NO_TAIL_CALL, s)"])
qed

section \<open>What a send does\<close>

text \<open>What the bridge leaves alone.\<close>

definition no_bridge :: "kmaps \<Rightarrow> kmaps" where
  "no_bridge s = no_report (s\<lparr>ghash_scratch := zero_work, xor_pending := \<lambda>_. None, tc_pending := \<lambda>_. None,
     tls_conn_state := \<lambda>_. None\<rparr>)"

lemma no_bridge_upd [simp]:
  "no_bridge (s\<lparr>xor_pending := x\<rparr>) = no_bridge s" "no_bridge (s\<lparr>tc_pending := y\<rparr>) = no_bridge s"
  "no_bridge (s\<lparr>tls_conn_state := z\<rparr>) = no_bridge s" "no_bridge (dbg_inc i s) = no_bridge s"
  "no_bridge (set_staged f s) = no_bridge s" "no_bridge (bridge_forget e p s) = no_bridge s"
  by (simp_all add: no_bridge_def no_report_def dbg_inc_def set_staged_def bridge_forget_def)

lemma no_bridge_no_report: "no_report s = no_report t \<Longrightarrow> no_bridge s = no_bridge t"
  by (drule arg_cong [of _ _ no_bridge]) (simp add: no_bridge_def no_report_def)

lemma no_bridge_filter: "no_bridge (snd (socket_filter_loop cfg e sk mb a d n p pc kept s)) = no_bridge s"
proof (induction n arbitrary: p kept s)
  case (Suc n)
  have "no_bridge (snd (filter_keep cfg e sk mb a d key s)) = no_bridge s" for key s
    by (rule no_bridge_no_report) (rule filter_keep_report)
  then show ?case using Suc.IH by (simp add: Let_def split_beta)
qed simp

lemma no_bridge_commit: "no_bridge (bridge_commit cfg e sk p s) = no_bridge s"
proof -
  obtain r s2 where r: "kprobe_conn_state cfg e p s = (r, s2)" by fastforce
  have "no_bridge s2 = no_bridge s"
    using kprobe_conn_state_frame [of cfg e p s] r by (intro no_bridge_no_report) simp
  then show ?thesis by (cases r) (simp_all add: bridge_commit_def r Let_def store_conn_state_def)
qed

lemma send_frame: "no_bridge (bpf_kprobe_tcp_sendmsg cfg e sk s) = no_bridge s"
  by (auto simp: bpf_kprobe_tcp_sendmsg_def Let_def split_beta no_bridge_commit socket_filter_patches_def no_bridge_filter
      split: option.split)

lemma send_keeps:
  "scratch (bpf_kprobe_tcp_sendmsg cfg e sk s) = scratch s" "vip_sock_host (bpf_kprobe_tcp_sendmsg cfg e sk s) = vip_sock_host s"
  "vip_upstream (bpf_kprobe_tcp_sendmsg cfg e sk s) = vip_upstream s" "sni_state (bpf_kprobe_tcp_sendmsg cfg e sk s) = sni_state s"
  using arg_cong [OF send_frame, of scratch cfg e sk s] arg_cong [OF send_frame, of vip_sock_host cfg e sk s]
    arg_cong [OF send_frame, of vip_upstream cfg e sk s] arg_cong [OF send_frame, of sni_state cfg e sk s]
  by (simp_all add: no_bridge_def no_report_def)

lemma send_xor_pending:
  assumes "xor_pending (bpf_kprobe_tcp_sendmsg cfg e sk s) t = Some p"
  shows "xor_pending s t = Some p"
proof -
  have r: "xor_pending u = xor_pending v" if "no_report u = no_report v" for u v using no_reportD(5) [OF that] .
  have k: "xor_pending (snd (filter_keep cfg e sk mb a d key u)) = xor_pending u" for mb a d key u
    by (rule r) (rule filter_keep_report)
  have st: "xor_pending (set_staged f u) = xor_pending u" for f u by (simp add: set_staged_def)
  have l: "xor_pending (snd (socket_filter_loop cfg e sk mb a d n i pc kept u)) = xor_pending u" for mb a d n i pc kept u
    by (induction n arbitrary: i kept u) (simp_all add: Let_def split_beta k st)
  have f: "xor_pending (snd (socket_filter_patches cfg e sk mb u)) = xor_pending u" for mb u
    by (simp add: socket_filter_patches_def Let_def split_beta st l)
  have g: "forget_write e x m t = Some p \<Longrightarrow> m t = Some p" for x m
    by (auto simp: forget_write_def split: if_splits)
  have c: "xor_pending (bridge_commit cfg e sk x u) t = Some p \<Longrightarrow> xor_pending u t = Some p" for x u
  proof -
    obtain r0 u2 where k0: "kprobe_conn_state cfg e x u = (r0, u2)" by fastforce
    have "xor_pending u2 = xor_pending u" using kprobe_conn_state_frame [of cfg e x u] k0 by (intro r) simp
    then show "xor_pending (bridge_commit cfg e sk x u) t = Some p \<Longrightarrow> xor_pending u t = Some p"
      by (cases r0) (auto simp: bridge_commit_def k0 Let_def store_conn_state_def st split: if_splits dest!: g)
  qed
  show ?thesis
    using assms by (auto simp: bpf_kprobe_tcp_sendmsg_def Let_def split_beta f st dest!: c g split: option.splits if_splits)
qed

section \<open>What the other events do\<close>

text \<open>What decides which patch leaves on which socket, and the buffers of a write.\<close>

definition core where
  "core s = (xor_pending s, tc_pending s, scratch s, ghash_scratch s, sni_state s, vip_sock_host s)"

lemma core_upd [simp]:
  "core (s\<lparr>evp_init_scratch := a1\<rparr>) = core s" "core (s\<lparr>evp_h_cache := a2\<rparr>) = core s" "core (s\<lparr>debug_counters := a3\<rparr>) = core s"
  "core (s\<lparr>conn_ip_map := a4\<rparr>) = core s" "core (s\<lparr>connect_pending := a5\<rparr>) = core s" "core (s\<lparr>tracked_tgids := a6\<rparr>) = core s"
  "core (s\<lparr>tracked_cgroups := a7\<rparr>) = core s" "core (s\<lparr>proc_events := a8\<rparr>) = core s" "core (s\<lparr>vip_upstream := a9\<rparr>) = core s"
  "core (s\<lparr>vip_sock_dst := b1\<rparr>) = core s" "core (s\<lparr>vip_sock := b2\<rparr>) = core s" "core (s\<lparr>tls_conn_state := b3\<rparr>) = core s"
  "core (s\<lparr>tc_tag_pending := b4\<rparr>) = core s" "core (dbg_inc i s) = core s"
  for s :: kmaps
  by (simp_all add: core_def dbg_inc_def)

lemma core_no_report: "no_report s = no_report t \<Longrightarrow> core s = core t" for s t :: kmaps
  by (drule arg_cong [of _ _ core]) (simp add: core_def no_report_def)

lemma track_events_keep:
  "core (dp_run cfg (Syscall ev) s) = core s" "core (dp_run cfg (Exec e anc tgid) s) = core s" "core (dp_run cfg (Exit tgid) s) = core s"
  by (cases ev) (auto simp: tp_enter_connect_def tp_exit_connect_def tp_enter_close_def tp_sched_process_exec_def
      tp_sched_process_exit_def Let_def split: option.split)

lemma evp_events_keep:
  "core (dp_run cfg (Evp_Init e c) s) = core s" "core (dp_run cfg (Evp_Init_Return e) s) = core s"
proof -
  have g: "core (snd (snd (ossl_read_gcm_h e a off u))) = core u" for a off u
    by (rule core_no_report) (rule ossl_read_gcm_h_frame)
  show "core (dp_run cfg (Evp_Init e c) s) = core s" by (simp add: bpf_uprobe_evp_cipher_init_def)
  show "core (dp_run cfg (Evp_Init_Return e) s) = core s"
    by (auto simp: bpf_uretprobe_evp_cipher_init_def Let_def split_beta g split: option.split)
qed

lemma dns_event_keeps: "core (dp_run cfg (Dns_Answer csum e buf skb) s) = core s"
  by (auto simp: tc_dns_rewrite_def dns_rewrite_answer_def Let_def split_beta split: dns_plan.split)

text \<open>The maps a connect may change are those of virtual IPs.\<close>

definition no_host where "no_host s = (xor_pending s, tc_pending s, scratch s, ghash_scratch s, sni_state s)"

lemma no_host_core: "core s = core t \<Longrightarrow> no_host s = no_host t" by (simp add: core_def no_host_def)

lemma no_host_upd [simp]:
  "no_host (s\<lparr>vip_sock_host := a\<rparr>) = no_host s" "no_host (s\<lparr>vip_sock := b\<rparr>) = no_host s" "no_host (s\<lparr>vip_sock_dst := c\<rparr>) = no_host s"
  "no_host (dbg_inc i s) = no_host s" for s :: kmaps
  by (simp_all add: no_host_def dbg_inc_def)

lemma connect_hook_keeps: "no_host (dp_run cfg (Connect_Hook f e ctx) s) = no_host s"
proof -
  have h: "no_host (vip_record_dst ctx d u) = no_host u" "no_host (vip_forget_host ctx u) = no_host u" for d u
    by (simp_all add: vip_record_dst_def vip_forget_host_def Let_def split: option.split)
  have "no_host (snd (vip_redirect cfg e ctx d s)) = no_host s" for d
    by (simp add: vip_redirect_cases no_host_def dbg_inc_def split: option.split)
  then show ?thesis by (simp add: vip_connect_unfold split_beta h split: redirect.split)
qed

text \<open>What a handshake record may change is the verdict on its connection.\<close>

definition no_sni where "no_sni s = (xor_pending s, tc_pending s, scratch s, ghash_scratch s, vip_sock_host s)"

lemma hello_event_keeps: "no_sni (dp_run cfg (Send_Hello e sk msg) s) = no_sni s"
proof -
  have r: "no_sni (sni_record sk r s) = no_sni s" for r
    by (cases r) (simp add: no_sni_def sni_record_def Let_def dbg_inc_def split: option.split)
  have d: "dp_run cfg (Send_Hello e sk msg) s = bpf_kprobe_tcp_sendmsg_sni e sk msg s" by simp
  show ?thesis using sni_probe_records [of e sk msg s] unfolding d by (elim disjE conjE exE) (simp_all only: r)
qed

text \<open>A state change of a socket takes away its verdict and its host.\<close>

definition no_sock where "no_sock s = (xor_pending s, tc_pending s, scratch s, ghash_scratch s)"

lemma sock_state_keeps: "no_sock (dp_run cfg (Sock_State e pr st sk) s) = no_sock s"
  by (simp add: no_sock_def tp_inet_sock_set_state_def Let_def)

end
