(* ===== verification/Data_Plane.thy ===== *)
theory Data_Plane
  imports Data_Events
begin

text \<open>
  What holds in every state a run of the data plane reaches: which patches wait for a connection, for
  which container, and through which connect their socket came to its host. The configuration the
  control plane writes stays as it is during a run.
\<close>

section \<open>The invariant\<close>

text \<open>The patches the egress program may apply to a record of the connection.\<close>

definition waiting :: "kmaps \<Rightarrow> tc_dest_key \<Rightarrow> xor_patch list" where
  "waiting s k = (case tc_pending s k of None \<Rightarrow> [] | Some v \<Rightarrow> take (unat (tp_patch_count v)) (tp_patches v))"

text \<open>The patch inserts a secret that the container may redeem.\<close>

definition granted :: "config \<Rightarrow> u64 \<Rightarrow> xor_patch \<Rightarrow> bool" where
  "granted cfg c q \<longleftrightarrow> (\<exists>v d. secret_map cfg (patch_key q) = Some v \<and> secret_len q = sv_len v
     \<and> sv_len v \<noteq> 0 \<and> unat (sv_len v) \<le> SECRET_MAX_LEN \<and> xor_delta q = xor_delta_of d v
     \<and> (secret_acl cfg \<lparr>ak_cgroup_id = c, ak_key = patch_key q\<rparr> \<noteq> None \<or> secret_binding_mode cfg = SECRET_BINDING_AUDIT))"

text \<open>The shape of an entry of \<open>tc_pending\<close>.\<close>

definition staged_shape :: "tc_pending_val \<Rightarrow> bool" where
  "staged_shape v \<longleftrightarrow> 1 \<le> unat (tp_patch_count v) \<and> unat (tp_patch_count v) \<le> XOR_MAX_PATCHES
     \<and> length (tp_patches v) = XOR_MAX_PATCHES"

definition dp_ok :: "config \<Rightarrow> (u32 \<Rightarrow> u64) \<Rightarrow> kmaps \<Rightarrow> bool" where
  "dp_ok cfg cg s \<longleftrightarrow> scratch_shape (scratch s)
     \<and> (\<forall>t p. xor_pending s t = Some p \<longrightarrow> slots_ok p \<and> (\<forall>q \<in> set (held p). granted cfg (cg t) q))
     \<and> (\<forall>k v. tc_pending s k = Some v \<longrightarrow> staged_shape v)
     \<and> (\<forall>k. \<forall>q \<in> set (waiting s k). granted cfg (dk_cgroup_id k) q)"

text \<open>Of it the part that holds whatever the buffers of a write hold: the lengths of arrays and their counts.\<close>

definition shape_ok :: "kmaps \<Rightarrow> bool" where
  "shape_ok s \<longleftrightarrow> scratch_shape (scratch s) \<and> (\<forall>t p. xor_pending s t = Some p \<longrightarrow> slots_ok p)
     \<and> (\<forall>k v. tc_pending s k = Some v \<longrightarrow> staged_shape v)"

lemma dp_ok_shape: "dp_ok cfg cg s \<Longrightarrow> shape_ok s"
  by (auto simp: dp_ok_def shape_ok_def)

text \<open>Every process stays in its container: \<open>cg\<close> gives the cgroup of a process.\<close>

fun in_container :: "(u32 \<Rightarrow> u64) \<Rightarrow> dp_event \<Rightarrow> bool" where
  "in_container cg (Ssl_Write e ssl a n) = (ke_cgroup_id e = cg (cur_tgid e))"
| "in_container cg (Go_Write e conn a n) = (ke_cgroup_id e = cg (cur_tgid e))"
| "in_container cg (Send e sk) = (ke_cgroup_id e = cg (cur_tgid e))"
| "in_container cg ev = True"

inductive dp_step :: "config \<Rightarrow> (u32 \<Rightarrow> u64) \<Rightarrow> kmaps \<Rightarrow> kmaps \<Rightarrow> bool" for cfg and cg where
  event: "in_container cg ev \<Longrightarrow> dp_step cfg cg s (dp_run cfg ev s)"

lemma waiting_cong: "tc_pending s k = tc_pending t k \<Longrightarrow> waiting s k = waiting t k"
  by (simp add: waiting_def)

lemma waiting_unused:
  "waiting s k = (case used (tc_pending s k) of None \<Rightarrow> [] | Some v \<Rightarrow> take (unat (tp_patch_count v)) (tp_patches v))"
  by (simp add: waiting_def used_def split: option.split)

lemma waiting_used: "used (tc_pending s k) = used (tc_pending t k) \<Longrightarrow> waiting s k = waiting t k"
  by (simp only: waiting_unused)

lemma dp_ok_no_sock: "no_sock s' = no_sock s \<Longrightarrow> dp_ok cfg cg s' = dp_ok cfg cg s"
  by (simp add: no_sock_def dp_ok_def waiting_def)

lemma no_sock_core: "core s = core t \<Longrightarrow> no_sock s = no_sock t" by (simp add: core_def no_sock_def)
lemma no_sock_no_host: "no_host s = no_host t \<Longrightarrow> no_sock s = no_sock t" by (simp add: no_host_def no_sock_def)
lemma no_sock_no_sni: "no_sni s = no_sni t \<Longrightarrow> no_sock s = no_sock t" by (simp add: no_sni_def no_sock_def)

text \<open>The events that stage, send or drop patches.\<close>

fun moves_patches :: "dp_event \<Rightarrow> bool" where
  "moves_patches (Ssl_Write e ssl a n) = True"
| "moves_patches (Go_Write e conn a n) = True"
| "moves_patches (Send e sk) = True"
| "moves_patches (Egress tail skb) = True"
| "moves_patches (Evict x) = True"
| "moves_patches ev = False"

lemmas quiet_events = track_events_keep [THEN no_sock_core] evp_events_keep [THEN no_sock_core]
  dns_event_keeps [THEN no_sock_core] connect_hook_keeps [THEN no_sock_no_host] hello_event_keeps [THEN no_sock_no_sni]
  sock_state_keeps

lemma quiet_event: "\<not> moves_patches ev \<Longrightarrow> no_sock (dp_run cfg ev s) = no_sock s"
  by (cases ev) (simp_all add: quiet_events del: dp_run.simps)

section \<open>One step\<close>

lemma patch_of_granted: "q \<in> set (patch_of cfg e a m) \<Longrightarrow> granted cfg (ke_cgroup_id e) q"
  unfolding granted_def by (cases "secret_map cfg (xm_key m)") (auto simp: patch_of_def may_redeem_def split: if_splits)

lemma write_keeps_ok:
  assumes "dp_ok cfg cg s" "write_done cfg e s s'" "ke_cgroup_id e = cg (cur_tgid e)"
  shows "dp_ok cfg cg s'"
proof -
  have "tc_pending s' = tc_pending s" using assms(2) by (simp add: write_done_def net_part_def)
  then have "waiting s' k = waiting s k" for k by (simp add: waiting_def)
  moreover have "slots_ok p \<and> (\<forall>q \<in> set (held p). granted cfg (cg t) q)" if "xor_pending s' t = Some p" for t p
    using that assms patch_of_granted by (auto simp: write_done_def dp_ok_def staged_in_def) (metis)+
  ultimately show ?thesis using assms(1,2) by (simp add: dp_ok_def write_done_def net_part_def)
qed

text \<open>A patch comes to wait for a connection only by a send on it.\<close>

lemma send_stages:
  assumes "shape_ok s" "q \<in> set (waiting (dp_run cfg (Send e sk) s) k)" "q \<notin> set (waiting s k)"
  shows "k = bridge_key e sk \<and> socket_allows cfg e sk s (patch_key q)
    \<and> (\<exists>p. xor_pending s (cur_tgid e) = Some p \<and> q \<in> set (held p))"
proof -
  let ?s' = "bpf_kprobe_tcp_sendmsg cfg e sk s"
  have sl: "\<forall>p. xor_pending s (cur_tgid e) = Some p \<longrightarrow> slots_ok p" using assms(1) by (simp add: shape_ok_def)
  have "tc_pending ?s' k \<noteq> tc_pending s k" 
    using assms(2,3) waiting_cong [of ?s' k s] by (auto simp del: xor_path_run.simps)
  from bridge_change [OF sl this] obtain p rest where p: "k = bridge_key e sk" "xor_pending s (cur_tgid e) = Some p" "slots_ok p"
      "tc_pending ?s' k = Some (pending_entry e sk p (bridged cfg e sk s p) rest)" by blast
  have "waiting ?s' k = bridged cfg e sk s p"
    unfolding waiting_def p(4) option.case by (rule pending_entry_patches(1) [OF length_bridged [OF p(3)]])
  then have "q \<in> set (bridged cfg e sk s p)" using assms(2) by simp
  then show ?thesis using p(1,2) by (auto simp: bridged_def held_def)
qed

lemma egress_waiting: "waiting (dp_run cfg (Egress tail skb) s) k = waiting s k"
  by (rule waiting_used) (simp add: egress_frame)

lemma evict_waiting: "set (waiting (evict x s) k) \<subseteq> set (waiting s k)"
  by (cases x) (auto simp: waiting_def map_del_def split: option.splits if_splits)

lemma waiting_step:
  assumes "shape_ok s" "q \<in> set (waiting (dp_run cfg ev s) k)" "q \<notin> set (waiting s k)"
  shows "\<exists>e sk p. ev = Send e sk \<and> k = bridge_key e sk \<and> socket_allows cfg e sk s (patch_key q)
    \<and> xor_pending s (cur_tgid e) = Some p \<and> q \<in> set (held p)"
proof -
  have sh: "scratch_shape (scratch s)" using assms(1) by (simp add: shape_ok_def)
  have w: "waiting (dp_run cfg (Ssl_Write e ssl a n) s) k = waiting s k" "waiting (dp_run cfg (Go_Write e ssl a len) s) k = waiting s k"
    for e ssl a n len
    using write_event_done [OF sh] by (auto simp: write_done_def net_part_def waiting_def)
  have "waiting (dp_run cfg ev s) k = waiting s k" if "\<not> moves_patches ev"
    using quiet_event [OF that, of cfg s] by (simp add: no_sock_def waiting_def)
  then have m: "moves_patches ev" using assms(2,3) by metis
  show ?thesis
  proof (cases ev)
    case (Send e sk)
    then show ?thesis using send_stages assms by blast
  next
    case (Evict x)
    then show ?thesis using assms(2,3) evict_waiting [of x s k] by auto
  qed (use m w egress_waiting assms(2,3) in \<open>simp_all del: dp_run.simps\<close>)
qed

lemma shape_used: "used (Some v) = used (Some w) \<Longrightarrow> staged_shape v = staged_shape w"
proof -
  have "tp_patches u = tp_patches (u\<lparr>tp_active := False\<rparr>) \<and> tp_patch_count u = tp_patch_count (u\<lparr>tp_active := False\<rparr>)" for u
    by simp
  then show "used (Some v) = used (Some w) \<Longrightarrow> ?thesis" unfolding used_def staged_shape_def by (metis option.map(2) option.inject)
qed

lemma send_shape:
  assumes "shape_ok s" "tc_pending (bpf_kprobe_tcp_sendmsg cfg e sk s) k = Some v"
  shows "staged_shape v"
proof (cases "tc_pending (bpf_kprobe_tcp_sendmsg cfg e sk s) k = tc_pending s k")
  case True
  then show ?thesis using assms by (simp add: shape_ok_def)
next
  case False
  have "\<forall>p. xor_pending s (cur_tgid e) = Some p \<longrightarrow> slots_ok p" using assms(1) by (simp add: shape_ok_def)
  from bridge_change [OF this False] obtain p rest where p: "slots_ok p" "bridged cfg e sk s p \<noteq> []"
      "length (bridged cfg e sk s p @ rest) = XOR_MAX_PATCHES" "v = pending_entry e sk p (bridged cfg e sk s p) rest"
    using assms(2) by auto
  have "unat (tp_patch_count v) = length (bridged cfg e sk s p)"
    unfolding p(4) by (rule pending_entry_patches(2) [OF length_bridged [OF p(1)]])
  moreover have "tp_patches v = bridged cfg e sk s p @ rest" by (simp add: p(4) pending_entry_def)
  ultimately show ?thesis using p(2,3) by (auto simp: staged_shape_def Suc_le_eq)
qed

lemma shape_step:
  assumes "shape_ok s" "tc_pending (dp_run cfg ev s) k = Some v"
  shows "staged_shape v"
proof -
  have sh: "scratch_shape (scratch s)" using assms(1) by (simp add: shape_ok_def)
  have old: "staged_shape v" if u: "used (tc_pending (dp_run cfg ev s) k) = used (tc_pending s k)"
  proof (cases "tc_pending s k")
    case None
    then show ?thesis using u assms(2) by (simp add: used_def)
  next
    case (Some w)
    then have "staged_shape v = staged_shape w" using u assms(2) by (intro shape_used) simp
    moreover have "staged_shape w" using Some assms(1) by (simp add: shape_ok_def)
    ultimately show ?thesis by simp
  qed
  show ?thesis
  proof (cases "moves_patches ev")
    case False
    then have "tc_pending (dp_run cfg ev s) = tc_pending s" using quiet_event [of ev cfg s] by (simp add: no_sock_def)
    then show ?thesis using old by simp
  next
    case True
    then show ?thesis
    proof (cases ev)
      case (Ssl_Write e ssl a n)
      then show ?thesis using old write_event_done(1) [OF sh, of cfg e ssl a n] by (simp add: write_done_def net_part_def)
    next
      case (Go_Write e ssl a n)
      then show ?thesis using old write_event_done(2) [OF sh, of cfg e ssl a n] by (simp add: write_done_def net_part_def)
    next
      case (Send e sk)
      then show ?thesis using send_shape [OF assms(1)] assms(2) by simp
    next
      case (Egress tail skb)
      then show ?thesis using old egress_frame [of tail skb s k] by simp
    next
      case (Evict x)
      have "tc_pending (evict x s) k = None \<or> tc_pending (evict x s) k = tc_pending s k" by (cases x) auto
      then show ?thesis using Evict old assms(2) by auto
    qed simp_all
  qed
qed

lemma dp_ok_step:
  assumes "dp_ok cfg cg s" "in_container cg ev"
  shows "dp_ok cfg cg (dp_run cfg ev s)"
proof (cases "moves_patches ev")
  case False
  then show ?thesis using dp_ok_no_sock quiet_event assms(1) by blast
next
  case True
  have sh: "scratch_shape (scratch s)" using assms(1) by (simp add: dp_ok_def)
  have w: "\<forall>q \<in> set (waiting (dp_run cfg ev s) k). granted cfg (dk_cgroup_id k) q" for k
  proof
    fix q assume q: "q \<in> set (waiting (dp_run cfg ev s) k)"
    show "granted cfg (dk_cgroup_id k) q"
    proof (cases "q \<in> set (waiting s k)")
      case True
      then show ?thesis using assms(1) by (simp add: dp_ok_def)
    next
      case False
      then obtain e sk p where e: "ev = Send e sk" "k = bridge_key e sk" "xor_pending s (cur_tgid e) = Some p" "q \<in> set (held p)"
        using waiting_step [OF dp_ok_shape [OF assms(1)] q] by blast
      then show ?thesis using assms by (auto simp: dp_ok_def bridge_key_def)
    qed
  qed
  have rest: "dp_ok cfg cg t" if "scratch t = scratch s" "\<And>r p. xor_pending t r = Some p \<Longrightarrow> xor_pending s r = Some p"
      "\<And>k. \<forall>q \<in> set (waiting t k). granted cfg (dk_cgroup_id k) q" "\<And>k v. tc_pending t k = Some v \<Longrightarrow> staged_shape v" for t
  proof -
    have "slots_ok p \<and> (\<forall>q \<in> set (held p). granted cfg (cg r) q)" if "xor_pending t r = Some p" for r p
      using assms(1) \<open>\<And>r p. xor_pending t r = Some p \<Longrightarrow> xor_pending s r = Some p\<close> [OF that] unfolding dp_ok_def by blast
    then show ?thesis using sh that(1,3,4) by (simp add: dp_ok_def)
  qed
  show ?thesis
  proof (cases ev)
    case (Ssl_Write e ssl a n)
    then have "ke_cgroup_id e = cg (cur_tgid e)" using assms(2) by simp
    then show ?thesis unfolding Ssl_Write by (rule write_keeps_ok [OF assms(1) write_event_done(1) [OF sh]])
  next
    case (Go_Write e ssl a len)
    then have "ke_cgroup_id e = cg (cur_tgid e)" using assms(2) by simp
    then show ?thesis unfolding Go_Write by (rule write_keeps_ok [OF assms(1) write_event_done(2) [OF sh]])
  next
    case (Send e sk)
    then have d: "dp_run cfg ev s = bpf_kprobe_tcp_sendmsg cfg e sk s" by simp
    show ?thesis unfolding d by (rule rest) (use send_keeps(1) send_xor_pending w [unfolded d] send_shape [OF dp_ok_shape [OF assms(1)]] in blast)+
  next
    case (Egress tail skb)
    have "scratch (dp_run cfg ev s) = scratch s" "xor_pending (dp_run cfg ev s) = xor_pending s"
      using Egress egress_keeps(1,2) by simp_all
    then show ?thesis by (intro rest) (use w shape_step [OF dp_ok_shape [OF assms(1)]] in auto)
  next
    case (Evict x)
    have "scratch (evict x s) = scratch s" "xor_pending (evict x s) = xor_pending s" by (cases x; simp)+
    moreover have "staged_shape v" if "tc_pending (evict x s) k = Some v" for k v
      using shape_step [OF dp_ok_shape [OF assms(1)], where ev = ev] that Evict by simp
    ultimately show ?thesis using Evict w by (intro rest) auto
  qed (use True in simp_all)
qed

interpretation plane: step_invariant "dp_step cfg cg" "dp_ok cfg cg" for cfg cg
  by unfold_locales (auto elim!: dp_step.cases intro: dp_ok_step)

lemma dp_exec_reaches: "list_all (in_container cg) evs \<Longrightarrow> (dp_step cfg cg)\<^sup>*\<^sup>* s (dp_exec cfg evs s)"
  by (induction evs arbitrary: s) (auto intro: converse_rtranclp_into_rtranclp event)

section \<open>The history of a waiting patch\<close>

text \<open>A waiting patch was staged by a send of its connection, and has been waiting since.\<close>

lemma waiting_from_send:
  assumes "dp_ok cfg cg s0" "list_all (in_container cg) evs" "q \<notin> set (waiting s0 k)" "q \<in> set (waiting (dp_exec cfg evs s0) k)"
  shows "\<exists>before e sk later. evs = before @ Send e sk # later \<and> k = bridge_key e sk
    \<and> socket_allows cfg e sk (dp_exec cfg before s0) (patch_key q)
    \<and> (\<forall>n \<le> length later. q \<in> set (waiting (dp_exec cfg (before @ Send e sk # take n later) s0) k))"
proof -
  obtain before ev later where b: "evs = before @ ev # later" "q \<notin> set (waiting (dp_exec cfg before s0) k)"
      "\<forall>n \<le> length later. q \<in> set (waiting (dp_exec cfg (take n later) (dp_run cfg ev (dp_exec cfg before s0))) k)"
    using last_flip [of "\<lambda>s. q \<in> set (waiting s k)", OF assms(3,4)] by blast
  have "dp_ok cfg cg (dp_exec cfg before s0)"
    using plane.inv_run [OF dp_exec_reaches assms(1)] assms(2) b(1) by simp
  moreover have "q \<in> set (waiting (dp_run cfg ev (dp_exec cfg before s0)) k)" using b(3) [rule_format, of 0] by simp
  ultimately obtain e sk where "ev = Send e sk" "k = bridge_key e sk" "socket_allows cfg e sk (dp_exec cfg before s0) (patch_key q)"
    using waiting_step [OF dp_ok_shape] b(2) by blast
  then show ?thesis using b by (intro exI [of _ before] exI [of _ e] exI [of _ sk] exI [of _ later]) (simp del: dp_run.simps)
qed

text \<open>The events that may change the host a socket is attributed to.\<close>

fun moves_host :: "u64 \<Rightarrow> dp_event \<Rightarrow> bool" where
  "moves_host c (Connect_Hook f e ctx) = (sa_cookie ctx = c)"
| "moves_host c (Sock_State e pr st sk) = (pr = IPPROTO_TCP \<and> st = TCP_CLOSE \<and> skc_cookie (ke_sock e sk) = c \<and> c \<noteq> 0)"
| "moves_host c (Evict (LRU_SOCK_HOST c')) = (c' = c)"
| "moves_host c ev = False"

lemma core_host: "core s = core t \<Longrightarrow> vip_sock_host s = vip_sock_host t" by (simp add: core_def)

lemmas host_quiet_events = track_events_keep [THEN core_host] evp_events_keep [THEN core_host] dns_event_keeps [THEN core_host]

lemma connect_hook_host:
  "vip_sock_host (dp_run cfg (Connect_Hook f e ctx) s) = (if vip_addr_in_range (vip_config cfg) (dst_of f ctx)
      then case vip_target cfg e (dst_of f ctx) s of None \<Rightarrow> map_del (sa_cookie ctx) (vip_sock_host s)
        | Some (real, host) \<Rightarrow> (vip_sock_host s)(sa_cookie ctx \<mapsto> host)
      else map_del (sa_cookie ctx) (vip_sock_host s))"
proof -
  let ?r = "vip_connect f cfg e ctx s"
  have "?r = (fst ?r, fst (snd ?r), snd (snd ?r))" by simp
  from vip_connect_host(1) [OF this] show ?thesis by simp
qed

lemma host_kept:
  assumes "scratch_shape (scratch s)" "\<not> moves_host c ev"
  shows "vip_sock_host (dp_run cfg ev s) c = vip_sock_host s c"
proof (cases ev)
  case (Ssl_Write e ssl a n)
  then show ?thesis using write_event_done(1) [OF assms(1), of cfg e ssl a n] by (simp add: write_done_def net_part_def)
next
  case (Go_Write e ssl a n)
  then show ?thesis using write_event_done(2) [OF assms(1), of cfg e ssl a n] by (simp add: write_done_def net_part_def)
next
  case (Send_Hello e sk msg)
  then show ?thesis using hello_event_keeps [of cfg e sk msg s] by (simp add: no_sni_def)
next
  case (Send e sk)
  then show ?thesis using send_keeps(2) by simp
next
  case (Sock_State e pr st sk)
  then show ?thesis using assms(2) by (auto simp: tp_inet_sock_set_state_def Let_def map_del_def)
next
  case (Egress tail skb)
  then show ?thesis using egress_keeps(5) by simp
next
  case (Connect_Hook f e ctx)
  then show ?thesis using assms(2) by (simp add: connect_hook_host split: option.split prod.split del: dp_run.simps)
next
  case (Evict x)
  then show ?thesis using assms(2) by (cases x) (auto simp: map_del_def)
qed (simp_all add: host_quiet_events del: dp_run.simps)

text \<open>Of those events only a connect leaves a host.\<close>

lemma moved_by_connect:
  assumes "moves_host c ev" "vip_sock_host (dp_run cfg ev s) c = Some h"
  shows "\<exists>f e ctx. ev = Connect_Hook f e ctx"
proof (cases ev)
  case (Sock_State e pr st sk)
  then show ?thesis using assms by (simp add: tp_inet_sock_set_state_def Let_def TCP_CLOSE_def TCP_SYN_SENT_def)
next
  case (Evict x)
  then have "x = LRU_SOCK_HOST c" using assms(1) by (cases x) auto
  then show ?thesis using assms(2) Evict by simp
qed (use assms(1) in auto)

text \<open>The same for the host of a socket: its last connect, to a fake IP of that host.\<close>

lemma host_from_connect:
  assumes "dp_ok cfg cg s0" "list_all (in_container cg) evs" "vip_sock_host s0 c = None"
    "vip_sock_host (dp_exec cfg evs s0) c = Some h"
  shows "\<exists>before f e ctx later real. evs = before @ Connect_Hook f e ctx # later \<and> sa_cookie ctx = c
    \<and> (\<forall>ev \<in> set later. \<not> moves_host c ev) \<and> vip_addr_in_range (vip_config cfg) (dst_of f ctx)
    \<and> vip_target cfg e (dst_of f ctx) (dp_exec cfg before s0) = Some (real, h)"
proof -
  have "vip_sock_host (dp_exec cfg evs s0) c \<noteq> vip_sock_host s0 c" using assms(3,4) by simp
  moreover have "dp_ok cfg cg (dp_run cfg ev s) \<and> (\<not> moves_host c ev \<longrightarrow> vip_sock_host (dp_run cfg ev s) c = vip_sock_host s c)"
    if "ev \<in> set evs" "dp_ok cfg cg s" for ev s
  proof -
    have "in_container cg ev" using that(1) assms(2) by (simp add: list_all_iff del: in_container.simps)
    then have "dp_ok cfg cg (dp_run cfg ev s)" by (rule dp_ok_step [OF that(2)])
    moreover have "scratch_shape (scratch s)" using that(2) by (simp add: dp_ok_def)
    ultimately show ?thesis using host_kept by blast
  qed
  ultimately obtain before ev later where b: "evs = before @ ev # later" "moves_host c ev" "\<forall>x \<in> set later. \<not> moves_host c x"
      "vip_sock_host (dp_exec cfg evs s0) c = vip_sock_host (dp_run cfg ev (dp_exec cfg before s0)) c"
    using last_touch_inv [of evs "dp_ok cfg cg" "dp_run cfg" "moves_host c" "\<lambda>s. vip_sock_host s c" s0] assms(1) by blast
  note b = b(1-3) b(4) [unfolded assms(4), symmetric]
  obtain f e ctx where ev: "ev = Connect_Hook f e ctx"
    using moved_by_connect [OF b(2) b(4)] by blast
  then show ?thesis
    using b by (intro exI [of _ before] exI [of _ f] exI [of _ e] exI [of _ ctx] exI [of _ later])
      (auto simp: connect_hook_host simp del: dp_run.simps split: if_splits option.splits)
qed

text \<open>The invariant, for a packet.\<close>

lemma dp_ok_isolation:
  assumes "dp_ok cfg cg s" "tc_parse_headers skb = Some seg" "q \<in> set (waiting s (ts_key seg))"
  shows "granted cfg (skb_cgroup_id skb) q"
proof -
  have "dk_cgroup_id (ts_key seg) = skb_cgroup_id skb"
    using assms(2) by (auto simp: tc_parse_headers_def Let_def split: option.splits if_splits)
  then show ?thesis using assms(1,3) unfolding dp_ok_def by metis
qed

section \<open>Properties\<close>

text \<open>
  Containers are kept apart: in every state a run of the data plane reaches, whatever events of which
  processes it has, the patches that wait for the connection of a packet insert secrets that the
  control plane lets the packet's own container redeem (or any, in the audit mode), at their length.
\<close>

theorem container_isolation:
  fixes cfg :: config
  assumes "dp_ok cfg cg s0" "(dp_step cfg cg)\<^sup>*\<^sup>* s0 s" "tc_parse_headers skb = Some seg" "q \<in> set (waiting s (ts_key seg))"
  shows "granted cfg (skb_cgroup_id skb) q"
  using dp_ok_isolation [OF plane.inv_run [OF assms(2,1)] assms(3,4)] .

text \<open>
  A secret bound to a host waits only for connections to that host: a patch of it that waits after a
  run was staged by a send of the connection and has waited since; the socket's last connect before
  it went to a fake IP of the secret's host and was sent to an address recorded for it, no close or
  other connect of the socket came in between, and its handshake named that host (but for the audit mode).
\<close>

theorem host_attribution:
  fixes cfg :: config and k :: tc_dest_key
  assumes "dp_ok cfg cg s0" "list_all (in_container cg) evs" "vip_sock_host s0 = (\<lambda>_. None)"
    and "q \<notin> set (waiting s0 k)" "q \<in> set (waiting (dp_exec cfg evs s0) k)"
    and "secret_map cfg (patch_key q) = Some v" "0 < sv_host_len v" "sv_host_len v < of_nat MAX_HOST_LEN"
  shows "\<exists>b1 f e' ctx b2 e sk later real h. evs = b1 @ Connect_Hook f e' ctx # b2 @ Send e sk # later
    \<and> k = bridge_key e sk \<and> sa_cookie ctx = skc_cookie (ke_sock e sk) \<and> (\<forall>ev \<in> set b2. \<not> moves_host (sa_cookie ctx) ev)
    \<and> vip_addr_in_range (vip_config cfg) (dst_of f ctx)
    \<and> vip_target cfg e' (dst_of f ctx) (dp_exec cfg b1 s0) = Some (real, h) \<and> hosts_match h (allowed_host v)
    \<and> (sni_is sk (dp_exec cfg (b1 @ Connect_Hook f e' ctx # b2) s0) (allowed_host v) \<or> sni_check_mode cfg = SNI_CHECK_AUDIT)
    \<and> (\<forall>n \<le> length later. q \<in> set (waiting (dp_exec cfg (b1 @ Connect_Hook f e' ctx # b2 @ Send e sk # take n later) s0) k))"
proof -
  obtain before e sk later where b: "evs = before @ Send e sk # later" "k = bridge_key e sk"
      "socket_allows cfg e sk (dp_exec cfg before s0) (patch_key q)"
      "\<forall>n \<le> length later. q \<in> set (waiting (dp_exec cfg (before @ Send e sk # take n later) s0) k)"
    using waiting_from_send [OF assms(1,2,4,5)] by blast
  let ?c = "skc_cookie (ke_sock e sk)" and ?s = "dp_exec cfg before s0"
  obtain h where h: "vip_sock_host ?s ?c = Some h" "hosts_match h (allowed_host v)"
      "sni_is sk ?s (allowed_host v) \<or> sni_check_mode cfg = SNI_CHECK_AUDIT"
    using b(3) assms(6-8) by (auto simp: socket_allows_def vip_socket_check_def split: if_splits option.splits)
  have "vip_sock_host s0 ?c = None" "list_all (in_container cg) before" using assms(2,3) b(1) by simp_all
  then obtain b1 f e' ctx b2 real where c: "before = b1 @ Connect_Hook f e' ctx # b2" "sa_cookie ctx = ?c"
      "\<forall>ev \<in> set b2. \<not> moves_host ?c ev" "vip_addr_in_range (vip_config cfg) (dst_of f ctx)"
      "vip_target cfg e' (dst_of f ctx) (dp_exec cfg b1 s0) = Some (real, h)"
    using host_from_connect [OF assms(1) _ _ h(1)] by blast
  show ?thesis
    by (rule exI [of _ b1], rule exI [of _ f], rule exI [of _ e'], rule exI [of _ ctx], rule exI [of _ b2], rule exI [of _ e],
        rule exI [of _ sk], rule exI [of _ later], rule exI [of _ real], rule exI [of _ h], intro conjI)
      (use b c h in \<open>simp_all del: dp_run.simps dst_of.simps moves_host.simps\<close>)
qed

text \<open>
  C18: what waits for a connection in a reachable state has the shape the egress program needs: one to
  four of its four patch slots are used, their deltas have 128 bytes and their lengths 1 to 128. Of the
  hypothesis \<open>pending_ok\<close> of \<open>tc_egress_patch_correct\<close> only the offsets are left.
\<close>

theorem staged_entry_typed:
  fixes cfg :: config and v :: tc_pending_val
  assumes "dp_ok cfg cg s0" "(dp_step cfg cg)\<^sup>*\<^sup>* s0 s" "tc_pending s k = Some v"
  shows "pending_ok n v \<longleftrightarrow> (\<forall>q \<in> set (pending_patches v). unat (secret_offset q) + unat (secret_len q) \<le> min n 16384)"
proof -
  have ok: "dp_ok cfg cg s" using plane.inv_run [OF assms(2,1)] .
  then have "staged_shape v" "\<forall>q \<in> set (waiting s k). granted cfg (dk_cgroup_id k) q" using assms(3) by (simp_all add: dp_ok_def)
  moreover have "length (xor_delta q) = 128 \<and> 1 \<le> unat (secret_len q) \<and> unat (secret_len q) \<le> 128" if "granted cfg c q" for c q
    using that by (auto simp: granted_def xor_delta_of_def SECRET_MAX_LEN_def Suc_le_eq unat_gt_0)
  moreover have "waiting s k = pending_patches v" using assms(3) by (simp add: waiting_def pending_patches_def)
  ultimately show ?thesis by (auto simp: pending_ok_def staged_shape_def patch_valid_def)
qed

section \<open>A concrete run\<close>

text \<open>The secret of \<open>Xor_Path\<close>, bound to the host \<open>ab\<close>; a connect to the fake IP of \<open>ab\<close>, then a send.\<close>

definition plane_config :: config where
  "plane_config = vip_cfg\<lparr>secret_map := [example_key \<mapsto> example_secret\<lparr>sv_host_len := 2, allowed_host := pad_host [97, 98]\<rparr>],
     secret_acl := [\<lparr>ak_cgroup_id = 11, ak_key = example_key\<rparr> \<mapsto> 1]\<rparr>"

definition plane_start :: kmaps where
  "plane_start = vip_kmaps\<lparr>xor_pending := [7 \<mapsto> bridge_pending],
     sni_state := [5 \<mapsto> \<lparr>ss_status = SNI_STATUS_SEEN, ss_len = 2, ss_sni = pad_host [97, 98]\<rparr>]\<rparr>"

definition plane_events :: "dp_event list" where
  "plane_events = [Connect_Hook V4 (example_env (\<lambda>_. None)) vip_ctx, Send (write_env 0) 5]"

definition plane_skb :: sk_buff where
  "plane_skb = \<lparr>skb_data = [0, 0, 0, 0, 0, 0, 0, 0, 0, 0, 0, 0, 8, 0, 0x45, 0, 0, 40, 0, 0, 0, 0, 64, 6, 0, 0, 10, 0, 0, 2, 1, 2, 3, 4,
       0x9C, 0x40, 1, 0xBB, 0, 0, 0, 0, 0, 0, 0, 0, 0x50, 0, 0, 0, 0, 0, 0, 0],
     skb_headlen = 54, skb_protocol = 8, skb_sk = None, skb_cgroup_id = 11, skb_writable = True\<rparr>"

lemma plane_parse: "\<exists>seg. tc_parse_headers plane_skb = Some seg \<and> ts_key seg = bridge_key (write_env 0) 5"
proof -
  have "le_word [8, 0] = (8 :: u16)" "le_word [0x9C, 0x40] = (0x409C :: u16)" "bswap16 40000 = 0x409C" "bswap16 ETH_P_IP = 8"
    "bswap16 ETH_P_IPV6 = 0xDD86" "drop_bit 4 (0x50 :: u8) = 5" "(0x45 :: u8) AND 0xF = 5"
    by code_simp+
  then show ?thesis unfolding bridge_example_key
    by (simp add: tc_parse_headers_def tc_l3_off_def tc_ip_header_def plane_skb_def Let_def bytes_at_def)
qed

lemma plane_granted: "granted plane_config 11 bridge_patch"
proof -
  have "xor_delta_of (real_secret example_secret) (example_secret\<lparr>sv_host_len := 2, allowed_host := pad_host [97, 98]\<rparr>) = replicate 128 0"
    by code_simp
  then show ?thesis
    unfolding granted_def by (intro exI [of _ "example_secret\<lparr>sv_host_len := 2, allowed_host := pad_host [97, 98]\<rparr>"]
        exI [of _ "real_secret example_secret"])
      (simp add: plane_config_def bridge_patch_def no_patch_def example_secret_def SECRET_MAX_LEN_def)
qed

lemma plane_start_ok: "dp_ok plane_config (\<lambda>_. 11) plane_start"
proof -
  have "held bridge_pending = [bridge_patch]"
    by (simp add: held_def bridge_pending_def example_xor_pending_def)
  moreover have "slots_ok bridge_pending" using bridge_example(2) by (simp add: bridge_runs_def)
  moreover have "scratch_shape (scratch plane_start)" using example_scratch_shape by (simp add: plane_start_def vip_kmaps_def)
  moreover have "tc_pending plane_start = (\<lambda>_. None)" by (simp add: plane_start_def vip_kmaps_def example_kmaps_def)
  ultimately show ?thesis using plane_granted by (auto simp: dp_ok_def waiting_def plane_start_def split: if_splits)
qed

lemma plane_in_container: "list_all (in_container (\<lambda>_. 11)) plane_events"
  by (simp add: plane_events_def write_env_def)

text \<open>The patches a send with a known H leaves waiting.\<close>

lemma send_waiting:
  assumes "xor_pending s (cur_tgid e) = Some p" "bridge_runs e sk p" "conn_memory cfg e p h nl" "bridged cfg e sk s p \<noteq> []"
  shows "waiting (dp_run cfg (Send e sk) s) (bridge_key e sk) = bridged cfg e sk s p"
proof -
  let ?ks = "bridged cfg e sk s p"
  obtain s1 rest where s1: "staged_tc (ghash_scratch s1) = (bridge_staged e p)\<lparr>tp_patch_count := of_nat (length ?ks), tp_patches := ?ks @ rest\<rparr>"
      "bpf_kprobe_tcp_sendmsg cfg e sk s = bridge_commit cfg e sk p s1"
    using bridge_filters [OF assms(1,2), of cfg] assms(4) by auto
  obtain c s2 where "kprobe_conn_state cfg e p s1 = (Some c, s2)" using kprobe_conn_state_spec [OF assms(3), of s1] by blast
  from bridge_commits(1) [OF s1(1) this] have "tc_pending (bpf_kprobe_tcp_sendmsg cfg e sk s) (bridge_key e sk)
      = Some (pending_entry e sk p ?ks rest)" using s1(2) by simp
  moreover have "slots_ok p" using assms(2) by (simp add: bridge_runs_def)
  ultimately show ?thesis unfolding waiting_def using pending_entry_patches(1) [OF length_bridged] by simp
qed

text \<open>After the connect the socket allows the patch.\<close>

lemma plane_connected:
  defines "s1 \<equiv> dp_run plane_config (Connect_Hook V4 (example_env (\<lambda>_. None)) vip_ctx) plane_start"
  shows "bridged plane_config (write_env 0) 5 s1 bridge_pending = [bridge_patch]" "xor_pending s1 = [7 \<mapsto> bridge_pending]"
proof -
  have c: "vip_config plane_config = vip_config vip_cfg" "vip_ip_host plane_config = vip_ip_host vip_cfg" "vip_upstream plane_start = vip_upstream vip_kmaps"
    by (simp_all add: plane_config_def plane_start_def)
  have "vip_target plane_config (example_env (\<lambda>_. None)) (dst_of V4 vip_ctx) plane_start
      = vip_target vip_cfg (example_env (\<lambda>_. None)) (dst_of V4 vip_ctx) vip_kmaps"
    unfolding vip_target_def c ..
  then have h: "vip_sock_host s1 9 = Some (pad_host [97, 98])"
    unfolding s1_def connect_hook_host using example_target c by (simp add: vip_ctx_def del: dst_of.simps)
  have x: "xor_pending s1 = [7 \<mapsto> bridge_pending]" "sni_state s1 5 = Some \<lparr>ss_status = SNI_STATUS_SEEN, ss_len = 2, ss_sni = pad_host [97, 98]\<rparr>"
    using connect_hook_keeps [of plane_config V4 "example_env (\<lambda>_. None)" vip_ctx plane_start]
    by (simp_all add: s1_def no_host_def plane_start_def)
  have "hosts_match (pad_host [97, 98]) (pad_host [97, 98])" by code_simp
  then have "socket_allows plane_config (write_env 0) 5 s1 example_key"
    using h x(2) by (simp add: socket_allows_def plane_config_def example_secret_def vip_socket_check_def sni_is_def
        write_env_def example_sock_def)
  then show "bridged plane_config (write_env 0) 5 s1 bridge_pending = [bridge_patch]"
    by (simp add: bridged_def bridge_pending_def example_xor_pending_def bridge_patch_def)
  show "xor_pending s1 = [7 \<mapsto> bridge_pending]" by (rule x(1))
qed

lemma plane_send_waiting:
  assumes "bridged plane_config (write_env 0) 5 s bridge_pending = [bridge_patch]" "xor_pending s = [7 \<mapsto> bridge_pending]"
  shows "waiting (dp_run plane_config (Send (write_env 0) 5) s) (bridge_key (write_env 0) 5) = [bridge_patch]"
proof -
  have "xor_pending s (cur_tgid (write_env 0)) = Some bridge_pending" using assms(2) by (simp add: write_env_def)
  moreover have "conn_memory plane_config (write_env 0) bridge_pending (replicate 16 7) 0"
    by (simp add: conn_memory_def bridge_pending_def example_xor_pending_def)
  ultimately show ?thesis using send_waiting [OF _ bridge_example(2)] assms(1) by simp
qed

lemma plane_waiting: "waiting (dp_exec plane_config plane_events plane_start) (bridge_key (write_env 0) 5) = [bridge_patch]"
  using plane_send_waiting [OF plane_connected] by (simp add: plane_events_def)

theorem container_isolation_witness:
  "\<exists>v d. secret_map plane_config (patch_key bridge_patch) = Some v \<and> xor_delta bridge_patch = xor_delta_of d v
    \<and> secret_acl plane_config \<lparr>ak_cgroup_id = skb_cgroup_id plane_skb, ak_key = patch_key bridge_patch\<rparr> \<noteq> None"
proof -
  obtain seg where seg: "tc_parse_headers plane_skb = Some seg" "ts_key seg = bridge_key (write_env 0) 5" using plane_parse by blast
  have "bridge_patch \<in> set (waiting (dp_exec plane_config plane_events plane_start) (ts_key seg))" unfolding seg(2) plane_waiting by simp
  from container_isolation [OF plane_start_ok dp_exec_reaches [OF plane_in_container] seg(1) this]
  show ?thesis
    by (auto simp: granted_def plane_config_def vip_cfg_def SECRET_BINDING_AUDIT_def bridge_patch_def plane_skb_def split: if_splits)
qed

theorem host_attribution_witness:
  "\<exists>b1 f e ctx b2 real. plane_events = b1 @ Connect_Hook f e ctx # b2 @ [Send (write_env 0) 5] \<and> sa_cookie ctx = 9
    \<and> vip_target plane_config e (dst_of f ctx) (dp_exec plane_config b1 plane_start) = Some (real, pad_host [97, 98])"
proof -
  let ?v = "example_secret\<lparr>sv_host_len := 2, allowed_host := pad_host [97, 98]\<rparr>" and ?k = "bridge_key (write_env 0) 5"
  have n: "vip_sock_host plane_start = (\<lambda>_. None)" "bridge_patch \<notin> set (waiting plane_start ?k)"
    by (simp_all add: plane_start_def vip_kmaps_def example_kmaps_def waiting_def)
  have q: "bridge_patch \<in> set (waiting (dp_exec plane_config plane_events plane_start) ?k)" unfolding plane_waiting by simp
  have v: "secret_map plane_config (patch_key bridge_patch) = Some ?v" "0 < sv_host_len ?v" "sv_host_len ?v < of_nat MAX_HOST_LEN"
    by (simp_all add: plane_config_def bridge_patch_def MAX_HOST_LEN_def)
  obtain b1 f e' ctx b2 e sk later real h where r: "plane_events = b1 @ Connect_Hook f e' ctx # b2 @ Send e sk # later"
      "sa_cookie ctx = skc_cookie (ke_sock e sk)"
      "vip_target plane_config e' (dst_of f ctx) (dp_exec plane_config b1 plane_start) = Some (real, h)" "hosts_match h (allowed_host ?v)"
    using host_attribution [OF plane_start_ok plane_in_container n q v] by blast
  then have l: "b1 = []" "f = V4" "ctx = vip_ctx" "b2 = []" "e = write_env 0" "sk = 5" "later = []"
    by (auto simp: plane_events_def Cons_eq_append_conv append_eq_Cons_conv)
  have "h = pad_host [97, 98]"
    using r(3) by (auto simp: vip_target_def plane_config_def vip_cfg_def split: option.splits if_splits)
  then show ?thesis
    using r(1,3) l by (intro exI [of _ b1] exI [of _ f] exI [of _ e'] exI [of _ ctx] exI [of _ b2] exI [of _ real])
      (simp add: vip_ctx_def del: dst_of.simps)
qed

theorem staged_entry_typed_witness:
  "\<exists>v. tc_pending (dp_exec plane_config plane_events plane_start) (bridge_key (write_env 0) 5) = Some v
    \<and> pending_ok 31 v \<and> \<not> pending_ok 4 v"
proof -
  let ?s = "dp_exec plane_config plane_events plane_start" and ?k = "bridge_key (write_env 0) 5"
  obtain v where v: "tc_pending ?s ?k = Some v" "pending_patches v = [bridge_patch]"
    using plane_waiting by (cases "tc_pending ?s ?k") (auto simp: waiting_def pending_patches_def)
  have b: "unat (secret_offset bridge_patch) = 1" "unat (secret_len bridge_patch) = 4"
    by (simp_all add: bridge_patch_def no_patch_def)
  show ?thesis
    using staged_entry_typed [OF plane_start_ok dp_exec_reaches [OF plane_in_container] v(1)] v b by simp
qed

end
