(* ===== verification/Secret_Delivery.thy ===== *)
theory Secret_Delivery
  imports Data_Plane
begin

text \<open>
  What the data plane is for: the placeholders of a write reach the peer as the secrets. A write, the send
  of its record and the packet that carries it are composed, from the plaintext in the memory of the process
  to the plaintext the peer decrypts.
\<close>

section \<open>Several patches on one record\<close>

definition secret_of :: "config \<Rightarrow> xor_patch \<Rightarrow> bytes" where
  "secret_of cfg q = (case secret_map cfg (patch_key q) of None \<Rightarrow> [] | Some v \<Rightarrow> take (unat (sv_len v)) (real_secret v))"

text \<open>The plaintext with the secret of each patch in its place.\<close>

definition insert_secrets :: "config \<Rightarrow> xor_patch list \<Rightarrow> bytes \<Rightarrow> bytes" where
  "insert_secrets cfg ps d = fold (\<lambda>q. put_at (unat (secret_offset q)) (secret_of cfg q)) ps d"

text \<open>The patches are in the order of their places, which do not overlap and lie in the first \<open>n\<close> bytes.\<close>

definition apart :: "nat \<Rightarrow> xor_patch list \<Rightarrow> bool" where
  "apart n ps \<longleftrightarrow> sorted_wrt (\<lambda>q r. unat (secret_offset q) + unat (secret_len q) \<le> unat (secret_offset r)) ps
     \<and> (\<forall>q \<in> set ps. unat (secret_offset q) + unat (secret_len q) \<le> min n 16384)"

text \<open>The delta of the patch is that of the plaintext and the secret.\<close>

definition delta_for :: "config \<Rightarrow> bytes \<Rightarrow> xor_patch \<Rightarrow> bool" where
  "delta_for cfg pt q \<longleftrightarrow> length (secret_of cfg q) = unat (secret_len q)
     \<and> take (unat (secret_len q)) (xor_delta q) = xor_bytes (bytes_at pt (unat (secret_offset q)) (unat (secret_len q))) (secret_of cfg q)"

lemma apply_patches_plain:
  assumes "\<forall>q \<in> set ps. patch_valid (length pt) q \<and> delta_for cfg pt q" "length ks = length pt"
    and "sorted_wrt (\<lambda>q r. unat (secret_offset q) + unat (secret_len q) \<le> unat (secret_offset r)) ps"
  shows "xor_bytes (apply_patches ps (xor_bytes pt ks)) ks = insert_secrets cfg ps pt"
  using assms
proof (induction ps arbitrary: pt)
  case Nil
  then show ?case by (simp add: apply_patches_def insert_secrets_def xor_bytes_cancel)
next
  case (Cons q ps)
  let ?o = "unat (secret_offset q)" and ?n = "unat (secret_len q)"
  let ?pt = "put_at ?o (secret_of cfg q) pt"
  have v: "patch_valid (length pt) q" "length (secret_of cfg q) = ?n"
      "take ?n (xor_delta q) = xor_bytes (bytes_at pt ?o ?n) (secret_of cfg q)"
    using Cons.prems(1) by (simp_all add: delta_for_def)
  have "xor_bytes (apply_patch q (xor_bytes pt ks)) ks = ?pt" by (rule apply_patch_plain [OF v(1) Cons.prems(2) v(2,3)])
  moreover have "length (apply_patch q (xor_bytes pt ks)) = length ks"
    using length_apply_patch [of "xor_bytes pt ks" q] v(1) Cons.prems(2) by simp
  ultimately have first: "apply_patch q (xor_bytes pt ks) = xor_bytes ?pt ks" by (metis xor_bytes_cancel)
  have on: "?o + ?n \<le> length pt" using v(1) by (simp add: patch_valid_def)
  then have l: "length ?pt = length pt" using v(2) by simp
  have "delta_for cfg ?pt r" if r: "r \<in> set ps" for r
  proof -
    have "?o + ?n \<le> unat (secret_offset r)" using r Cons.prems(3) by simp
    then have "drop (unat (secret_offset r)) ?pt = drop (unat (secret_offset r)) pt"
      using on v(2) by (simp add: put_at_def)
    then show ?thesis using r Cons.prems(1) by (simp add: delta_for_def bytes_at_def)
  qed
  then have "xor_bytes (apply_patches ps (xor_bytes ?pt ks)) ks = insert_secrets cfg ps ?pt"
    using Cons.IH [of ?pt] Cons.prems l by simp
  then show ?case by (simp add: apply_patches_def insert_secrets_def first)
qed

lemma insert_secrets_append:
  assumes "\<forall>q \<in> set ps. length (secret_of cfg q) = unat (secret_len q) \<and> unat (secret_offset q) + unat (secret_len q) \<le> length d"
  shows "insert_secrets cfg ps (d @ pad) = insert_secrets cfg ps d @ pad"
  using assms
proof (induction ps arbitrary: d)
  case (Cons q ps)
  have q: "length (secret_of cfg q) = unat (secret_len q)" "unat (secret_offset q) + unat (secret_len q) \<le> length d"
    using Cons.prems by simp_all
  then have "put_at (unat (secret_offset q)) (secret_of cfg q) (d @ pad) = put_at (unat (secret_offset q)) (secret_of cfg q) d @ pad"
    by (simp add: put_at_def)
  moreover have "insert_secrets cfg ps (put_at (unat (secret_offset q)) (secret_of cfg q) d @ pad)
      = insert_secrets cfg ps (put_at (unat (secret_offset q)) (secret_of cfg q) d) @ pad"
    using Cons.prems q by (intro Cons.IH) simp
  ultimately show ?case by (simp add: insert_secrets_def)
qed (simp add: insert_secrets_def)

section \<open>The write\<close>

text \<open>A write of a tracked client connection, whose H is found at the send: SSL_write or Go's Write.\<close>

definition tls_write :: "config \<Rightarrow> kenv \<Rightarrow> u64 \<Rightarrow> u64 \<Rightarrow> nat \<Rightarrow> chain_type \<Rightarrow> bool \<Rightarrow> kmaps \<Rightarrow> dp_event \<Rightarrow> bool" where
  "tls_write cfg e ssl a n chain mb s ev \<longleftrightarrow>
     ev = Ssl_Write e ssl a (of_nat n) \<and> chain = CHAIN_SSL \<and> mb = (ssl_read_fd cfg e ssl = 0)
       \<and> tracked_cgroups s (ke_cgroup_id e) \<noteq> None \<and> tls_strategy cfg (cur_tgid e) \<noteq> Some STRATEGY_LIBCRYPTO_HOOK
       \<and> (mb \<or> conn_ip_map s \<lparr>cik_tgid = cur_tgid e, cik_fd = ssl_read_fd cfg e ssl\<rparr> \<noteq> None)
     \<or> ev = Go_Write e ssl a (of_nat n) \<and> chain = CHAIN_GO_TLS \<and> \<not> mb"

lemma tls_write_staged:
  assumes "tls_write cfg e ssl a (length d) chain mb s ev" "maps_to (ke_mem e) a d" "a \<noteq> 0" "d \<noteq> []" "length d \<le> SCAN_LIMIT"
    and "scratch_shape (scratch s)"
  shows "\<exists>p. write_pending e ssl (length d) chain mb p \<and> \<not> xp_h_valid p
    \<and> xor_pending (dp_run cfg ev s) = deposit e (patches_of cfg e a (take XOR_MAX_MATCHES (placeholders d))) p (xor_pending s)
    \<and> net_part (dp_run cfg ev s) = net_part s \<and> h_power_entries (dp_run cfg ev s) = h_power_entries s
    \<and> tls_conn_state (dp_run cfg ev s) = tls_conn_state s"
proof -
  have "\<exists>s1. dp_run cfg ev s = xor_path_run MAX_TAIL_CALLS cfg e s1 \<and> write_scanned ssl a d chain mb s s1"
  proof (cases "ev = Go_Write e ssl a (of_nat (length d))")
    case True
    then have w: "chain = CHAIN_GO_TLS" "\<not> mb" using assms(1) by (auto simp: tls_write_def)
    from go_write_scans [OF assms(2-6), of ssl] show ?thesis using True w by (auto simp: run_write_def)
  next
    case False
    then have w: "ev = Ssl_Write e ssl a (of_nat (length d))" "chain = CHAIN_SSL" "mb = (ssl_read_fd cfg e ssl = 0)"
        "tracked_cgroups s (ke_cgroup_id e) \<noteq> None" "tls_strategy cfg (cur_tgid e) \<noteq> Some STRATEGY_LIBCRYPTO_HOOK"
        "ssl_read_fd cfg e ssl = 0 \<or> conn_ip_map s \<lparr>cik_tgid = cur_tgid e, cik_fd = ssl_read_fd cfg e ssl\<rparr> \<noteq> None"
      using assms(1) unfolding tls_write_def by blast+
    from ssl_write_scans [OF assms(2-6) w(4,6)] show ?thesis using w(1,2,3,5) by (auto simp: run_write_def)
  qed
  then obtain s1 where s1: "dp_run cfg ev s = xor_path_run MAX_TAIL_CALLS cfg e s1" "write_scanned ssl a d chain mb s s1" by blast
  note f = write_scanned_fields [OF s1(2)]
  obtain p where p: "write_pending e ssl (length d) chain mb p" "\<not> xp_h_valid p"
      "xor_pending (dp_run cfg ev s) = deposit e (patches_of cfg e a (take XOR_MAX_MATCHES (placeholders d))) p (xor_pending s)"
    using run_write_deposit [OF s1(2), of s1 False MAX_TAIL_CALLS e cfg] f(5) unfolding s1(1) by (auto simp: MAX_TAIL_CALLS_def)
  have "unat (sb_xor_match_count (scratch s1)) \<le> MAX_TAIL_CALLS"
    using f(9) by (simp add: scratch_ok_def XOR_MAX_MATCHES_def MAX_TAIL_CALLS_def)
  then have np: "no_path (dp_run cfg ev s) = no_path s1"
    using xor_path_run_spec [OF f(9) f(7), of MAX_TAIL_CALLS cfg e] unfolding s1(1) by (simp add: MAX_TAIL_CALLS_def)
  have ns: "no_scan s1 = no_scan (s\<lparr>scratch := write_fields ssl a (length d) chain mb (scratch s)\<rparr>)"
    using s1(2) by (simp add: write_scanned_def)
  have "net_part s1 = net_part s" using net_part_no_scan [OF ns] by (simp add: net_part_def)
  moreover have "h_power_entries s1 = h_power_entries s" "tls_conn_state s1 = tls_conn_state s"
    using arg_cong [OF ns, of h_power_entries] arg_cong [OF ns, of tls_conn_state] by (simp_all add: no_scan_def)
  moreover have "h_power_entries (dp_run cfg ev s) = h_power_entries s1" "tls_conn_state (dp_run cfg ev s) = tls_conn_state s1"
    using arg_cong [OF np, of h_power_entries] arg_cong [OF np, of tls_conn_state] by (simp_all add: no_path_def no_report_def)
  ultimately show ?thesis using p net_part_no_path [OF np] by auto
qed

section \<open>The send\<close>

lemma send_commits:
  assumes "xor_pending s (cur_tgid e) = Some p" "bridge_runs e sk p" "conn_memory cfg e p h nl"
    and "bridged cfg e sk s p = ks" "ks \<noteq> []"
  defines "s' \<equiv> dp_run cfg (Send e sk) s"
    and "ck \<equiv> \<lparr>ck_tgid = cur_tgid e, ck_ssl_ptr = xp_ssl_ptr p\<rparr>"
    and "conn \<equiv> \<lparr>cs_ghash_h = h, cs_cipher_type = KLOAK_CIPHER_AES_GCM, cs_nonce_len = nl\<rparr>"
  shows "\<exists>rest. tc_pending s' = (tc_pending s)(bridge_key e sk \<mapsto> pending_entry e sk p ks rest) \<and> length (ks @ rest) = XOR_MAX_PATCHES"
    and "tls_conn_state s' ck = Some (stored_conn (tls_conn_state s ck) conn)"
    and "tc_tag_pending s' = tc_tag_pending s" "h_power_entries s' = h_power_entries s"
    and "xor_pending s' = forget_write e p (xor_pending s)"
proof -
  obtain s1 rest where s1: "no_stage s1 = no_stage s"
      "staged_tc (ghash_scratch s1) = (bridge_staged e p)\<lparr>tp_patch_count := of_nat (length ks), tp_patches := ks @ rest\<rparr>"
      "s' = bridge_commit cfg e sk p s1" "length (ks @ rest) = XOR_MAX_PATCHES"
    using bridge_filters [OF assms(1,2), of cfg] assms(4,5) unfolding s'_def by auto
  obtain s2 where "kprobe_conn_state cfg e p s1 = (Some conn, s2)"
    using kprobe_conn_state_spec [OF assms(3)] unfolding conn_def by blast
  note c = bridge_commits [OF s1(2) this, where sk = sk]
  note n = no_stageD [OF s1(1)]
  show "\<exists>rest. tc_pending s' = (tc_pending s)(bridge_key e sk \<mapsto> pending_entry e sk p ks rest) \<and> length (ks @ rest) = XOR_MAX_PATCHES"
    using c(1) s1(3,4) n(4) by auto
  show "xor_pending s' = forget_write e p (xor_pending s)" using c(2) s1(3) n(5) by simp
  show "tls_conn_state s' ck = Some (stored_conn (tls_conn_state s ck) conn)"
    using c(9) n(6) unfolding ck_def s1(3) by simp
  show "tc_tag_pending s' = tc_tag_pending s" "h_power_entries s' = h_power_entries s"
    using arg_cong [OF send_frame, of tc_tag_pending cfg e sk s] arg_cong [OF send_frame, of h_power_entries cfg e sk s]
    by (simp_all add: s'_def no_bridge_def no_report_def)
qed

section \<open>From the write to the packet\<close>

text \<open>The memory of the sending thread holds the connection's H, wherever the entry's other fields stand.\<close>

definition sends_with :: "config \<Rightarrow> kenv \<Rightarrow> u64 \<Rightarrow> u64 \<Rightarrow> chain_type \<Rightarrow> bytes \<Rightarrow> u8 \<Rightarrow> bool" where
  "sends_with cfg e sk ssl chain h nl \<longleftrightarrow> sk \<noteq> 0 \<and> length h = 16
     \<and> (\<forall>p. xp_ssl_ptr p = ssl \<and> xp_chain_type p = chain \<and> \<not> xp_h_valid p \<longrightarrow> conn_memory cfg e p h nl)"

text \<open>The nonce length tc reads for the connection: 0, 8 or unknown.\<close>

definition conn_nonce :: "kmaps \<Rightarrow> u32 \<Rightarrow> u64 \<Rightarrow> bytes \<Rightarrow> u8 \<Rightarrow> u32" where
  "conn_nonce s tgid ssl h nl = ucast (cs_nonce_len (stored_conn (tls_conn_state s \<lparr>ck_tgid = tgid, ck_ssl_ptr = ssl\<rparr>)
     \<lparr>cs_ghash_h = h, cs_cipher_type = KLOAK_CIPHER_AES_GCM, cs_nonce_len = nl\<rparr>))"

lemma put_patches_fields [simp]:
  "xp_ssl_ptr (put_patches ps p) = xp_ssl_ptr p" "xp_chain_type (put_patches ps p) = xp_chain_type p"
  "xp_memory_bio (put_patches ps p) = xp_memory_bio p" "xp_h_valid (put_patches ps p) = xp_h_valid p"
  "xp_created_at (put_patches ps p) = xp_created_at p" "xp_plaintext_len (put_patches ps p) = xp_plaintext_len p"
  by (simp_all add: put_patches_def)

lemma held_put_patches:
  assumes "length ps \<le> XOR_MAX_PATCHES"
  shows "held (put_patches ps p) = ps" "slots_ok (put_patches ps p)" "ps \<noteq> [] \<Longrightarrow> xp_patch_count (put_patches ps p) \<noteq> 0"
proof -
  have u: "unat (of_nat (length ps) :: u32) = length ps" using assms by (simp add: XOR_MAX_PATCHES_def)
  then show "held (put_patches ps p) = ps" "slots_ok (put_patches ps p)"
    using assms by (simp_all add: held_def put_patches_def slots_ok_def)
  show "xp_patch_count (put_patches ps p) \<noteq> 0" if "ps \<noteq> []"
  proof
    assume "xp_patch_count (put_patches ps p) = 0"
    then have "unat (of_nat (length ps) :: u32) = 0" by (simp add: put_patches_def)
    then show False using u that by simp
  qed
qed

text \<open>The patches of a write are what its packet needs.\<close>

lemma write_patches_fit:
  assumes "maps_to (ke_mem e) a (d @ rest)" "120 \<le> length rest" "length d \<le> SCAN_LIMIT" "\<forall>v \<in> ran (secret_map cfg). secret_ok v"
    and "apart (length d) (patches_of cfg e a (take XOR_MAX_MATCHES (placeholders d)))"
    and "q \<in> set (patches_of cfg e a (take XOR_MAX_MATCHES (placeholders d)))"
  shows "patch_valid (length (d @ pad)) q" "delta_for cfg (d @ pad) q"
    "length (secret_of cfg q) = unat (secret_len q)" "unat (secret_offset q) + unat (secret_len q) \<le> length d"
proof -
  let ?o = "unat (secret_offset q)" and ?n = "unat (secret_len q)"
  have on: "?o + ?n \<le> min (length d) 16384" using assms(5,6) by (simp add: apart_def)
  then show le: "?o + ?n \<le> length d" by simp
  have "?o + ?n \<le> min (length (d @ pad)) 16384" using on by simp
  then show "patch_valid (length (d @ pad)) q" using patch_of_valid [OF assms(6)] by blast
  obtain v where v: "secret_map cfg (bytes_at d ?o 8) = Some v" "?n = unat (sv_len v)" "patch_key q = bytes_at d ?o 8"
      "length (take ?n (real_secret v)) = ?n" "take ?n (xor_delta q) = xor_bytes (bytes_at d ?o ?n) (take ?n (real_secret v))"
    using patch_of_memory [OF assms(6,4,3,1,2) le] by blast
  have sec: "secret_of cfg q = take ?n (real_secret v)" using v(1,2,3) by (simp add: secret_of_def)
  then show l: "length (secret_of cfg q) = ?n" using v(4) by simp
  have "bytes_at (d @ pad) ?o ?n = bytes_at d ?o ?n" using le by (simp add: bytes_at_def)
  then show "delta_for cfg (d @ pad) q" using v(5) l sec by (simp add: delta_for_def)
qed

text \<open>After the write its patches wait under the process.\<close>

lemma written_entry:
  assumes "tls_write cfg e ssl a (length d) chain mb s w" "maps_to (ke_mem e) a d"
    and "a \<noteq> 0" "d \<noteq> []" "length d \<le> SCAN_LIMIT" "scratch_shape (scratch s)" "ke_room e XOR_PENDING"
  defines "ps \<equiv> patches_of cfg e a (take XOR_MAX_MATCHES (placeholders d))" and "s1 \<equiv> dp_run cfg w s"
  assumes "ps \<noteq> []"
  shows "\<exists>p. write_pending e ssl (length d) chain mb p \<and> \<not> xp_h_valid p \<and> held p = ps \<and> slots_ok p \<and> xp_patch_count p \<noteq> 0
    \<and> xor_pending s1 (cur_tgid e) = Some p \<and> net_part s1 = net_part s \<and> h_power_entries s1 = h_power_entries s
    \<and> tls_conn_state s1 = tls_conn_state s"
proof -
  have l4: "length ps \<le> XOR_MAX_PATCHES"
    using length_patches_of [of cfg e a "take XOR_MAX_MATCHES (placeholders d)"]
    by (simp add: ps_def XOR_MAX_MATCHES_def XOR_MAX_PATCHES_def)
  obtain p0 where p0: "write_pending e ssl (length d) chain mb p0" "\<not> xp_h_valid p0"
      "xor_pending s1 = deposit e ps p0 (xor_pending s)" "net_part s1 = net_part s" "h_power_entries s1 = h_power_entries s"
      "tls_conn_state s1 = tls_conn_state s"
    using tls_write_staged [OF assms(1-6)] unfolding ps_def s1_def by blast
  have "xor_pending s1 (cur_tgid e) = Some (put_patches ps p0)" using p0(3) assms(7,10) by (simp add: deposit_def map_put_def)
  moreover have "write_pending e ssl (length d) chain mb (put_patches ps p0)" "\<not> xp_h_valid (put_patches ps p0)"
    using p0(1,2) by (simp_all add: write_pending_def put_patches_def)
  ultimately show ?thesis
    using held_put_patches(1,2) [OF l4] held_put_patches(3) [OF l4 assms(10)] p0(4-6) by blast
qed

text \<open>After the write and the send, tc holds the write's patches for the socket's connection, and its subkey.\<close>

lemma written_then_sent:
  assumes "tls_write cfg e ssl a (length d) chain mb s w" "maps_to (ke_mem e) a d"
    and "a \<noteq> 0" "d \<noteq> []" "length d \<le> SCAN_LIMIT" "scratch_shape (scratch s)" "ke_room e XOR_PENDING"
  defines "ps \<equiv> patches_of cfg e a (take XOR_MAX_MATCHES (placeholders d))"
  assumes ps: "ps \<noteq> []"
    and tg: "cur_tgid e' = cur_tgid e" and sw: "sends_with cfg e' sk ssl chain h nl"
    and age: "mb \<longrightarrow> ke_ktime e' - ke_ktime e \<le> 2000000000"
    and al: "\<forall>q \<in> set ps. socket_allows cfg e' sk (dp_run cfg w s) (patch_key q)"
  defines "s2 \<equiv> dp_run cfg (Send e' sk) (dp_run cfg w s)" and "ck \<equiv> \<lparr>ck_tgid = cur_tgid e, ck_ssl_ptr = ssl\<rparr>"
  shows "\<exists>p rest. write_pending e ssl (length d) chain mb p \<and> length (ps @ rest) = XOR_MAX_PATCHES
    \<and> tc_pending s2 = (tc_pending s)(bridge_key e' sk \<mapsto> pending_entry e' sk p ps rest)"
    and "tls_conn_state s2 ck = Some (stored_conn (tls_conn_state s ck)
           \<lparr>cs_ghash_h = h, cs_cipher_type = KLOAK_CIPHER_AES_GCM, cs_nonce_len = nl\<rparr>)"
    and "tc_tag_pending s2 = tc_tag_pending s" "h_power_entries s2 = h_power_entries s"
proof -
  let ?s1 = "dp_run cfg w s"
  obtain p where p: "write_pending e ssl (length d) chain mb p" "\<not> xp_h_valid p" "held p = ps" "slots_ok p" "xp_patch_count p \<noteq> 0"
      "xor_pending ?s1 (cur_tgid e) = Some p"
      and fr: "net_part ?s1 = net_part s" "h_power_entries ?s1 = h_power_entries s" "tls_conn_state ?s1 = tls_conn_state s"
    using written_entry [OF assms(1-7), folded ps_def, OF ps] by blast
  have wp: "xp_ssl_ptr p = ssl" "xp_chain_type p = chain" "xp_memory_bio p = mb" "xp_created_at p = ke_ktime e"
    using p(1) by (simp_all add: write_pending_def)
  have x: "xor_pending ?s1 (cur_tgid e') = Some p" using p(6) tg by simp
  have runs: "bridge_runs e' sk p" using p(4,5) sw age wp by (auto simp: bridge_runs_def sends_with_def not_less)
  have cm: "conn_memory cfg e' p h nl" using sw wp p(2) unfolding sends_with_def by simp
  have br: "bridged cfg e' sk ?s1 p = ps" using al p(3) by (simp add: bridged_def held_def)
  note send = send_commits [OF x runs cm br ps(1), folded s2_def, unfolded wp(1) tg, folded ck_def]
  have "tc_pending ?s1 = tc_pending s" using fr(1) by (simp add: net_part_def)
  then show "\<exists>p rest. write_pending e ssl (length d) chain mb p \<and> length (ps @ rest) = XOR_MAX_PATCHES
      \<and> tc_pending s2 = (tc_pending s)(bridge_key e' sk \<mapsto> pending_entry e' sk p ps rest)"
    using send(1) p(1) by auto
  show "tls_conn_state s2 ck = Some (stored_conn (tls_conn_state s ck)
      \<lparr>cs_ghash_h = h, cs_cipher_type = KLOAK_CIPHER_AES_GCM, cs_nonce_len = nl\<rparr>)"
    using send(2) fr(3) by simp
  show "tc_tag_pending s2 = tc_tag_pending s" "h_power_entries s2 = h_power_entries s"
    using send(3,4) fr(1,2) by (simp_all add: net_part_def)
qed

section \<open>Property\<close>

text \<open>
  C1: placeholders arrive as secrets. A process writes data with placeholders of secrets it may redeem
  to a TLS connection (through OpenSSL, BoringSSL or Go), a thread of it sends on a socket that all of those
  secrets allow, and the packet holds the whole record of the data: encrypted under a key stream, behind
  whatever records the segment has before it. The packet leaves the egress program with the data as the
  peer decrypts it changed to hold every secret in the place of its placeholder, and with a tag valid
  for the connection's subkey; all other bytes are as they were.
\<close>

theorem placeholders_delivered:
  fixes cfg :: config and s :: kmaps
  assumes "tls_write cfg e ssl a (length d) chain mb s w" "maps_to (ke_mem e) a (d @ rest)" "120 \<le> length rest"
    and "a \<noteq> 0" "d \<noteq> []" "length d \<le> SCAN_LIMIT" "scratch_shape (scratch s)" "ke_room e XOR_PENDING"
    and "\<forall>v \<in> ran (secret_map cfg). secret_ok v" "length (h_power_entries s) = 16"
  defines "ps \<equiv> patches_of cfg e a (take XOR_MAX_MATCHES (placeholders d))"
  assumes "ps \<noteq> []" "apart (length d) ps"
    and "cur_tgid e' = cur_tgid e" "sends_with cfg e' sk ssl chain h nl" "mb \<longrightarrow> ke_ktime e' - ke_ktime e \<le> 2000000000"
    and "\<forall>q \<in> set ps. socket_allows cfg e' sk (dp_run cfg w s) (patch_key q)"
  defines "s2 \<equiv> dp_run cfg (Send e' sk) (dp_run cfg w s)"
  assumes "tc_parse_headers skb = Some seg" "ts_key seg = bridge_key e' sk" "tc_tag_pending s (ts_key seg) = None"
    and "5 \<le> ts_payload_len seg" "\<forall>v. tp_write_seq v = (if mb then 0 else write_seq (ke_sock e' sk)) \<longrightarrow> tc_seq_ok seg v"
    and "unat (ts_payload_off seg) = length pre" "skb_writable skb" "length (skb_data skb) < 2 ^ 31"
    and "skb_data skb = pre @ recs_bytes (skips @ mids) @ rec_bytes (0x17, minor, nonce @ xor_bytes (d @ pad) ks @ tag) @ post"
    and "segment_ok skips mids (0x17, minor, nonce @ xor_bytes (d @ pad) ks @ tag) (of_nat (length d))
           (conn_nonce s (cur_tgid e) ssl h nl) (of_nat (length nonce))"
    and "length ks = length (d @ pad)" "valid_tag (gf_of h) aad lens ek (xor_bytes (d @ pad) ks) tag"
  shows "\<exists>ct tag' s3. tc_egress_patch True skb s2 = (skb\<lparr>skb_data := pre @ recs_bytes (skips @ mids)
        @ rec_bytes (0x17, minor, nonce @ ct @ tag') @ post\<rparr>, s3)
    \<and> xor_bytes ct ks = insert_secrets cfg ps d @ pad \<and> valid_tag (gf_of h) aad lens ek ct tag'"
proof -
  let ?ct = "xor_bytes (d @ pad) ks" and ?ck = "\<lparr>ck_tgid = cur_tgid e, ck_ssl_ptr = ssl\<rparr>"
  have md: "maps_to (ke_mem e) a d" using assms(2) by (simp add: maps_to_append)
  have l4: "length ps \<le> XOR_MAX_PATCHES"
    using length_patches_of [of cfg e a "take XOR_MAX_MATCHES (placeholders d)"]
    by (simp add: ps_def XOR_MAX_MATCHES_def XOR_MAX_PATCHES_def)
  have fits: "patch_valid (length (d @ pad)) q" "delta_for cfg (d @ pad) q" "length (secret_of cfg q) = unat (secret_len q)"
      "unat (secret_offset q) + unat (secret_len q) \<le> length d" if "q \<in> set ps" for q
    using write_patches_fit [OF assms(2,3,6,9), of q] assms(13) that unfolding ps_def by blast+
  note send = written_then_sent [OF assms(1) md assms(4-8), folded ps_def, OF assms(12,14-17), folded s2_def]
  obtain p rest' where v: "write_pending e ssl (length d) chain mb p" "length (ps @ rest') = XOR_MAX_PATCHES"
      "tc_pending s2 = (tc_pending s)(bridge_key e' sk \<mapsto> pending_entry e' sk p ps rest')"
    using send(1) by blast
  define c where "c = stored_conn (tls_conn_state s ?ck) \<lparr>cs_ghash_h = h, cs_cipher_type = KLOAK_CIPHER_AES_GCM, cs_nonce_len = nl\<rparr>"
  have c: "tls_conn_state s2 ?ck = Some c" "cs_ghash_h c = h"
    using send(2) by (simp_all add: c_def stored_conn_def split: option.split)
  let ?v = "pending_entry e' sk p ps rest'"
  have vf: "tp_tgid ?v = cur_tgid e" "tp_ssl_ptr ?v = ssl" "tp_active ?v" "tp_plaintext_len ?v = of_nat (length d)"
      "tp_write_seq ?v = (if mb then 0 else write_seq (ke_sock e' sk))" "tp_patches ?v = ps @ rest'"
    using v(1) assms(14) by (simp_all add: pending_entry_def write_pending_def)
  note pe = pending_entry_patches [OF l4, of e' sk p rest']
  have pp: "pending_patches ?v = ps" using pe(1) by (simp add: pending_patches_def)
  have "pending_ok (length ?ct) ?v"
    using pe(2) assms(12) l4 v(2) vf(6) pp fits(1) assms(29) by (auto simp: pending_ok_def Suc_le_eq)
  moreover have "conn_key_is s2 (tp_tgid ?v) (tp_ssl_ptr ?v) (gf_of h)"
    using c vf(1,2) assms(15) by (simp add: conn_key_is_def sends_with_def)
  ultimately have st: "staged_for s2 seg ?v (gf_of h) (length ?ct)"
    using v(3) vf assms(10,20-23) send(3,4) by (simp add: staged_for_def)
  have ok: "segment_ok skips mids (0x17, minor, nonce @ ?ct @ tag) (tp_plaintext_len ?v) (tc_nonce_len ?v s2) (of_nat (length nonce))"
  proof -
    have "tc_nonce_len ?v s2 = ucast (cs_nonce_len c)" using vf(1,2) c(1) by (auto simp: tc_nonce_len_def TLS_NONCE_UNKNOWN_def)
    then show ?thesis using assms(28) vf(4) by (simp add: conn_nonce_def c_def)
  qed
  obtain tag' s3 where r: "tc_egress_patch True skb s2 = (skb\<lparr>skb_data := pre @ recs_bytes (skips @ mids)
        @ rec_bytes (0x17, minor, nonce @ apply_patches ps ?ct @ tag') @ post\<rparr>, s3)"
      "valid_tag (gf_of h) aad lens ek (apply_patches ps ?ct) tag'"
    using tc_egress_patch_record [OF assms(19,24,27,25,26) st ok assms(30)] pp by auto
  have "xor_bytes (apply_patches ps ?ct) ks = insert_secrets cfg ps (d @ pad)"
    using apply_patches_plain [of ps "d @ pad" cfg ks] fits(1,2) assms(13,29) by (auto simp: apart_def)
  also have "\<dots> = insert_secrets cfg ps d @ pad" using fits(3,4) by (intro insert_secrets_append) blast
  finally show ?thesis using r by blast
qed

section \<open>A concrete delivery\<close>

text \<open>
  The data and the secret of \<open>Xor_Path\<close>, written through the OpenSSL object of \<open>Key_Extract\<close>, a TLS 1.3
  record of 18 bytes of inner plaintext under a key stream of nines, from port 40000 to 1.2.3.4.
\<close>

definition delivery_config :: config where
  "delivery_config = ossl_config\<lparr>secret_map := secret_map secret_config, secret_acl := secret_acl secret_config,
     go_tls_offset_config := [\<lparr>bk_cgroup_id = 11, bk_exe_inode = 12\<rparr> \<mapsto>
       \<lparr>conn_to_cipher = 0, aead_iface_off = 0, h2_hi_off = 8, h2_lo_off = 0, conn_vers_off = 0\<rparr>]\<rparr>"

definition delivery_kmaps :: kmaps where
  "delivery_kmaps = example_kmaps\<lparr>tracked_cgroups := [11 \<mapsto> 1]\<rparr>"

definition delivery_header :: bytes where
  "delivery_header = [0, 0, 0, 0, 0, 0, 0, 0, 0, 0, 0, 0, 8, 0, 0x45, 0, 0, 79, 0, 0, 0, 0, 64, 6, 0, 0, 10, 0, 0, 2, 1, 2, 3, 4,
       0x9C, 0x40, 1, 0xBB, 0, 0, 0x13, 0x88, 0, 0, 0, 0, 0x50, 0, 0, 0, 0, 0, 0, 0]"

definition delivery_record :: "bytes \<Rightarrow> bytes \<Rightarrow> bytes" where
  "delivery_record ct tag = rec_bytes (0x17, 3, ct @ tag)"

definition delivery_skb :: "bytes \<Rightarrow> bytes \<Rightarrow> sk_buff" where
  "delivery_skb ct tag = \<lparr>skb_data = delivery_header @ delivery_record ct tag,
     skb_headlen = 54, skb_protocol = 8, skb_sk = None, skb_cgroup_id = 11, skb_writable = True\<rparr>"

lemma delivery_parse:
  "tc_parse_headers (delivery_skb ct tag) = Some \<lparr>ts_key = bridge_key ossl_env 5, ts_pkt_seq = 5000, ts_payload_off = 54, ts_payload_len = 39\<rparr>"
proof -
  have "le_word [8, 0] = (8 :: u16)" "le_word [0x9C, 0x40] = (0x409C :: u16)" "bswap16 40000 = 0x409C" "bswap16 ETH_P_IP = 8"
    "bswap16 ETH_P_IPV6 = 0xDD86" "drop_bit 4 (0x50 :: u8) = 5" "(0x45 :: u8) AND 0xF = 5" "be_word [0, 0, 0x13, 0x88] = (5000 :: u32)"
    "be16 0 79 = (79 :: u32)"
    by code_simp+
  then show ?thesis
    by (simp add: tc_parse_headers_def tc_l3_off_def tc_ip_header_def delivery_skb_def delivery_header_def Let_def bytes_at_def
        bridge_key_def ossl_env_def sock_dst_addr_def example_sock_def)
qed

lemma delivery_write:
  "tls_write delivery_config (write_env 120) 4096 4096 (length example_plaintext) CHAIN_SSL True delivery_kmaps
     (Ssl_Write (write_env 120) 4096 4096 17)"
proof -
  have "ssl_read_fd delivery_config (write_env 120) 4096 = 0" by code_simp
  moreover have "(17 :: u32) = of_nat (length example_plaintext)" by (simp add: example_plaintext_def)
  ultimately show ?thesis
    unfolding tls_write_def by (simp add: delivery_kmaps_def delivery_config_def ossl_config_def write_env_def)
qed

lemma delivery_sends: "sends_with delivery_config ossl_env 5 4096 CHAIN_SSL example_h 0xFF"
proof -
  have b: "binary_offsets delivery_config e ok = binary_offsets ossl_config e ok" for e ok
    by (simp add: binary_offsets_def delivery_config_def)
  have "length example_h = 16" by code_simp
  then show ?thesis
    using ossl_env_walk by (auto simp: sends_with_def conn_memory_def b offsets_calibrated_def ossl_offsets_def)
qed

lemma delivery_patches:
  "patches_of delivery_config (write_env 120) 4096 (take XOR_MAX_MATCHES (placeholders example_plaintext))
    = patches_of secret_config (write_env 120) 4096 (take XOR_MAX_MATCHES (placeholders example_plaintext))"
proof -
  have "secret_map delivery_config = secret_map secret_config" "secret_acl delivery_config = secret_acl secret_config"
      "secret_binding_mode delivery_config = secret_binding_mode secret_config"
    by (simp_all add: delivery_config_def secret_config_def ossl_config_def empty_config_def)
  moreover from this have "may_redeem delivery_config e k = may_redeem secret_config e k" for e k by (simp add: may_redeem_def)
  ultimately have "patch_of delivery_config e a m = patch_of secret_config e a m" for e a m
    by (cases "secret_map secret_config (xm_key m)") (simp_all add: patch_of_def)
  then have "patch_of delivery_config (write_env 120) 4096 = patch_of secret_config (write_env 120) 4096" by (intro ext)
  then show ?thesis by (simp only: patches_of_def)
qed

lemma delivery_patch:
  "\<exists>q. patches_of delivery_config (write_env 120) 4096 (take XOR_MAX_MATCHES (placeholders example_plaintext)) = [q]
    \<and> secret_offset q = 1 \<and> secret_len q = 4 \<and> patch_key q = example_key"
proof -
  let ?d = example_plaintext
  let ?ps = "patches_of delivery_config (write_env 120) 4096 (take XOR_MAX_MATCHES (placeholders ?d))"
  have l: "length ?d = 17" by (simp add: example_plaintext_def)
  obtain q where q: "?ps = [q]" "secret_offset q = 1" "secret_len q = 4" using example_patches [of 120] unfolding delivery_patches by blast
  have "bytes_at ?d 1 8 = example_key" by (rule example_bytes)
  moreover have "patch_key q = bytes_at ?d (unat (secret_offset q)) 8"
    using patch_of_memory [of q delivery_config "write_env 120" 4096 ?d "replicate 120 0"] q write_env_memory [of 120] secret_config_ok l
    by (auto simp: delivery_config_def SCAN_LIMIT_def BPF_MAX_LOOPS_def)
  ultimately show ?thesis using q by simp
qed

lemma delivery_ready:
  "maps_to (ke_mem (write_env 120)) 4096 (example_plaintext @ replicate 120 0)" "(4096 :: u64) \<noteq> 0" "example_plaintext \<noteq> []"
  "length example_plaintext \<le> SCAN_LIMIT" "scratch_shape (scratch delivery_kmaps)" "ke_room (write_env 120) XOR_PENDING"
  using write_env_memory [of 120] example_scratch_shape
  by (simp_all add: delivery_kmaps_def write_env_def SCAN_LIMIT_def BPF_MAX_LOOPS_def) (simp_all add: example_plaintext_def)

theorem placeholders_delivered_witness:
  "\<exists>ek ct tag' s3. tc_egress_patch True (delivery_skb (xor_bytes (example_plaintext @ [0x17]) (replicate 18 9)) (replicate 16 1))
      (dp_exec delivery_config [Ssl_Write (write_env 120) 4096 4096 17, Send ossl_env 5] delivery_kmaps)
      = (delivery_skb ct tag', s3)
    \<and> xor_bytes ct (replicate 18 9) = put_at 1 [0x77, 0x78, 0x79, 0x7A] example_plaintext @ [0x17]
    \<and> valid_tag (gf_of example_h) [5] (replicate 16 2) ek ct tag'"
proof -
  let ?d = example_plaintext and ?ks = "replicate 18 9 :: bytes" and ?tag = "replicate 16 1 :: bytes"
  let ?ct = "xor_bytes (?d @ [0x17]) ?ks"
  let ?ps = "patches_of delivery_config (write_env 120) 4096 (take XOR_MAX_MATCHES (placeholders ?d))"
  let ?seg = "\<lparr>ts_key = bridge_key ossl_env 5, ts_pkt_seq = 5000, ts_payload_off = 54, ts_payload_len = 39\<rparr>"
  define ek where "ek = gf_of ?tag - tag_hash gf_of (gf_of example_h) [5] ?ct (replicate 16 2)"
  have v: "valid_tag (gf_of example_h) [5] (replicate 16 2) ek ?ct ?tag" by (simp add: valid_tag_def ek_def)
  have l: "length ?d = 17" by (simp add: example_plaintext_def)
  obtain q where q: "?ps = [q]" "secret_offset q = 1" "secret_len q = 4" and key: "patch_key q = example_key" using delivery_patch by blast
  let ?s1 = "dp_run delivery_config (Ssl_Write (write_env 120) 4096 4096 17) delivery_kmaps"
  have sec: "\<forall>v \<in> ran (secret_map delivery_config). secret_ok v" "length (h_power_entries delivery_kmaps) = 16"
      "120 \<le> length (replicate 120 (0 :: u8))"
    using secret_config_ok by (simp_all add: delivery_config_def delivery_kmaps_def example_kmaps_def)
  have p: "?ps \<noteq> []" "apart (length ?d) ?ps" using q l by (simp_all add: apart_def)
  have e: "cur_tgid ossl_env = cur_tgid (write_env 120)" "True \<longrightarrow> ke_ktime ossl_env - ke_ktime (write_env 120) \<le> 2000000000"
    by (simp_all add: ossl_env_def write_env_def)
  have a: "\<forall>q \<in> set ?ps. socket_allows delivery_config ossl_env 5 ?s1 (patch_key q)"
    using q key by (simp add: socket_allows_def delivery_config_def secret_config_def example_secret_def vip_socket_check_def del: dp_run.simps)
  have t: "tc_tag_pending delivery_kmaps (ts_key ?seg) = None" "5 \<le> ts_payload_len ?seg"
      "\<forall>v. tp_write_seq v = (if True then 0 else write_seq (ke_sock ossl_env 5)) \<longrightarrow> tc_seq_ok ?seg v"
      "unat (ts_payload_off ?seg) = length delivery_header" "skb_writable (delivery_skb ?ct ?tag)"
      "length (skb_data (delivery_skb ?ct ?tag)) < 2 ^ 31"
      "skb_data (delivery_skb ?ct ?tag) = delivery_header @ recs_bytes ([] @ []) @ rec_bytes (0x17, 3, [] @ ?ct @ ?tag) @ []"
    using l by (simp_all add: delivery_kmaps_def example_kmaps_def tc_seq_ok_def delivery_header_def delivery_skb_def
        delivery_record_def recs_bytes_def rec_bytes_def tls_hdr_def)
  have "tls_hdr 0x17 3 34 = [0x17, 3, 3, 0, 34]" "be16 0 34 = 34" by (simp_all add: tls_hdr_def be16_def)
  moreover have "conn_nonce delivery_kmaps (cur_tgid (write_env 120)) 4096 example_h 0xFF = 0xFF"
    by (simp add: conn_nonce_def stored_conn_def delivery_kmaps_def example_kmaps_def)
  ultimately have ok: "segment_ok [] [] (0x17, 3, [] @ ?ct @ ?tag) (of_nat (length ?d))
      (conn_nonce delivery_kmaps (cur_tgid (write_env 120)) 4096 example_h 0xFF) (of_nat (length ([] :: bytes)))"
    using l by (simp add: segment_ok_def rec_ok_def rec_kind_of_def rec_len_def tls_record_hdr_kind_def
        tls_appdata_reclen_match_def tls_consts Let_def)
  have ks: "length ?ks = length (?d @ [0x17])" using l by simp
  obtain ct tag' s3 where r: "tc_egress_patch True (delivery_skb ?ct ?tag) (dp_run delivery_config (Send ossl_env 5) ?s1)
      = (delivery_skb ?ct ?tag\<lparr>skb_data := delivery_header @ recs_bytes ([] @ []) @ rec_bytes (0x17, 3, [] @ ct @ tag') @ []\<rparr>, s3)"
      "xor_bytes ct ?ks = insert_secrets delivery_config ?ps ?d @ [0x17]" "valid_tag (gf_of example_h) [5] (replicate 16 2) ek ct tag'"
    using placeholders_delivered [OF delivery_write delivery_ready(1) sec(3) delivery_ready(2-6) sec(1,2) p e(1) delivery_sends e(2) a delivery_parse _ t ok ks v] by auto
  have "secret_of delivery_config q = [0x77, 0x78, 0x79, 0x7A]"
    using key by (simp add: secret_of_def delivery_config_def secret_config_def example_secret_def)
  then have "insert_secrets delivery_config ?ps ?d = put_at 1 [0x77, 0x78, 0x79, 0x7A] ?d" using q by (simp add: insert_secrets_def)
  moreover have "delivery_skb ?ct ?tag\<lparr>skb_data := delivery_header @ recs_bytes ([] @ []) @ rec_bytes (0x17, 3, [] @ ct @ tag') @ []\<rparr>
      = delivery_skb ct tag'"
    by (simp add: delivery_skb_def delivery_record_def recs_bytes_def)
  ultimately show ?thesis using r by (intro exI [of _ ek] exI [of _ ct] exI [of _ tag'] exI [of _ s3]) simp
qed

end
