(* ===== verification/Interrupts.thy ===== *)
theory Interrupts
  imports Data_Plane
begin

text \<open>
  Programs that interrupt each other. \<open>tc_egress_patch\<close> runs in softirq context, which can interrupt
  another program on the same CPU; for this reason \<open>tc_dns_rewrite\<close> has a scratch buffer of its own.
  \<open>bpf_xor_path\<close> and \<open>tc_egress_patch\<close> share \<open>ghash_scratch\<close>. Between two of the tail-called programs
  of a write an egress run is a step of the model as it is.
\<close>

section \<open>What an egress run leaves in the shared buffer\<close>

abbreviation staged :: "'a ghash_cpu_scheme \<Rightarrow> xor_pending_val" where
  "staged s \<equiv> staged_pending (ghash_scratch s)"

lemma staged_upd [simp]:
  "(\<And>w. staged_pending (f w) = staged_pending w) \<Longrightarrow> staged (upd_work f s) = staged s" "staged (dbg_inc i s) = staged s"
  by (simp_all add: upd_work_def dbg_inc_def)

lemma staged_mul_loop [simp]: "staged (gf128_mul_loop a v s) = staged s"
  unfolding gf128_mul_loop_def by (subst bpf_loop_keeps [where g = staged]) (auto simp: gf128_mul_iter_def Let_def split_beta)

lemma staged_callbacks [simp]: "staged (snd (copy_h_power_step i s)) = staged s" "staged (snd (h_power_step i s)) = staged s"
  by (auto simp: copy_h_power_step_def h_power_step_def Let_def split: option.split)

lemma staged_block [simp]: "staged (snd (ghash_block_iter i s)) = staged s"
  by (simp add: ghash_block_iter_def Let_def bpf_loop_keeps [where g = staged])

lemma staged_patch [simp]: "staged (snd (ghash_patch_iter i s)) = staged s"
  by (simp add: ghash_patch_iter_def Let_def bpf_loop_keeps [where g = staged])

lemma staged_ghash_update:
  fixes s :: "'a tc_maps_scheme"
  shows "staged (snd (tc_ghash_update skb s)) = staged s"
proof -
  have "staged (snd (tc_ghash_tag skb off t)) = staged t" for off and t :: "'a tc_maps_scheme"
    by (simp add: tc_ghash_tag_def Let_def split: option.split)
  then show ?thesis by (simp add: tc_ghash_update_def Let_def bpf_loop_keeps [where g = staged])
qed

text \<open>A patch without its length, which an egress run zeroes where it cannot apply the patch.\<close>

definition patch_ident :: "xor_patch \<Rightarrow> u32 \<times> bytes \<times> secret_key" where
  "patch_ident q = (secret_offset q, xor_delta q, patch_key q)"

definition idents :: "xor_pending_val \<Rightarrow> u32 \<times> (u32 \<times> bytes \<times> secret_key) list" where
  "idents p = (xp_patch_count p, map patch_ident (xp_patches p))"

lemma idents_zeroed: "idents (staged (upd_patch i (\<lambda>q. q\<lparr>secret_len := 0\<rparr>) s)) = idents (staged s)"
proof -
  have "map patch_ident (qs[i := (qs ! i)\<lparr>secret_len := 0\<rparr>]) = map patch_ident qs" for qs
    by (cases "i < length qs") (simp_all add: map_update patch_ident_def list_update_same_conv list_update_beyond not_less)
  then show ?thesis by (simp add: idents_def upd_patch_def upd_work_def)
qed

lemma idents_apply_patches:
  assumes "tc_apply_patches po rl nl pc skb s = (skb', s', n)"
  shows "idents (staged s') = idents (staged s)"
proof -
  have step: "idents (staged (fst (snd (tc_apply_patch po rl nl p st)))) = idents (staged (fst (snd st)))" for p st
    by (cases st) (simp add: tc_apply_patch_def Let_def idents_zeroed split: option.split)
  have "idents (staged (fst (snd (fold (tc_apply_patch po rl nl) ps st)))) = idents (staged (fst (snd st)))" for ps st
    by (induction ps arbitrary: st) (simp_all add: step)
  from this [of "[0..<pc]" "(skb, s, 0)"] show ?thesis using assms by (simp add: tc_apply_patches_def)
qed

text \<open>The packet has a record that the egress program patches with the entry \<open>v\<close> of its connection.\<close>

definition egress_stages :: "sk_buff \<Rightarrow> tcp_seg \<Rightarrow> tc_pending_val \<Rightarrow> 'a tc_maps_scheme \<Rightarrow> bool" where
  "egress_stages skb seg v s \<longleftrightarrow> tc_parse_headers skb = Some seg \<and> tc_tag_pending s (ts_key seg) = None
     \<and> 5 \<le> ts_payload_len seg \<and> tc_pending s (ts_key seg) = Some v \<and> tp_active v \<and> tc_seq_ok seg v
     \<and> (case tc_first_record (TC_MAX_LEADING_RECORDS + 1) skb (ts_payload_off seg) 0 of None \<Rightarrow> False
        | Some (off, rlen) \<Rightarrow> (case tc_select_record skb off rlen (tp_plaintext_len v) (tc_nonce_len v s) of
            (off', rlen', nonce) \<Rightarrow> 16 + nonce \<le> rlen'))"

lemma patch_record_idents:
  assumes "16 + nl \<le> rl"
  shows "idents (staged (snd (tc_patch_record tail skb seg v po rl nl s))) = idents (staged (tc_stage seg v po rl nl s))"
proof -
  let ?s1 = "tc_stage seg v po rl nl s"
  obtain skb' s2 n where a: "tc_apply_patches po rl nl (unat (xp_patch_count (staged ?s1))) skb ?s1 = (skb', s2, n)"
    by (metis prod.collapse)
  have "\<not> rl < 16 + nl" using assms by simp
  then show ?thesis
    using idents_apply_patches [OF a] by (simp add: tc_patch_record_def Let_def a staged_ghash_update)
qed

lemma stage_idents:
  assumes "staged_shape v"
  shows "unat (xp_patch_count (staged (tc_stage seg v po rl nl s))) = unat (tp_patch_count v)"
    "take (unat (tp_patch_count v)) (xp_patches (staged (tc_stage seg v po rl nl s))) = pending_patches v"
proof -
  have c: "\<not> tp_patch_count v > of_nat XOR_MAX_PATCHES" "unat (tp_patch_count v) \<le> length (tp_patches v)"
    using assms by (simp_all add: staged_shape_def XOR_MAX_PATCHES_def word_less_nat_alt)
  then show "unat (xp_patch_count (staged (tc_stage seg v po rl nl s))) = unat (tp_patch_count v)"
    "take (unat (tp_patch_count v)) (xp_patches (staged (tc_stage seg v po rl nl s))) = pending_patches v"
    by (simp_all add: tc_stage_def Let_def upd_work_def pending_patches_def)
qed

lemma egress_idents:
  fixes tail :: bool
  assumes "egress_stages skb seg v s" "staged_shape v"
  defines "p \<equiv> staged (snd (tc_egress_patch tail skb s))"
  shows "unat (xp_patch_count p) = unat (tp_patch_count v)"
    "map patch_ident (take (unat (tp_patch_count v)) (xp_patches p)) = map patch_ident (pending_patches v)"
proof -
  obtain off rlen where r: "tc_first_record (TC_MAX_LEADING_RECORDS + 1) skb (ts_payload_off seg) 0 = Some (off, rlen)"
    using assms(1) by (auto simp: egress_stages_def split: option.splits)
  obtain off' rlen' nl where sel: "tc_select_record skb off rlen (tp_plaintext_len v) (tc_nonce_len v s) = (off', rlen', nl)"
    by (metis prod.collapse)
  let ?s = "dbg_inc DBG_TC_MATCH (dbg_inc DBG_TC_ENTRY s)"
  have n: "tc_nonce_len v (dbg_inc i u) = tc_nonce_len v u" for i and u :: "'a tc_maps_scheme"
    by (simp add: tc_nonce_len_def dbg_inc_def)
  have d: "tc_tag_pending (dbg_inc i u) = tc_tag_pending u" "tc_pending (dbg_inc i u) = tc_pending u" for i and u :: "'a tc_maps_scheme"
    by (simp_all add: dbg_inc_def)
  have g: "tc_parse_headers skb = Some seg" "tc_tag_pending s (ts_key seg) = None" "\<not> ts_payload_len seg < 5"
      "tc_pending s (ts_key seg) = Some v" "tp_active v" "tc_seq_ok seg v" "16 + nl \<le> rlen'"
    using assms(1) r sel by (simp_all add: egress_stages_def not_less del: tc_first_record.simps)
  have "tc_egress_patch tail skb s = tc_patch_record tail skb seg v off' rlen' nl ?s"
    unfolding tc_egress_patch_def Let_def g(1) option.case d g(2) if_not_P [OF g(3)] r prod.case g(4)
    using g(5,6) by (simp add: n sel)
  then have i: "idents p = idents (staged (tc_stage seg v off' rlen' nl ?s))"
    using patch_record_idents [OF g(7)] by (simp add: p_def)
  then have c: "xp_patch_count p = xp_patch_count (staged (tc_stage seg v off' rlen' nl ?s))"
      "map patch_ident (xp_patches p) = map patch_ident (xp_patches (staged (tc_stage seg v off' rlen' nl ?s)))"
    by (simp_all add: idents_def)
  show "unat (xp_patch_count p) = unat (tp_patch_count v)" using c(1) stage_idents(1) [OF assms(2)] by simp
  show "map patch_ident (take (unat (tp_patch_count v)) (xp_patches p)) = map patch_ident (pending_patches v)"
    using c(2) stage_idents(2) [OF assms(2), of seg off' rlen' nl ?s] by (metis take_map)
qed

section \<open>The write that goes on\<close>

lemma stage_match_appends:
  fixes s :: kmaps and cfg :: config and e :: kenv and m :: xor_match
  assumes "unat (xp_patch_count (staged s)) = pc" "1 \<le> pc" "pc \<le> XOR_MAX_PATCHES"
  defines "p' \<equiv> staged (xor_stage_match cfg e m s)"
  shows "take pc (held p') = held (staged s)" "xp_patch_count p' \<noteq> 0"
proof -
  let ?p = "staged s"
  obtain ok t where a: "secret_binding_allows cfg e (xm_key m) s = (ok, t)" by fastforce
  have "staged (snd (secret_binding_allows cfg e (xm_key m) s)) = ?p"
    by (simp add: secret_binding_allows_def Let_def report_secret_event_def dbg_inc_def)
  then have t: "staged t = ?p" using a by simp
  have "p' = ?p \<or> pc < XOR_MAX_PATCHES \<and> (\<exists>q. p' = ?p\<lparr>xp_patches := (xp_patches ?p)[pc := q], xp_patch_count := xp_patch_count ?p + 1\<rparr>)"
    using t assms(1) by (auto simp: p'_def xor_stage_match_def Let_def a dbg_inc_def split: option.split)
  then have "held ?p = take pc (held p') \<and> xp_patch_count p' \<noteq> 0"
  proof
    assume "p' = ?p"
    then show ?thesis using assms(1,2) by (auto simp: held_def)
  next
    assume "pc < XOR_MAX_PATCHES \<and> (\<exists>q. p' = ?p\<lparr>xp_patches := (xp_patches ?p)[pc := q], xp_patch_count := xp_patch_count ?p + 1\<rparr>)"
    then obtain q where q: "pc < XOR_MAX_PATCHES" "p' = ?p\<lparr>xp_patches := (xp_patches ?p)[pc := q], xp_patch_count := xp_patch_count ?p + 1\<rparr>"
      by blast
    have "unat (xp_patch_count ?p + 1) = pc + 1" using q(1) assms(1) by (simp add: XOR_MAX_PATCHES_def unat_plus_noof)
    then show ?thesis using q(2) assms(1) by (auto simp: held_def)
  qed
  then show "take pc (held p') = held ?p" "xp_patch_count p' \<noteq> 0" by simp_all
qed

section \<open>Properties\<close>

text \<open>
  C25: the shared buffer loses a write. When an egress run with work for its connection comes between the last two
  tail-called programs of a write, the write stages the patches of that connection, of whatever process
  and container, as its own: the reset of the buffer and the patches already staged are gone.
\<close>

theorem egress_interrupts_write:
  fixes s :: kmaps
  assumes "bpf_xor_path cfg e s = (True, s1)" "sb_xor_current_match (scratch s1) + 1 = sb_xor_match_count (scratch s1)"
    and "egress_stages skb seg v s1" "staged_shape v" "ke_room e XOR_PENDING"
  shows "\<exists>p. xor_pending (xor_path_run (Suc n) cfg e (snd (tc_egress_patch tail skb s1))) (cur_tgid e) = Some p
    \<and> map patch_ident (take (length (pending_patches v)) (held p)) = map patch_ident (pending_patches v)"
proof -
  let ?s2 = "snd (tc_egress_patch tail skb s1)" and ?pc = "unat (tp_patch_count v)"
  let ?mi = "sb_xor_current_match (scratch s)"
  have run: "?mi < sb_xor_match_count (scratch s)" "unat (?mi + 1) < XOR_MAX_MATCHES" "sb_xor_current_match (scratch s1) = ?mi + 1"
    using assms(1) by (auto simp: bpf_xor_path_def Let_def split: if_splits)
  have sc: "scratch ?s2 = scratch s1" by (rule egress_keeps(2))
  let ?m = "sb_xor_current_match (scratch ?s2)"
  have z: "?mi + 1 \<noteq> 0" using run(1) by (metis eq_neg_iff_add_eq_0 word_order.extremum_strict word_not_simps(3))
  have l: "w < w + 1" if "unat w < XOR_MAX_MATCHES" for w :: u32
    using that unat_plus_noof [of w 1] by (simp add: XOR_MAX_MATCHES_def word_less_nat_alt)
  have m: "?m \<noteq> 0" "?m + 1 = sb_xor_match_count (scratch ?s2)" "unat ?m < XOR_MAX_MATCHES" "\<not> ?m \<ge> sb_xor_match_count (scratch ?s2)"
    using run(2) z assms(2) l [OF run(2)] unfolding sc run(3) by (simp_all add: not_le)
  note i = egress_idents [OF assms(3,4), of tail]
  have pc: "1 \<le> ?pc" "?pc \<le> XOR_MAX_PATCHES" "length (pending_patches v) = ?pc"
    using assms(4) by (simp_all add: staged_shape_def pending_patches_def)
  define mt where "mt = sb_xor_matches (scratch ?s2) ! unat ?m"
  define t where "t = xor_stage_match cfg e mt (dbg_inc DBG_XOR_PATH_ENTERED ?s2)"
  have "unat (xp_patch_count (staged (dbg_inc DBG_XOR_PATH_ENTERED ?s2))) = ?pc" using i(1) by simp
  note a = stage_match_appends [OF this pc(1,2), of cfg e mt, folded t_def]
  have d: "xor_pending (dbg_inc i u) = xor_pending u" "scratch (dbg_inc i u) = scratch u" for i and u :: kmaps by (simp_all add: dbg_inc_def)
  have x: "xor_pending (snd (bpf_xor_path cfg e ?s2)) (cur_tgid e) = Some (staged t) \<and> \<not> fst (bpf_xor_path cfg e ?s2)"
    using m a(2) assms(5) by (simp add: bpf_xor_path_def Let_def mt_def [symmetric] t_def [symmetric] d map_put_def)
  have "held (staged (dbg_inc DBG_XOR_PATH_ENTERED ?s2)) = take ?pc (xp_patches (staged ?s2))" using i(1) by (simp add: held_def)
  then have "map patch_ident (take ?pc (held (staged t))) = map patch_ident (pending_patches v)" using a(1) i(2) by simp
  then show ?thesis using x pc(3) by (simp add: split_beta)
qed

section \<open>A concrete interruption\<close>

text \<open>
  The write of \<open>Xor_Path\<close> with two placeholders, by a process of the container 11, and the packet of
  \<open>Tc_Egress\<close>, of a connection of the container 3.
\<close>

definition interrupted_kmaps :: kmaps where
  "interrupted_kmaps = matched_kmaps\<lparr>tc_pending := [ts_key (example_seg 59) \<mapsto> example_pending],
     tls_conn_state := tls_conn_state example_maps\<rparr>"

definition other_packet :: sk_buff where
  "other_packet = example_segment (recs_bytes [(0x14, 3, [1]), (0x17, 3, replicate 48 9)])"

lemma interrupted_first:
  "\<exists>s1. bpf_xor_path secret_config (write_env 120) interrupted_kmaps = (True, s1)
    \<and> sb_xor_current_match (scratch s1) + 1 = sb_xor_match_count (scratch s1) \<and> tc_pending s1 = tc_pending interrupted_kmaps
    \<and> tc_tag_pending s1 = (\<lambda>_. None) \<and> tls_conn_state s1 = tls_conn_state example_maps"
proof -
  let ?sd = "scratch interrupted_kmaps"
  have sd: "path_at secret_config (write_env 120) ?sd (xor_stage_init (write_env 120) interrupted_kmaps) 0 interrupted_kmaps"
      "scratch_ok ?sd" "0 < unat (sb_xor_match_count ?sd)" "unat (sb_xor_match_count ?sd) = 2"
    by (simp_all add: path_at_def interrupted_kmaps_def matched_kmaps_def scratch_ok_def example_placeholders example_kmaps_def XOR_MAX_MATCHES_def)
  obtain s1 where s1: "bpf_xor_path secret_config (write_env 120) interrupted_kmaps = (Suc 0 < unat (sb_xor_match_count ?sd), s1)"
      "path_at secret_config (write_env 120) ?sd (xor_stage_init (write_env 120) interrupted_kmaps) (Suc 0) s1"
      "no_path s1 = no_path interrupted_kmaps"
    using xor_path_step [OF sd(1-3)] by blast
  have "tls_conn_state s1 = tls_conn_state interrupted_kmaps"
    using arg_cong [OF s1(3), of tls_conn_state] by (simp add: no_path_def no_report_def)
  moreover have "tc_pending s1 = tc_pending interrupted_kmaps" "tc_tag_pending s1 = tc_tag_pending interrupted_kmaps"
    using net_part_no_path [OF s1(3)] by (simp_all add: net_part_def)
  moreover have "tc_tag_pending interrupted_kmaps = (\<lambda>_. None)" "tls_conn_state interrupted_kmaps = tls_conn_state example_maps"
    by (simp_all add: interrupted_kmaps_def matched_kmaps_def example_kmaps_def)
  moreover have "sb_xor_current_match (scratch s1) + 1 = sb_xor_match_count (scratch s1)"
    using s1(2) by (simp add: path_at_def) (simp add: interrupted_kmaps_def matched_kmaps_def)
  ultimately show ?thesis using s1(1) sd(4) by auto
qed

lemma other_packet_stages:
  fixes s :: kmaps
  assumes "tc_pending s = [ts_key (example_seg 59) \<mapsto> example_pending]" "tc_tag_pending s = (\<lambda>_. None)"
    and "tls_conn_state s = tls_conn_state example_maps"
  shows "egress_stages other_packet (example_seg 59) example_pending s"
proof -
  let ?pl = "recs_bytes [(0x14, 3, [1]), (0x17, 3, replicate 48 9)]"
  have l: "length ?pl = 59" by (simp add: recs_bytes_def rec_bytes_def tls_hdr_def)
  have p: "tc_parse_headers other_packet = Some (example_seg 59)"
    using example_parse [of ?pl] unfolding l other_packet_def by simp
  have d: "skb_data other_packet = example_ip 99 @ recs_bytes ([(0x14, 3, [1])] @ []) @ rec_bytes (0x17, 3, replicate 48 9) @ []"
    unfolding other_packet_def example_segment_def l by (simp add: recs_bytes_def)
  have n: "tc_nonce_len example_pending s = 0" "length (skb_data other_packet) < 2 ^ 31" "unat (ts_payload_off (example_seg 59)) = length (example_ip 99)"
    using assms(3) by (simp_all add: tc_nonce_len_def example_maps_def example_pending_def TLS_NONCE_UNKNOWN_def other_packet_def
        example_segment_def example_ip_def l example_seg_def)
  obtain off1 rlen1 off' where f: "tc_first_record (TC_MAX_LEADING_RECORDS + 1) other_packet (ts_payload_off (example_seg 59)) 0 = Some (off1, rlen1)"
      "tc_select_record other_packet off1 rlen1 31 0 = (off', rec_len (0x17, 3, replicate 48 9), 0)"
    using tc_finds_record [OF d n(2,3) example_records] by auto
  have "rec_len (0x17, 3, replicate 48 (9 :: u8)) = 48" by (simp add: rec_len_def)
  then show ?thesis
    using p f n(1) assms(1,2) unfolding egress_stages_def
    by (simp add: example_pending_def example_seg_def tc_seq_ok_def Let_def del: tc_first_record.simps)
qed

theorem egress_interrupts_write_witness:
  "\<exists>s1 p. bpf_xor_path secret_config (write_env 120) interrupted_kmaps = (True, s1)
    \<and> xor_pending (xor_path_run 32 secret_config (write_env 120) (snd (tc_egress_patch True other_packet s1))) 7 = Some p
    \<and> patch_key (held p ! 0) = patch_key example_patch \<and> secret_map secret_config (patch_key example_patch) = None"
proof -
  obtain s1 where s1: "bpf_xor_path secret_config (write_env 120) interrupted_kmaps = (True, s1)"
      "sb_xor_current_match (scratch s1) + 1 = sb_xor_match_count (scratch s1)" "tc_pending s1 = tc_pending interrupted_kmaps"
      "tc_tag_pending s1 = (\<lambda>_. None)" "tls_conn_state s1 = tls_conn_state example_maps"
    using interrupted_first by blast
  have st: "egress_stages other_packet (example_seg 59) example_pending s1"
    by (rule other_packet_stages) (use s1 in \<open>simp_all add: interrupted_kmaps_def\<close>)
  have v: "staged_shape example_pending" "ke_room (write_env 120) XOR_PENDING" "cur_tgid (write_env 120) = 7"
      "pending_patches example_pending = [example_patch]"
    by (simp_all add: staged_shape_def example_pending_def XOR_MAX_PATCHES_def write_env_def pending_patches_def)
  obtain p where p: "xor_pending (xor_path_run (Suc 31) secret_config (write_env 120) (snd (tc_egress_patch True other_packet s1))) 7 = Some p"
      "map patch_ident (take 1 (held p)) = [patch_ident example_patch]"
    using egress_interrupts_write [OF s1(1,2) st v(1,2), of 31 True] v(3,4) by auto
  have "patch_key (held p ! 0) = patch_key example_patch" using p(2) by (cases "held p") (simp_all add: patch_ident_def)
  moreover have "secret_map secret_config (patch_key example_patch) = None"
  proof -
    have "patch_key example_patch \<noteq> example_key" by code_simp
    then show ?thesis by (simp add: secret_config_def)
  qed
  moreover have "Suc 31 = 32" by simp
  ultimately show ?thesis using s1(1) p(1) by metis
qed

end
