(* ===== verification/Node.thy ===== *)
theory Node
  imports Secret_Delivery Interrupts
begin

text \<open>
  A node of several CPUs. Each has its own scratch buffers and counters, all share the other maps. A
  program runs to its end; between two tail-called programs of a write the other CPUs run theirs, and an
  interrupt may run any program on the write's own CPU, the egress program and other writes included.

  An action of a CPU begins an event (for a write, its probe) or continues with the next tail-called program
  of the write it interrupted last. The one-event-at-a-time model of \<open>Data_Events\<close> is a CPU that continues
  until its chain is done. An action may change the buffers of an unfinished write of its CPU (\<open>disturbs\<close>):
  what holds then is \<open>node_shape\<close>, what holds in the runs without such actions is \<open>node_ok\<close>.
\<close>

section \<open>CPUs\<close>

text \<open>A chain: the write's environment, the program it tail-calls next, the tail calls left.\<close>

type_synonym chain = "kenv \<times> tail_call \<times> nat"

record cpu =
  cpu_scratch :: scratch_buf
  cpu_ghash :: ghash_work
  cpu_powers :: "bytes list"
  cpu_counters :: "dbg \<Rightarrow> u64"
  cpu_chains :: "chain list"

text \<open>The unfinished writes of a CPU are in the order of their interruption, the last one first.\<close>

text \<open>The per-CPU fields of \<open>node_maps\<close> are those of the last CPU that ran, and not read.\<close>

record node =
  node_maps :: kmaps
  node_cpus :: "nat \<Rightarrow> cpu"

definition mount :: "cpu \<Rightarrow> kmaps \<Rightarrow> kmaps" where
  "mount k s = s\<lparr>scratch := cpu_scratch k, ghash_scratch := cpu_ghash k, h_power_entries := cpu_powers k,
     debug_counters := cpu_counters k\<rparr>"

definition park :: "kmaps \<Rightarrow> chain list \<Rightarrow> cpu" where
  "park s chs = \<lparr>cpu_scratch = scratch s, cpu_ghash = ghash_scratch s, cpu_powers = h_power_entries s,
     cpu_counters = debug_counters s, cpu_chains = chs\<rparr>"

text \<open>What CPU \<open>c\<close> sees.\<close>

abbreviation view :: "nat \<Rightarrow> node \<Rightarrow> kmaps" where
  "view c m \<equiv> mount (node_cpus m c) (node_maps m)"

abbreviation chains_of :: "nat \<Rightarrow> node \<Rightarrow> chain list" where
  "chains_of c m \<equiv> cpu_chains (node_cpus m c)"

definition leave :: "nat \<Rightarrow> chain list \<times> kmaps \<Rightarrow> node \<Rightarrow> node" where
  "leave c r m = \<lparr>node_maps = snd r, node_cpus = (node_cpus m)(c := park (snd r) (fst r))\<rparr>"

section \<open>Actions\<close>

definition open_chain :: "kenv \<Rightarrow> tail_call \<times> kmaps \<Rightarrow> chain option \<times> kmaps" where
  "open_chain e r = (if fst r = NO_TAIL_CALL then None else Some (e, fst r, MAX_TAIL_CALLS), snd r)"

text \<open>The first program of an event.\<close>

fun begin_event :: "config \<Rightarrow> dp_event \<Rightarrow> kmaps \<Rightarrow> chain option \<times> kmaps" where
  "begin_event cfg (Ssl_Write e ssl a n) s = open_chain e (bpf_uprobe_ssl_write cfg e ssl a n s)"
| "begin_event cfg (Go_Write e conn a n) s = open_chain e (bpf_uprobe_go_tls_write e conn a n s)"
| "begin_event cfg ev s = (None, dp_run cfg ev s)"

text \<open>The next program of a chain; a tail call beyond the kernel's limit fails.\<close>

fun next_program :: "config \<Rightarrow> chain \<Rightarrow> kmaps \<Rightarrow> chain option \<times> kmaps" where
  "next_program cfg (e, t, 0) s = (None, s)"
| "next_program cfg (e, t, Suc n) s =
     (let (again, s') = (if t = TAIL_H_EXTRACT then bpf_h_extract cfg e s else bpf_xor_path cfg e s)
      in (if again then Some (e, TAIL_XOR_PATH, n) else None, s'))"

datatype action = Begin dp_event | Continue

fun push :: "chain option \<times> kmaps \<Rightarrow> chain list \<Rightarrow> chain list \<times> kmaps" where
  "push (None, s) chs = (chs, s)"
| "push (Some ch, s) chs = (ch # chs, s)"

fun node_run :: "config \<Rightarrow> nat \<times> action \<Rightarrow> node \<Rightarrow> node" where
  "node_run cfg (c, Begin ev) m = leave c (push (begin_event cfg ev (view c m)) (chains_of c m)) m"
| "node_run cfg (c, Continue) m =
     (case chains_of c m of [] \<Rightarrow> m | ch # chs \<Rightarrow> leave c (push (next_program cfg ch (view c m)) chs) m)"

abbreviation node_exec :: "config \<Rightarrow> (nat \<times> action) list \<Rightarrow> node \<Rightarrow> node" where
  "node_exec cfg acts m \<equiv> fold (node_run cfg) acts m"

text \<open>
  An action that begins on a CPU with an unfinished write and changes what the write has in the CPU's
  buffers, the matches in \<open>scratch\<close> or the patches in \<open>staged_pending\<close>, or begins another write over them.
\<close>

fun disturbs :: "config \<Rightarrow> nat \<times> action \<Rightarrow> node \<Rightarrow> bool" where
  "disturbs cfg (c, Begin ev) m \<longleftrightarrow> chains_of c m \<noteq> []
     \<and> (let s = view c m; (ch, s') = begin_event cfg ev s
        in ch \<noteq> None \<or> scratch s' \<noteq> scratch s \<or> staged s' \<noteq> staged s)"
| "disturbs cfg (c, Continue) m = False"

text \<open>Every process stays in its container.\<close>

fun act_in_container :: "(u32 \<Rightarrow> u64) \<Rightarrow> nat \<times> action \<Rightarrow> bool" where
  "act_in_container cg (c, Begin ev) = in_container cg ev"
| "act_in_container cg (c, Continue) = True"

text \<open>Any step of a node, and the steps of the calm runs, which disturb no unfinished write.\<close>

inductive node_step :: "config \<Rightarrow> node \<Rightarrow> node \<Rightarrow> bool" for cfg where
  any: "node_step cfg m (node_run cfg x m)"

inductive calm_step :: "config \<Rightarrow> (u32 \<Rightarrow> u64) \<Rightarrow> node \<Rightarrow> node \<Rightarrow> bool" for cfg and cg where
  calm: "act_in_container cg x \<Longrightarrow> \<not> disturbs cfg x m \<Longrightarrow> calm_step cfg cg m (node_run cfg x m)"

section \<open>Views\<close>

lemma mount_fields [simp]:
  "scratch (mount k s) = cpu_scratch k" "ghash_scratch (mount k s) = cpu_ghash k" "h_power_entries (mount k s) = cpu_powers k"
  "xor_pending (mount k s) = xor_pending s" "tc_pending (mount k s) = tc_pending s" "tc_tag_pending (mount k s) = tc_tag_pending s" "net_part (mount k s) = net_part s"
  "tracked_cgroups (mount k s) = tracked_cgroups s" "conn_ip_map (mount k s) = conn_ip_map s"
  "tls_conn_state (mount k s) = tls_conn_state s" "sni_state (mount k s) = sni_state s" "vip_upstream (mount k s) = vip_upstream s"
  "vip_sock_host (mount k s) = vip_sock_host s" "vip_sock_dst (mount k s) = vip_sock_dst s"
  by (simp_all add: mount_def net_part_def)

lemma park_fields [simp]:
  "cpu_scratch (park s chs) = scratch s" "cpu_ghash (park s chs) = ghash_scratch s" "cpu_chains (park s chs) = chs"
  by (simp_all add: park_def)

lemma mount_park [simp]: "mount (park s chs) s = s"
  by (simp add: mount_def park_def)

lemma leave_fields [simp]:
  "node_maps (leave c r m) = snd r" "node_cpus (leave c r m) = (node_cpus m)(c := park (snd r) (fst r))"
  by (simp_all add: leave_def)

lemma view_leave: "view c (leave c r m) = snd r" "chains_of c (leave c r m) = fst r"
  by simp_all

lemma push_fields [simp]:
  "snd (push r chs) = snd r" "fst (push r chs) = (case fst r of None \<Rightarrow> chs | Some ch \<Rightarrow> ch # chs)"
  by (cases r; cases "fst r"; simp)+

text \<open>An action of one CPU leaves the others as they are.\<close>

lemma node_run_other: "d \<noteq> fst x \<Longrightarrow> node_cpus (node_run cfg x m) d = node_cpus m d"
  by (cases "(cfg, x, m)" rule: node_run.cases) (auto split: list.split)

text \<open>Every event but a write is one program.\<close>

fun writes :: "dp_event \<Rightarrow> bool" where
  "writes (Ssl_Write e ssl a n) = True"
| "writes (Go_Write e conn a n) = True"
| "writes ev = False"

lemma begin_other: "\<not> writes ev \<Longrightarrow> begin_event cfg ev s = (None, dp_run cfg ev s)"
  by (cases ev) simp_all

section \<open>Shapes\<close>

text \<open>The arrays of the buffers and maps have their lengths, and the counts stay within them, whatever interrupts what.\<close>

definition buffers_ok :: "kmaps \<Rightarrow> bool" where
  "buffers_ok s \<longleftrightarrow> shape_ok s \<and> slots_ok (staged s)"

definition node_shape :: "node \<Rightarrow> bool" where
  "node_shape m \<longleftrightarrow> (\<forall>c. buffers_ok (view c m))"

lemma node_shape_leave:
  assumes "node_shape m" "buffers_ok (snd r)"
  shows "node_shape (leave c r m)"
proof -
  have "buffers_ok (view d (leave c r m))" for d
    using assms by (cases "d = c") (auto simp: node_shape_def buffers_ok_def shape_ok_def)
  then show ?thesis by (simp add: node_shape_def)
qed

lemma scan_write_ghash: "ghash_scratch (scan_write e ssl a r n chain mb s) = ghash_scratch s"
proof -
  have scan: "ghash_scratch (prescan_scan n i off s) = ghash_scratch s" for n i off s
    by (induction n arbitrary: i s) (simp_all add: Let_def dbg_inc_def)
  have "ghash_scratch (snd (prescan_chunk mem a n i s)) = ghash_scratch s" for mem n i s
    by (simp add: prescan_chunk_def Let_def scan)
  then show ?thesis by (simp add: scan_write_def Let_def dbg_inc_def bpf_loop_keeps [where g = ghash_scratch])
qed

lemma h_extract_ghash: "ghash_scratch (snd (bpf_h_extract cfg e s)) = ghash_scratch s"
proof -
  have "ghash_scratch (snd (h_extract_source e off x s)) = ghash_scratch s" for off x
    using no_reportD(1) [OF ossl_read_gcm_h_frame]
    by (simp add: h_extract_source_def Let_def split_beta split: option.splits)
  then show ?thesis by (auto simp: bpf_h_extract_def Let_def split_beta split: option.splits)
qed

lemma stage_match_slots:
  assumes "slots_ok (staged s)"
  shows "slots_ok (staged (xor_stage_match cfg e m s))"
proof -
  have "staged (snd (secret_binding_allows cfg e (xm_key m) s)) = staged s"
    using no_reportD(1) [OF no_report_binding] by simp
  moreover have "unat (x + 1) \<le> XOR_MAX_PATCHES" if "unat x < XOR_MAX_PATCHES" for x :: u32
    using that by (simp add: XOR_MAX_PATCHES_def unat_plus_noof)
  ultimately show ?thesis
    using assms by (auto simp: xor_stage_match_def slots_ok_def Let_def split_beta dbg_inc_def split: option.split)
qed

lemma xor_path_keeps:
  assumes "buffers_ok s"
  shows "net_part (snd (bpf_xor_path cfg e s)) = net_part s \<and> buffers_ok (snd (bpf_xor_path cfg e s))"
proof -
  have i: "slots_ok (xor_stage_init e s)"
    by (simp add: slots_ok_def xor_stage_init_def Let_def split: option.split)
  define s1 where "s1 = dbg_inc DBG_XOR_PATH_ENTERED (if sb_xor_current_match (scratch s) = 0
      then s\<lparr>ghash_scratch := (ghash_scratch s)\<lparr>staged_pending := xor_stage_init e s\<rparr>\<rparr> else s)"
  have s1: "net_part s1 = net_part s" "slots_ok (staged s1)" "scratch s1 = scratch s" "xor_pending s1 = xor_pending s"
    using assms i by (simp_all add: s1_def buffers_ok_def net_part_def dbg_inc_def)
  define s2 where "s2 = (\<lambda>m t. xor_stage_match cfg e m t)"
  have s2: "net_part (s2 m s1) = net_part s" "slots_ok (staged (s2 m s1))" "scratch (s2 m s1) = scratch s"
      "xor_pending (s2 m s1) = xor_pending s" for m
    using xor_stage_match_frame [of cfg e m s1] net_part_no_path [of "xor_stage_match cfg e m s1" s1] stage_match_slots [OF s1(2), of cfg e m] s1
    by (simp_all add: s2_def)
  have "tc_pending (s2 m s1) = tc_pending s" for m using s2(1) by (simp add: net_part_def)
  moreover have "bpf_xor_path cfg e s = (let sd = scratch s; mi = sb_xor_current_match sd in
      if mi \<ge> sb_xor_match_count sd \<or> unat mi \<ge> XOR_MAX_MATCHES then (False, s)
      else let t = s2 (sb_xor_matches sd ! (unat mi mod XOR_MAX_MATCHES)) s1;
               t = t\<lparr>scratch := (scratch t)\<lparr>sb_xor_current_match := mi + 1\<rparr>\<rparr>
           in if mi + 1 < sb_xor_match_count sd \<and> unat (mi + 1) < XOR_MAX_MATCHES then (True, t)
              else let p = staged t in
                if xp_patch_count p = 0 then (False, t)
                else (False, dbg_inc DBG_XOR_DELTA_DONE
                  (t\<lparr>xor_pending := map_put (ke_room e XOR_PENDING) (cur_tgid e) p (xor_pending t)\<rparr>)))"
    unfolding bpf_xor_path_def s1_def s2_def by (simp add: Let_def cong: if_cong)
  ultimately show ?thesis
    using assms s2
    by (auto simp: Let_def buffers_ok_def shape_ok_def scratch_shape_def net_part_def map_put_def split: if_splits)
qed

lemma slots_idents: "idents p = idents q \<Longrightarrow> slots_ok p = slots_ok q"
  unfolding idents_def slots_ok_def by (metis Pair_inject length_map)

lemma egress_slots:
  fixes s :: kmaps
  assumes "slots_ok (staged s)" "\<And>k v. tc_pending s k = Some v \<Longrightarrow> staged_shape v"
  shows "slots_ok (staged (snd (tc_egress_patch tail skb s)))"
proof -
  have rec: "slots_ok (staged (snd (tc_patch_record tail skb seg v po rl nl t)))"
    if "slots_ok (staged t)" "staged_shape v" for seg v po rl nl and t :: kmaps
  proof (cases "rl < 16 + nl")
    case True
    then show ?thesis using that(1) by (simp add: tc_patch_record_def)
  next
    case False
    have "slots_ok (staged (tc_stage seg v po rl nl t))"
      using that by (simp add: tc_stage_def slots_ok_def staged_shape_def Let_def upd_work_def XOR_MAX_PATCHES_def word_less_nat_alt)
    moreover have "16 + nl \<le> rl" using False by simp
    from slots_idents [OF patch_record_idents [OF this, of tail skb seg v po t]]
    have "slots_ok (staged (snd (tc_patch_record tail skb seg v po rl nl t))) = slots_ok (staged (tc_stage seg v po rl nl t))" .
    ultimately show ?thesis by simp
  qed
  have tag: "staged (snd (tc_deferred_tag skb seg tag t)) = staged t" for seg tag and t :: kmaps
    by (simp add: tc_deferred_tag_def Let_def)
  show ?thesis
    using assms rec
    by (auto simp: tc_egress_patch_def Let_def tag split_beta split: option.split simp del: tc_first_record.simps)
qed

lemma send_staged: "staged (bpf_kprobe_tcp_sendmsg cfg e sk s) = staged s"
proof -
  have r: "staged u = staged v" if "no_report u = no_report v" for u v :: kmaps using no_reportD(1) [OF that] by simp
  have k: "staged (snd (filter_keep cfg e sk mb a d key u)) = staged u" for mb a d key u
    by (rule r) (rule filter_keep_report)
  have st: "staged (set_staged f u) = staged u" "staged (store_conn_state ck c u) = staged u" "staged (bridge_forget e p u) = staged u"
    "staged (u\<lparr>tc_pending := x\<rparr>) = staged u"
    for f ck c p x u by (simp_all add: set_staged_def store_conn_state_def bridge_forget_def)
  have l: "staged (snd (socket_filter_loop cfg e sk mb a d n i pc kept u)) = staged u" for mb a d n i pc kept u
    by (induction n arbitrary: i kept u) (simp_all add: Let_def split_beta k st)
  have f: "staged (snd (socket_filter_patches cfg e sk mb u)) = staged u" for mb u
    by (simp add: socket_filter_patches_def Let_def split_beta st l)
  have c: "staged (bridge_commit cfg e sk x u) = staged u" for x u
  proof -
    obtain r0 u2 where k0: "kprobe_conn_state cfg e x u = (r0, u2)" by fastforce
    have "staged u2 = staged u" using kprobe_conn_state_frame [of cfg e x u] k0 by (intro r) simp
    then show ?thesis by (cases r0) (simp_all add: bridge_commit_def k0 Let_def st)
  qed
  show ?thesis
    by (simp add: bpf_kprobe_tcp_sendmsg_def Let_def split_beta f st c split: option.split)
qed

text \<open>Of the events that are one program only an egress run that patches a record changes the buffers of a write.\<close>

lemma event_buffers:
  assumes "\<not> writes ev" "scratch (dp_run cfg ev s) \<noteq> scratch s \<or> staged (dp_run cfg ev s) \<noteq> staged s"
  shows "\<exists>tail skb seg v. ev = Egress tail skb \<and> tc_parse_headers skb = Some seg \<and> tc_tag_pending s (ts_key seg) = None
    \<and> tc_pending s (ts_key seg) = Some v \<and> tp_active v \<and> tc_seq_ok seg v"
proof (cases ev)
  case (Send e sk)
  then show ?thesis using assms(2) send_staged [of cfg e sk s] by (simp add: send_keeps(1))
next
  case (Egress tail skb)
  have tag: "staged (snd (tc_deferred_tag skb seg tag t)) = staged t" for seg tag and t :: kmaps
    by (simp add: tc_deferred_tag_def Let_def)
  have d: "tc_tag_pending (dbg_inc i t) = tc_tag_pending t" "tc_pending (dbg_inc i t) = tc_pending t" for i and t :: kmaps
    by (simp_all add: dbg_inc_def)
  have "staged (snd (tc_egress_patch tail skb s)) \<noteq> staged s" using assms(2) Egress egress_keeps(2) [of tail skb s] by simp
  then show ?thesis
    unfolding Egress tc_egress_patch_def Let_def
    by (auto simp: tag d split: option.splits prod.splits if_splits simp del: tc_first_record.simps)
next
  case (Evict x)
  then show ?thesis using assms(2) by (cases x) simp_all
qed (use assms quiet_event [of ev cfg s] in \<open>simp_all add: no_sock_def\<close>)

lemma event_keeps:
  assumes "\<not> writes ev" "buffers_ok s"
  shows "buffers_ok (dp_run cfg ev s)"
proof -
  have s: "shape_ok s" "slots_ok (staged s)" using assms(2) by (simp_all add: buffers_ok_def)
  have tc: "staged_shape v" if "tc_pending (dp_run cfg ev s) k = Some v" for k v using shape_step [OF s(1) that] .
  have "scratch (dp_run cfg ev s) = scratch s"
  proof (rule ccontr)
    assume "scratch (dp_run cfg ev s) \<noteq> scratch s"
    then obtain tail skb where "ev = Egress tail skb" using event_buffers [OF assms(1), of cfg s] by blast
    then show False using \<open>scratch (dp_run cfg ev s) \<noteq> scratch s\<close> egress_keeps(2) [of tail skb s] by simp
  qed
  moreover have "slots_ok (staged (dp_run cfg ev s))"
  proof (cases "staged (dp_run cfg ev s) = staged s")
    case False
    then obtain tail skb where "ev = Egress tail skb" using event_buffers [OF assms(1), of cfg s] by blast
    moreover have "staged_shape v" if "tc_pending s k = Some v" for k v using s(1) that by (simp add: shape_ok_def)
    ultimately show ?thesis using egress_slots [OF s(2), of tail skb] by simp
  qed (use s(2) in simp)
  moreover have "xor_pending s t = Some p" if p: "xor_pending (dp_run cfg ev s) t = Some p" for t p
  proof (cases ev)
    case (Send e sk)
    then show ?thesis using p send_xor_pending [of cfg e sk s t p] by simp
  next
    case (Egress tail skb)
    then show ?thesis using p egress_keeps(1) [of tail skb s] by simp
  next
    case (Evict x)
    then show ?thesis using p by (cases x) simp_all
  qed (use p assms(1) quiet_event [of ev cfg s] in \<open>simp_all add: no_sock_def\<close>)
  ultimately show ?thesis using s tc unfolding buffers_ok_def shape_ok_def by metis
qed


section \<open>A chain without interruption\<close>

fun run_chain :: "nat \<Rightarrow> config \<Rightarrow> chain option \<times> kmaps \<Rightarrow> chain option \<times> kmaps" where
  "run_chain 0 cfg r = r"
| "run_chain (Suc n) cfg r = run_chain n cfg (case fst r of None \<Rightarrow> r | Some ch \<Rightarrow> next_program cfg ch (snd r))"

lemma run_chain_None [simp]: "run_chain n cfg (None, s) = (None, s)"
  by (induction n) simp_all

lemma run_chain_xor:
  "fuel < n \<Longrightarrow> run_chain n cfg (Some (e, TAIL_XOR_PATH, fuel), s) = (None, xor_path_run fuel cfg e s)"
proof (induction fuel arbitrary: n s)
  case 0
  then show ?case by (cases n) simp_all
next
  case (Suc fuel)
  then obtain n' where n: "n = Suc n'" "fuel < n'" by (cases n) auto
  show ?case using Suc.IH [OF n(2)] by (simp add: n(1) split_beta)
qed

lemma run_chain_write:
  "run_chain 34 cfg (open_chain e r) = (None, run_write cfg e r)"
proof -
  obtain t s where r: "r = (t, s)" by fastforce
  have x: "run_chain 34 cfg (Some (e, TAIL_XOR_PATH, 33), s) = (None, xor_path_run 33 cfg e s)"
    by (rule run_chain_xor) simp
  obtain again s' where h: "bpf_h_extract cfg e s = (again, s')" by fastforce
  have y: "run_chain 33 cfg (Some (e, TAIL_XOR_PATH, 32), s') = (None, xor_path_run 32 cfg e s')"
    by (rule run_chain_xor) simp
  have "run_chain 34 cfg (Some (e, TAIL_H_EXTRACT, 33), s) = run_chain 33 cfg (if again then Some (e, TAIL_XOR_PATH, 32) else None, s')"
    using run_chain.simps(2) [of 33 cfg "(Some (e, TAIL_H_EXTRACT, 33), s)"] next_program.simps(2) [of cfg e TAIL_H_EXTRACT 32 s]
    by (simp add: h)
  then have "run_chain 34 cfg (Some (e, TAIL_H_EXTRACT, 33), s) = (None, run_write cfg e (TAIL_H_EXTRACT, s))"
    using y by (simp add: run_write_def h MAX_TAIL_CALLS_def del: xor_path_run.simps)
  then show ?thesis
    using x by (cases t) (simp_all add: r open_chain_def run_write_def MAX_TAIL_CALLS_def del: run_chain.simps xor_path_run.simps)
qed

lemma node_exec_chain:
  assumes "chains_of c m = fst (push r [])" "view c m = snd r"
  shows "chains_of c (node_exec cfg (replicate n (c, Continue)) m) = fst (push (run_chain n cfg r) [])
    \<and> view c (node_exec cfg (replicate n (c, Continue)) m) = snd (run_chain n cfg r)"
  using assms
proof (induction n arbitrary: m r)
  case (Suc n)
  show ?case
  proof (cases "fst r")
    case None
    then show ?thesis using Suc.IH [OF Suc.prems] Suc.prems by simp
  next
    case (Some ch)
    let ?r = "next_program cfg ch (snd r)"
    have "node_run cfg (c, Continue) m = leave c (push ?r []) m" using Suc.prems Some by simp
    then show ?thesis using Suc.IH [of "leave c (push ?r []) m" ?r] Some by (simp del: next_program.simps push.simps)
  qed
qed simp

lemma begin_run: "run_chain 34 cfg (begin_event cfg ev s) = (None, dp_run cfg ev s)"
  by (cases ev) (simp_all add: run_chain_write del: run_chain.simps)

text \<open>A CPU that goes on until its chain is done performs the event of \<open>Data_Events\<close>.\<close>

lemma node_sequential:
  fixes cfg :: config and m :: node and ev :: dp_event
  assumes "chains_of c m = []"
  defines "m' \<equiv> node_exec cfg ((c, Begin ev) # replicate (Suc MAX_TAIL_CALLS) (c, Continue)) m"
  shows "view c m' = dp_run cfg ev (view c m)" "chains_of c m' = []"
proof -
  define r where "r = begin_event cfg ev (view c m)"
  let ?m1 = "node_run cfg (c, Begin ev) m"
  have m1: "chains_of c ?m1 = fst (push r [])" "view c ?m1 = snd r" using assms(1) by (simp_all add: r_def)
  have "run_chain 34 cfg r = (None, dp_run cfg ev (view c m))" using begin_run by (simp add: r_def del: run_chain.simps)
  moreover have "m' = node_exec cfg (replicate 34 (c, Continue)) ?m1" by (simp add: m'_def MAX_TAIL_CALLS_def del: node_run.simps replicate_Suc)
  ultimately show "view c m' = dp_run cfg ev (view c m)" "chains_of c m' = []"
    using node_exec_chain [OF m1, of cfg 34] by simp_all
qed

section \<open>One program of a chain\<close>

text \<open>\<open>i\<close> of the matches in the scratch buffer are done; \<open>W\<close> holds of the write that is staged.\<close>

definition at_match :: "config \<Rightarrow> kenv \<Rightarrow> (xor_pending_val \<Rightarrow> bool) \<Rightarrow> scratch_buf \<Rightarrow> nat \<Rightarrow> kmaps \<Rightarrow> bool" where
  "at_match cfg e W sd i s \<longleftrightarrow> scratch_ok sd \<and> scratch s = sd\<lparr>sb_xor_current_match := of_nat i\<rparr>
     \<and> (i = 0 \<or> i < unat (sb_xor_match_count sd) \<and> (\<exists>p. W p
          \<and> staged_pending (ghash_scratch s) = put_patches (patches_of cfg e (sb_user_data_ptr sd) (take i (found sd))) p))"

lemma at_match_cong:
  "scratch s = scratch t \<Longrightarrow> staged s = staged t \<Longrightarrow> at_match cfg e W sd i s = at_match cfg e W sd i t"
  by (simp add: at_match_def)

lemma xor_program:
  assumes "at_match cfg e W sd i s" "\<And>t. scratch t = sd\<lparr>sb_xor_current_match := 0\<rparr> \<Longrightarrow> W (xor_stage_init e t)"
  defines "ps \<equiv> patches_of cfg e (sb_user_data_ptr sd) (found sd)"
  shows "\<exists>again s'. bpf_xor_path cfg e s = (again, s') \<and> again = (Suc i < unat (sb_xor_match_count sd)) \<and> no_path s' = no_path s
    \<and> (if again then at_match cfg e W sd (Suc i) s' \<and> xor_pending s' = xor_pending s
       else \<exists>p. W p \<and> xor_pending s' = deposit e ps p (xor_pending s)) \<and> scratch_ok (scratch s')"
proof (cases "sb_xor_match_count sd = 0")
  case True
  then have i: "i = 0" "scratch s = sd\<lparr>sb_xor_current_match := 0\<rparr>" "scratch_ok sd" using assms(1) by (auto simp: at_match_def)
  moreover have "scratch_ok (sd\<lparr>sb_xor_current_match := 0\<rparr>)" using i(3) by (simp add: scratch_ok_def)
  moreover have "ps = []" using True by (simp add: ps_def found_def patches_of_def)
  ultimately show ?thesis using True assms(2) [of s] by (auto simp: bpf_xor_path_def deposit_def)
next
  case False
  have sd: "scratch_ok sd" "scratch s = sd\<lparr>sb_xor_current_match := of_nat i\<rparr>" using assms(1) by (simp_all add: at_match_def)
  have lt: "i < unat (sb_xor_match_count sd)" using assms(1) False by (auto simp: at_match_def unat_gt_0)
  obtain p where p: "W p" "path_at cfg e sd p i s"
  proof (cases "i = 0")
    case True
    then show thesis using that [of "xor_stage_init e s"] assms(2) [of s] sd by (simp add: path_at_def)
  next
    case False
    then show thesis using that assms(1) by (auto simp: at_match_def path_at_def)
  qed
  obtain s' where s': "bpf_xor_path cfg e s = (Suc i < unat (sb_xor_match_count sd), s')" "path_at cfg e sd p (Suc i) s'"
      "no_path s' = no_path s" "xor_pending s' = (if Suc i < unat (sb_xor_match_count sd) then xor_pending s else deposit e ps p (xor_pending s))"
    using xor_path_step [OF p(2) sd(1) lt] unfolding ps_def by blast
  have sc: "scratch s' = sd\<lparr>sb_xor_current_match := of_nat (Suc i)\<rparr>" "scratch_ok (scratch s')"
    using s'(2) sd(1) by (simp_all add: path_at_def scratch_ok_def)
  have "at_match cfg e W sd (Suc i) s'" if "Suc i < unat (sb_xor_match_count sd)"
    using that sc s'(2) p(1) sd(1) by (auto simp: at_match_def path_at_def)
  then show ?thesis using s' sc p(1) by auto
qed

text \<open>A program of a write changes nothing that decides what leaves on which socket, but for its own entry.\<close>

definition in_chain :: "config \<Rightarrow> chain \<Rightarrow> kmaps \<Rightarrow> bool" where
  "in_chain cfg ch s \<longleftrightarrow> (case ch of (e, t, n) \<Rightarrow> \<exists>sd i. at_match cfg e (\<lambda>_. True) sd i s \<and> (t = TAIL_H_EXTRACT \<longrightarrow> i = 0))"

lemma self_match [simp]: "sb_xor_current_match sd = k \<Longrightarrow> sd\<lparr>sb_xor_current_match := k\<rparr> = sd"
  by (cases sd) simp

lemma probe_cases:
  "\<exists>t r k chain mb. bpf_uprobe_ssl_write cfg e ssl a n s \<in> {(NO_TAIL_CALL, s), (t, scan_write e ssl a r k chain mb s)}"
  "\<exists>t r k chain mb. bpf_uprobe_go_tls_write e ssl a len s \<in> {(NO_TAIL_CALL, s), (t, scan_write e ssl a r k chain mb s)}"
  by (simp_all add: bpf_uprobe_ssl_write_def bpf_uprobe_go_tls_write_def Let_def split: option.split) blast+

lemma open_chain_done:
  assumes "scratch_shape (scratch s)" "r \<in> {(NO_TAIL_CALL, s), (t, scan_write e ssl a n k chain mb s)}"
  shows "write_done cfg e s (snd (open_chain e r))" "fst (open_chain e r) = Some ch \<Longrightarrow> fst ch = e \<and> in_chain cfg ch (snd (open_chain e r))"
proof -
  note w = scan_write_ready [OF assms(1), of e ssl a n k chain mb]
  have "scratch_shape (scratch u)" if "scratch_ok (scratch u)" for u using that by (simp add: scratch_ok_def scratch_shape_def)
  then show "write_done cfg e s (snd (open_chain e r))"
    using assms w by (auto simp: open_chain_def write_done_def)
  have "at_match cfg e (\<lambda>_. True) (scratch (scan_write e ssl a n k chain mb s)) 0 (scan_write e ssl a n k chain mb s)"
    using w by (simp add: at_match_def)
  then show "fst ch = e \<and> in_chain cfg ch (snd (open_chain e r))" if "fst (open_chain e r) = Some ch"
    using that assms(2) by (auto simp: open_chain_def in_chain_def split: if_splits intro!: exI)
qed

lemma next_program_done:
  assumes "in_chain cfg (e, t, n) s"
  shows "write_done cfg e s (snd (next_program cfg (e, t, n) s))"
    "fst (next_program cfg (e, t, n) s) = Some ch \<Longrightarrow> fst ch = e \<and> in_chain cfg ch (snd (next_program cfg (e, t, n) s))"
proof -
  obtain sd i where m: "at_match cfg e (\<lambda>_. True) sd i s" "t = TAIL_H_EXTRACT \<Longrightarrow> i = 0" using assms by (auto simp: in_chain_def)
  have sh: "scratch_shape (scratch u)" if "scratch_ok (scratch u)" for u using that by (simp add: scratch_ok_def scratch_shape_def)
  have ok: "scratch_ok (scratch s)" using m(1) by (simp add: at_match_def scratch_ok_def)
  have same: "write_done cfg e s s" using sh [OF ok] by (simp add: write_done_def)
  have "write_done cfg e s (snd (next_program cfg (e, t, n) s))
    \<and> (\<forall>ch. fst (next_program cfg (e, t, n) s) = Some ch \<longrightarrow> fst ch = e \<and> in_chain cfg ch (snd (next_program cfg (e, t, n) s)))"
  proof (cases n)
    case 0
    then show ?thesis using same by simp
  next
    case (Suc k)
    show ?thesis
    proof (cases "t = TAIL_H_EXTRACT")
      case True
      obtain again s' where h: "bpf_h_extract cfg e s = (again, s')" by fastforce
      note f = h_extract_frame [OF h]
      have sc: "scratch s = sd\<lparr>sb_xor_current_match := 0\<rparr>" "scratch_ok sd" using m True by (simp_all add: at_match_def)
      have at: "at_match cfg e (\<lambda>_. True) (scratch s') 0 s'" and ok: "scratch_ok (scratch s')"
        using f sc by (simp_all add: at_match_def scratch_ok_def)
      have "net_part s' = net_part s" "xor_pending s' = xor_pending s" using f by simp_all
      then have "write_done cfg e s s'" using sh [OF ok] by (simp add: write_done_def)
      then show ?thesis using at True Suc h by (auto simp: in_chain_def)
    next
      case False
      let ?ps = "patches_of cfg e (sb_user_data_ptr sd) (found sd)"
      obtain again s' where x: "bpf_xor_path cfg e s = (again, s')" "no_path s' = no_path s" "scratch_ok (scratch s')"
          "if again then at_match cfg e (\<lambda>_. True) sd (Suc i) s' \<and> xor_pending s' = xor_pending s
           else \<exists>p. True \<and> xor_pending s' = deposit e ?ps p (xor_pending s)"
        using xor_program [OF m(1)] by blast
      have "length (found sd) \<le> XOR_MAX_PATCHES"
        using m(1) length_found [of sd] by (simp add: at_match_def scratch_ok_def XOR_MAX_MATCHES_def XOR_MAX_PATCHES_def)
      then have "xor_pending s r = Some q \<or> r = cur_tgid e \<and> staged_in cfg e q" if "xor_pending s' r = Some q" for r q
        using that x(4) staged_in_put [of "found sd" cfg e "sb_user_data_ptr sd"]
        by (auto simp: deposit_def map_put_def split: if_splits)
      then have "write_done cfg e s s'" using net_part_no_path [OF x(2)] sh [OF x(3)] by (simp add: write_done_def)
      then show ?thesis using x(1,4) False Suc by (auto simp: in_chain_def intro!: exI)
    qed
  qed
  then show "write_done cfg e s (snd (next_program cfg (e, t, n) s))"
    "fst (next_program cfg (e, t, n) s) = Some ch \<Longrightarrow> fst ch = e \<and> in_chain cfg ch (snd (next_program cfg (e, t, n) s))" by blast+
qed

section \<open>What every action keeps\<close>

text \<open>A write's probe and the programs of its chain change nothing that decides what leaves on which socket.\<close>

lemma begin_keeps:
  assumes "buffers_ok s"
  shows "buffers_ok (snd (begin_event cfg ev s))" "writes ev \<Longrightarrow> net_part (snd (begin_event cfg ev s)) = net_part s"
proof -
  have w: "net_part (snd (open_chain e r)) = net_part s \<and> buffers_ok (snd (open_chain e r))"
    if "r \<in> {(NO_TAIL_CALL, s), (t, scan_write e ssl a n k chain mb s)}" for e r t ssl a n k chain mb
  proof -
    have "scratch_shape (scratch s)" using assms by (simp add: buffers_ok_def shape_ok_def)
    note f = scan_write_ready [OF this, of e ssl a n k chain mb]
    have "tc_pending (scan_write e ssl a n k chain mb s) = tc_pending s" using f(3) by (simp add: net_part_def)
    then have "buffers_ok (scan_write e ssl a n k chain mb s)"
      using assms f by (simp add: buffers_ok_def shape_ok_def scan_write_ghash scratch_ok_def scratch_shape_def)
    then show ?thesis using that f(3) assms by (auto simp: open_chain_def)
  qed
  have "writes ev \<Longrightarrow> net_part (snd (begin_event cfg ev s)) = net_part s \<and> buffers_ok (snd (begin_event cfg ev s))"
  proof (cases ev)
    case (Ssl_Write e ssl a n)
    then show ?thesis using probe_cases(1) [of cfg e ssl a n s] w by auto blast+
  next
    case (Go_Write e ssl a n)
    then show ?thesis using probe_cases(2) [of e ssl a n s] w by auto blast+
  qed simp_all
  then show "writes ev \<Longrightarrow> net_part (snd (begin_event cfg ev s)) = net_part s" "buffers_ok (snd (begin_event cfg ev s))"
    using event_keeps [OF _ assms] begin_other [of ev cfg s] by (cases "writes ev"; simp)+
qed

lemma next_keeps:
  assumes "buffers_ok s"
  shows "buffers_ok (snd (next_program cfg ch s)) \<and> net_part (snd (next_program cfg ch s)) = net_part s"
proof -
  have "net_part (snd (bpf_h_extract cfg e s)) = net_part s \<and> buffers_ok (snd (bpf_h_extract cfg e s))" for e
  proof -
    obtain again s' where h: "bpf_h_extract cfg e s = (again, s')" by fastforce
    note f = h_extract_frame [OF h] h_extract_ghash [of cfg e s, unfolded h snd_conv]
    then have "tc_pending s' = tc_pending s" by (simp add: net_part_def)
    then show ?thesis using f assms h by (simp add: buffers_ok_def shape_ok_def scratch_shape_def)
  qed
  then show ?thesis
    using xor_path_keeps [OF assms] assms by (cases "(cfg, ch, s)" rule: next_program.cases) (simp_all add: split_beta)
qed

lemma node_shape_step: "node_shape m \<Longrightarrow> node_shape (node_run cfg x m)"
proof -
  assume m: "node_shape m"
  then have "buffers_ok (view c m)" for c by (simp add: node_shape_def)
  then show ?thesis
    using node_shape_leave [OF m] begin_keeps(1) next_keeps
    by (cases "(cfg, x, m)" rule: node_run.cases) (auto simp: m split: list.split)
qed

interpretation smp: step_invariant "node_step cfg" node_shape for cfg
  by unfold_locales (auto elim!: node_step.cases intro: node_shape_step)

lemma node_exec_reaches: "(node_step cfg)\<^sup>*\<^sup>* m (node_exec cfg acts m)"
  by (induction acts arbitrary: m) (auto intro: converse_rtranclp_into_rtranclp any)

text \<open>Only another write, or an egress run with an entry to apply, disturbs an unfinished write.\<close>

lemma disturbing_events:
  assumes "disturbs cfg (c, Begin ev) m"
  shows "writes ev \<or> (\<exists>tail skb seg v. ev = Egress tail skb \<and> tc_parse_headers skb = Some seg
    \<and> tc_tag_pending (node_maps m) (ts_key seg) = None \<and> tc_pending (node_maps m) (ts_key seg) = Some v \<and> tp_active v)"
proof (cases "writes ev")
  case False
  let ?s = "view c m" and ?t = "dp_run cfg ev (view c m)"
  have "scratch ?t \<noteq> scratch ?s \<or> staged ?t \<noteq> staged ?s" using assms begin_other [OF False, of cfg ?s] by (simp add: Let_def)
  from event_buffers [OF False this] show ?thesis by auto
qed simp

lemma begin_calm: "\<not> writes ev \<Longrightarrow> (\<And>tail skb. ev \<noteq> Egress tail skb) \<Longrightarrow> \<not> disturbs cfg (c, Begin ev) m"
  using disturbing_events by blast

section \<open>The invariant of calm runs\<close>

definition chains_ok :: "config \<Rightarrow> (u32 \<Rightarrow> u64) \<Rightarrow> chain list \<Rightarrow> kmaps \<Rightarrow> bool" where
  "chains_ok cfg cg chs s \<longleftrightarrow> length chs \<le> 1
     \<and> (\<forall>x \<in> set chs. ke_cgroup_id (fst x) = cg (cur_tgid (fst x)) \<and> in_chain cfg x s)"

definition node_ok :: "config \<Rightarrow> (u32 \<Rightarrow> u64) \<Rightarrow> node \<Rightarrow> bool" where
  "node_ok cfg cg m \<longleftrightarrow> node_shape m \<and> (\<forall>c. dp_ok cfg cg (view c m) \<and> chains_ok cfg cg (chains_of c m) (view c m))"

lemma chains_ok_cong:
  assumes "scratch s = scratch t" "staged s = staged t"
  shows "chains_ok cfg cg chs s = chains_ok cfg cg chs t"
proof -
  have "in_chain cfg x s = in_chain cfg x t" for x unfolding in_chain_def at_match_cong [OF assms] ..
  then show ?thesis by (simp add: chains_ok_def)
qed

lemma waiting_mount [simp]: "waiting (mount k s) q = waiting s q"
  by (simp add: waiting_def)

lemma dp_ok_mount: "dp_ok cfg cg s \<Longrightarrow> scratch_shape (cpu_scratch k) \<Longrightarrow> dp_ok cfg cg (mount k s)"
  by (simp add: dp_ok_def)

text \<open>Enough for an action of CPU \<open>c\<close>: what it makes of its own view.\<close>

lemma node_ok_leave:
  assumes "node_ok cfg cg m" "buffers_ok (snd r)" "dp_ok cfg cg (snd r)" "chains_ok cfg cg (fst r) (snd r)"
  shows "node_ok cfg cg (leave c r m)"
proof -
  have "dp_ok cfg cg (view d (leave c r m)) \<and> chains_ok cfg cg (chains_of d (leave c r m)) (view d (leave c r m))" for d
  proof (cases "d = c")
    case True
    then show ?thesis using assms(3,4) by simp
  next
    case False
    have d: "dp_ok cfg cg (view d m)" "chains_ok cfg cg (chains_of d m) (view d m)" using assms(1) by (simp_all add: node_ok_def)
    then have "scratch_shape (cpu_scratch (node_cpus m d))" by (simp add: dp_ok_def)
    moreover have "chains_ok cfg cg (chains_of d m) (mount (node_cpus m d) (snd r))"
      using d(2) chains_ok_cong [of "mount (node_cpus m d) (snd r)" "view d m"] by simp
    ultimately show ?thesis using False dp_ok_mount [OF assms(3)] by simp
  qed
  then show ?thesis using node_shape_leave [OF _ assms(2)] assms(1) by (simp add: node_ok_def)
qed

lemma begin_event_ok:
  assumes "dp_ok cfg cg s" "in_container cg ev"
  shows "dp_ok cfg cg (snd (begin_event cfg ev s))
    \<and> chains_ok cfg cg (fst (push (begin_event cfg ev s) [])) (snd (begin_event cfg ev s))"
proof (cases "writes ev")
  case False
  then show ?thesis using dp_ok_step [OF assms] begin_other [OF False, of cfg s] by (simp add: chains_ok_def)
next
  case True
  have sh: "scratch_shape (scratch s)" using assms(1) by (simp add: dp_ok_def)
  have w: "dp_ok cfg cg (snd (open_chain e r)) \<and> chains_ok cfg cg (fst (push (open_chain e r) [])) (snd (open_chain e r))"
    if "r \<in> {(NO_TAIL_CALL, s), (t, scan_write e ssl a n k chain mb s)}" "ke_cgroup_id e = cg (cur_tgid e)" for e r t ssl a n k chain mb
    using write_keeps_ok [OF assms(1) open_chain_done(1) [OF sh that(1)] that(2)] open_chain_done(2) [OF sh that(1), of _ cfg] that(2)
    by (auto simp: chains_ok_def split: option.split)
  show ?thesis
  proof (cases ev)
    case (Ssl_Write e ssl a n)
    then show ?thesis using probe_cases(1) [of cfg e ssl a n s] w assms(2) by (auto simp del: push_fields) blast+
  next
    case (Go_Write e ssl a n)
    then show ?thesis using probe_cases(2) [of e ssl a n s] w assms(2) by (auto simp del: push_fields) blast+
  qed (use True in simp_all)
qed

lemma node_ok_step:
  assumes "node_ok cfg cg m" "act_in_container cg x" "\<not> disturbs cfg x m"
  shows "node_ok cfg cg (node_run cfg x m)"
proof -
  obtain c act where x: "x = (c, act)" by fastforce
  have v: "dp_ok cfg cg (view c m)" "chains_ok cfg cg (chains_of c m) (view c m)" "buffers_ok (view c m)"
    using assms(1) by (simp_all add: node_ok_def node_shape_def)
  show ?thesis
  proof (cases act)
    case (Begin ev)
    let ?r = "begin_event cfg ev (view c m)"
    have ic: "in_container cg ev" using assms(2) x Begin by simp
    note b = begin_event_ok [OF v(1) ic] begin_keeps(1) [OF v(3)]
    have "chains_ok cfg cg (fst (push ?r (chains_of c m))) (snd ?r)"
    proof (cases "chains_of c m = []")
      case True
      then show ?thesis using b(1) by simp
    next
      case False
      then have "fst ?r = None \<and> scratch (snd ?r) = scratch (view c m) \<and> staged (snd ?r) = staged (view c m)"
        using assms(3) by (cases "fst ?r") (auto simp: x Begin Let_def split_beta)
      then show ?thesis using v(2) chains_ok_cong [of "snd ?r" "view c m"] by simp
    qed
    then show ?thesis using node_ok_leave [OF assms(1), of "push ?r (chains_of c m)" c] b by (simp add: x Begin)
  next
    case Continue
    show ?thesis
    proof (cases "chains_of c m")
      case (Cons ch chs)
      obtain e t n where ch: "ch = (e, t, n)" by (cases ch)
      let ?r = "next_program cfg ch (view c m)"
      have c: "ke_cgroup_id e = cg (cur_tgid e)" "in_chain cfg (e, t, n) (view c m)" "chs = []"
        using v(2) Cons ch by (simp_all add: chains_ok_def)
      have "dp_ok cfg cg (snd ?r)"
        using write_keeps_ok [OF v(1) next_program_done(1) [OF c(2)] c(1)] ch by simp
      moreover have "chains_ok cfg cg (fst (push ?r chs)) (snd ?r)"
        using next_program_done(2) [OF c(2)] c(1,3) ch by (auto simp: chains_ok_def split: option.split)
      ultimately show ?thesis
        using node_ok_leave [OF assms(1), of "push ?r chs" c] next_keeps [OF v(3), of cfg ch] x Continue Cons by simp
    qed (use assms(1) x Continue in simp)
  qed
qed

interpretation calm_runs: step_invariant "calm_step cfg cg" "node_ok cfg cg" for cfg cg
  by unfold_locales (auto elim!: calm_step.cases intro: node_ok_step)

text \<open>A list of actions none of which disturbs an unfinished write, of CPU \<open>c\<close> or of any.\<close>

fun undisturbed :: "config \<Rightarrow> nat \<Rightarrow> (nat \<times> action) list \<Rightarrow> node \<Rightarrow> bool" where
  "undisturbed cfg c [] m = True"
| "undisturbed cfg c (x # acts) m \<longleftrightarrow> (fst x = c \<longrightarrow> \<not> disturbs cfg x m) \<and> undisturbed cfg c acts (node_run cfg x m)"

lemma calm_exec_reaches:
  assumes "list_all (act_in_container cg) acts" "\<And>c. undisturbed cfg c acts m"
  shows "(calm_step cfg cg)\<^sup>*\<^sup>* m (node_exec cfg acts m)"
  using assms
proof (induction acts arbitrary: m)
  case (Cons x acts)
  have "\<not> disturbs cfg x m" using Cons.prems(2) [of "fst x"] by simp
  then have "calm_step cfg cg m (node_run cfg x m)" using Cons.prems(1) by (intro calm) simp_all
  moreover have "(calm_step cfg cg)\<^sup>*\<^sup>* (node_run cfg x m) (node_exec cfg acts (node_run cfg x m))"
    using Cons.prems by (intro Cons.IH) simp_all
  ultimately show ?case by (simp add: converse_rtranclp_into_rtranclp)
qed simp

end
