(* ===== verification/Node_Runs.thy ===== *)
theory Node_Runs
  imports Node
begin

text \<open>
  What the programs of a node do when they run on several CPUs at once: an undisturbed write takes effect in
  one step, the last program of its chain; the containers are kept apart in calm runs; and the history of a
  waiting patch is what it should be in every run.
\<close>

section \<open>A write among other programs\<close>

text \<open>The maps that decide what leaves the node.\<close>

definition visible where "visible s = (xor_pending s, net_part s)"

lemma tls_write_begins:
  assumes "tls_write cfg e ssl a (length d) chain mb s ev" "maps_to (ke_mem e) a d" "a \<noteq> 0" "d \<noteq> []" "length d \<le> SCAN_LIMIT"
    and "scratch_shape (scratch s)"
  shows "\<exists>s1. begin_event cfg ev s = (Some (e, TAIL_XOR_PATH, MAX_TAIL_CALLS), s1) \<and> write_scanned ssl a d chain mb s s1"
proof (cases "ev = Go_Write e ssl a (of_nat (length d))")
  case True
  then have w: "chain = CHAIN_GO_TLS" "\<not> mb" using assms(1) by (auto simp: tls_write_def)
  from go_write_scans [OF assms(2-6), of ssl] show ?thesis using True w by (auto simp: open_chain_def)
next
  case False
  then have w: "ev = Ssl_Write e ssl a (of_nat (length d))" "chain = CHAIN_SSL" "mb = (ssl_read_fd cfg e ssl = 0)"
      "tracked_cgroups s (ke_cgroup_id e) \<noteq> None" "tls_strategy cfg (cur_tgid e) \<noteq> Some STRATEGY_LIBCRYPTO_HOOK"
      "ssl_read_fd cfg e ssl = 0 \<or> conn_ip_map s \<lparr>cik_tgid = cur_tgid e, cik_fd = ssl_read_fd cfg e ssl\<rparr> \<noteq> None"
    using assms(1) unfolding tls_write_def by blast+
  from ssl_write_scans [OF assms(2-6) w(4,6)] show ?thesis using w(1,2,3,5) by (auto simp: open_chain_def)
qed

text \<open>While its chain goes on undisturbed, its own programs alone touch the buffers of a CPU.\<close>

lemma busy_keeps:
  assumes "chains_of c m = [ch]" "x \<noteq> (c, Continue)" "fst x = c \<Longrightarrow> \<not> disturbs cfg x m"
  shows "chains_of c (node_run cfg x m) = [ch]" "scratch (view c (node_run cfg x m)) = scratch (view c m)"
    "staged (view c (node_run cfg x m)) = staged (view c m)"
proof -
  have "chains_of c (node_run cfg x m) = [ch] \<and> scratch (view c (node_run cfg x m)) = scratch (view c m)
    \<and> staged (view c (node_run cfg x m)) = staged (view c m)"
  proof (cases "fst x = c")
    case True
    then obtain ev where x: "x = (c, Begin ev)" using assms(2) by (cases x; cases "snd x") auto
    let ?r = "begin_event cfg ev (view c m)"
    have "fst ?r = None \<and> scratch (snd ?r) = scratch (view c m) \<and> staged (snd ?r) = staged (view c m)"
      using assms(1,3) by (cases "fst ?r") (auto simp: x Let_def split_beta)
    then show ?thesis using assms(1) by (simp add: x)
  next
    case False
    then show ?thesis using node_run_other [of c x cfg m] assms(1) by simp
  qed
  then show "chains_of c (node_run cfg x m) = [ch]" "scratch (view c (node_run cfg x m)) = scratch (view c m)"
    "staged (view c (node_run cfg x m)) = staged (view c m)" by blast+
qed

text \<open>
  A chain among any other actions: \<open>before\<close> is what comes before its last program. It makes the deposit; no
  earlier program of the chain changes a visible map.
\<close>

definition linearized :: "config \<Rightarrow> nat \<Rightarrow> node \<Rightarrow> (nat \<times> action) list \<Rightarrow> (nat \<times> action) list \<Rightarrow>
    ((u32 \<rightharpoonup> xor_pending_val) \<Rightarrow> (u32 \<rightharpoonup> xor_pending_val)) \<Rightarrow> bool" where
  "linearized cfg c m acts before f \<longleftrightarrow> (\<exists>later. acts = before @ (c, Continue) # later)
     \<and> (let at = node_exec cfg before m; aft = node_run cfg (c, Continue) at
        in visible (node_maps aft) = (f (xor_pending (node_maps at)), net_part (node_maps at)) \<and> chains_of c aft = [])
     \<and> (\<forall>b l. before = b @ (c, Continue) # l \<longrightarrow>
          visible (node_maps (node_run cfg (c, Continue) (node_exec cfg b m))) = visible (node_maps (node_exec cfg b m)))"

lemma linearized_Cons:
  assumes "linearized cfg c (node_run cfg x m) acts before f"
    and "x = (c, Continue) \<Longrightarrow> visible (node_maps (node_run cfg x m)) = visible (node_maps m)"
  shows "linearized cfg c m (x # acts) (x # before) f"
proof -
  have "visible (node_maps (node_run cfg (c, Continue) (node_exec cfg b m))) = visible (node_maps (node_exec cfg b m))"
    if "x # before = b @ (c, Continue) # l" for b l
  proof (cases b)
    case Nil
    then show ?thesis using that assms(2) by simp
  next
    case (Cons y b')
    then show ?thesis using that assms(1) unfolding linearized_def by simp
  qed
  then show ?thesis using assms(1) by (auto simp: linearized_def)
qed

lemma chain_linearizes:
  assumes "chains_of c m = [(e, TAIL_XOR_PATH, n)]" "at_match cfg e W sd i (view c m)" "XOR_MAX_MATCHES \<le> i + n"
    and "\<And>t. scratch t = sd\<lparr>sb_xor_current_match := 0\<rparr> \<Longrightarrow> W (xor_stage_init e t)"
    and "XOR_MAX_MATCHES \<le> i + length (filter ((=) (c, Continue)) acts)" "undisturbed cfg c acts m"
  shows "\<exists>before p. W p \<and> linearized cfg c m acts before (deposit e (patches_of cfg e (sb_user_data_ptr sd) (found sd)) p)"
  using assms(1-3,5,6)
proof (induction acts arbitrary: m i n)
  case Nil
  then show ?case by (auto simp: at_match_def scratch_ok_def XOR_MAX_MATCHES_def)
next
  case (Cons x acts)
  show ?case
  proof (cases "x = (c, Continue)")
    case False
    have u: "fst x = c \<Longrightarrow> \<not> disturbs cfg x m" "undisturbed cfg c acts (node_run cfg x m)" using Cons.prems(5) by simp_all
    note k = busy_keeps [OF Cons.prems(1) False u(1)]
    have "at_match cfg e W sd i (view c (node_run cfg x m))" using at_match_cong [OF k(2,3)] Cons.prems(2) by simp
    from Cons.IH [OF k(1) this Cons.prems(3)] show ?thesis using Cons.prems(4) u(2) False linearized_Cons by fastforce
  next
    case True
    obtain again s' where s': "bpf_xor_path cfg e (view c m) = (again, s')" "again = (Suc i < unat (sb_xor_match_count sd))"
        "no_path s' = no_path (view c m)"
        "if again then at_match cfg e W sd (Suc i) s' \<and> xor_pending s' = xor_pending (view c m)
         else \<exists>p. W p \<and> xor_pending s' = deposit e (patches_of cfg e (sb_user_data_ptr sd) (found sd)) p (xor_pending (view c m))"
      using xor_program [OF Cons.prems(2) assms(4)] by blast
    have net: "net_part s' = net_part (node_maps m)" using net_part_no_path [OF s'(3)] by simp
    have "i < XOR_MAX_MATCHES" using Cons.prems(2) by (auto simp: at_match_def scratch_ok_def XOR_MAX_MATCHES_def)
    then obtain n' where n: "n = Suc n'" using Cons.prems(3) by (cases n) auto
    have run: "node_run cfg x m = leave c (if again then [(e, TAIL_XOR_PATH, n')] else [], s') m"
      using Cons.prems(1) s'(1) True n by simp
    show ?thesis
    proof (cases again)
      case False
      then obtain p where p: "W p" "xor_pending s' = deposit e (patches_of cfg e (sb_user_data_ptr sd) (found sd)) p (xor_pending (node_maps m))"
        using s'(4) by auto
      then have "linearized cfg c m (x # acts) [] (deposit e (patches_of cfg e (sb_user_data_ptr sd) (found sd)) p)"
        using run net False True by (simp add: linearized_def visible_def)
      then show ?thesis using p(1) by blast
    next
      case again: True
      let ?m = "node_run cfg x m"
      have "chains_of c ?m = [(e, TAIL_XOR_PATH, n')]" "at_match cfg e W sd (Suc i) (view c ?m)" "XOR_MAX_MATCHES \<le> Suc i + n'"
          "XOR_MAX_MATCHES \<le> Suc i + length (filter ((=) (c, Continue)) acts)" "undisturbed cfg c acts ?m"
        using run again s'(4) Cons.prems(3-5) n True by simp_all
      from Cons.IH [OF this] obtain before p where "W p"
          "linearized cfg c ?m acts before (deposit e (patches_of cfg e (sb_user_data_ptr sd) (found sd)) p)" by blast
      moreover have "visible (node_maps ?m) = visible (node_maps m)" using run net again s'(4) by (simp add: visible_def)
      ultimately show ?thesis using linearized_Cons by blast
    qed
  qed
qed

section \<open>The history of a waiting patch\<close>

lemma mount_allows [simp]: "socket_allows cfg e sk (mount k s) key = socket_allows cfg e sk s key"
  by (simp add: socket_allows_def sni_is_def sock_peer_def split: option.split)

lemma mount_target [simp]: "vip_target cfg e a (mount k s) = vip_target cfg e a s"
  by (simp add: vip_target_def)

text \<open>What an action does to the shared maps: the whole of an event other than a write, or a program of a write.\<close>

lemma act_cases:
  assumes "node_shape m"
  obtains (event) c ev where "x = (c, Begin ev)" "\<not> writes ev" "node_maps (node_run cfg x m) = dp_run cfg ev (view c m)"
  | (program) "net_part (node_maps (node_run cfg x m)) = net_part (node_maps m)"
proof -
  have b: "buffers_ok (view c m)" for c using assms by (simp add: node_shape_def)
  show thesis
  proof (cases "(cfg, x, m)" rule: node_run.cases)
    case (1 cfg' c ev m')
    then show thesis
      using that begin_other [of ev cfg "view c m"] begin_keeps(2) [OF b [of c], of ev cfg] by (cases "writes ev") simp_all
  next
    case (2 cfg' c m')
    then show thesis using that(2) next_keeps [OF b [of c], of cfg] by (auto split: list.split)
  qed
qed

lemma waiting_act:
  assumes "node_shape m" "q \<in> set (waiting (node_maps (node_run cfg x m)) k)" "q \<notin> set (waiting (node_maps m) k)"
  shows "\<exists>c e sk p. x = (c, Begin (Send e sk)) \<and> k = bridge_key e sk \<and> socket_allows cfg e sk (node_maps m) (patch_key q)
    \<and> xor_pending (node_maps m) (cur_tgid e) = Some p \<and> q \<in> set (held p)"
  using assms(1)
proof (cases rule: act_cases [where x = x and cfg = cfg])
  case (event c ev)
  have "shape_ok (view c m)" using assms(1) by (simp add: node_shape_def buffers_ok_def)
  from waiting_step [OF this, of q cfg ev k] show ?thesis using assms(2,3) event by auto
next
  case program
  then show ?thesis using assms(2,3) by (simp add: net_part_def waiting_def)
qed

lemma waiting_from_send_act:
  assumes "node_shape m0" "q \<notin> set (waiting (node_maps m0) k)" "q \<in> set (waiting (node_maps (node_exec cfg acts m0)) k)"
  shows "\<exists>before c e sk later. acts = before @ (c, Begin (Send e sk)) # later \<and> k = bridge_key e sk
    \<and> socket_allows cfg e sk (node_maps (node_exec cfg before m0)) (patch_key q)
    \<and> (\<forall>n \<le> length later. q \<in> set (waiting (node_maps (node_exec cfg (before @ (c, Begin (Send e sk)) # take n later) m0)) k))"
proof -
  obtain before x later where b: "acts = before @ x # later" "q \<notin> set (waiting (node_maps (node_exec cfg before m0)) k)"
      "\<forall>n \<le> length later. q \<in> set (waiting (node_maps (node_exec cfg (take n later) (node_run cfg x (node_exec cfg before m0)))) k)"
    using last_flip [of "\<lambda>m. q \<in> set (waiting (node_maps m) k)", OF assms(2,3)] by blast
  have "node_shape (node_exec cfg before m0)" using smp.inv_run [OF node_exec_reaches assms(1)] .
  moreover have "q \<in> set (waiting (node_maps (node_run cfg x (node_exec cfg before m0))) k)" using b(3) [rule_format, of 0] by simp
  ultimately obtain c e sk where "x = (c, Begin (Send e sk))" "k = bridge_key e sk"
      "socket_allows cfg e sk (node_maps (node_exec cfg before m0)) (patch_key q)"
    using waiting_act b(2) by blast
  then show ?thesis
    using b by (intro exI [of _ before] exI [of _ c] exI [of _ e] exI [of _ sk] exI [of _ later]) (simp del: node_run.simps)
qed

fun act_moves_host :: "u64 \<Rightarrow> nat \<times> action \<Rightarrow> bool" where
  "act_moves_host k (c, Begin ev) = moves_host k ev"
| "act_moves_host k (c, Continue) = False"

lemma host_from_connect_act:
  assumes "node_shape m0" "vip_sock_host (node_maps m0) k = None" "vip_sock_host (node_maps (node_exec cfg acts m0)) k = Some h"
  shows "\<exists>before c f e ctx later real. acts = before @ (c, Begin (Connect_Hook f e ctx)) # later \<and> sa_cookie ctx = k
    \<and> (\<forall>x \<in> set later. \<not> act_moves_host k x) \<and> vip_addr_in_range (vip_config cfg) (dst_of f ctx)
    \<and> vip_target cfg e (dst_of f ctx) (node_maps (node_exec cfg before m0)) = Some (real, h)"
proof -
  have kept: "vip_sock_host (node_maps (node_run cfg x m)) k = vip_sock_host (node_maps m) k"
    if "node_shape m" "\<not> act_moves_host k x" for x m
    using that(1)
  proof (cases rule: act_cases [where x = x and cfg = cfg])
    case (event c ev)
    have "scratch_shape (scratch (view c m))" using that(1) by (simp add: node_shape_def buffers_ok_def shape_ok_def)
    from host_kept [OF this, of k ev cfg] show ?thesis using event that(2) by simp
  next
    case program
    then show ?thesis by (simp add: net_part_def)
  qed
  have good: "node_shape (node_run cfg x m) \<and> (\<not> act_moves_host k x
      \<longrightarrow> vip_sock_host (node_maps (node_run cfg x m)) k = vip_sock_host (node_maps m) k)" if "node_shape m" for x m
    using node_shape_step [OF that, of cfg x] kept [OF that] by simp
  have "vip_sock_host (node_maps (node_exec cfg acts m0)) k \<noteq> vip_sock_host (node_maps m0) k" using assms(2,3) by simp
  then obtain before x later where b: "acts = before @ x # later" "act_moves_host k x" "\<forall>y \<in> set later. \<not> act_moves_host k y"
      "vip_sock_host (node_maps (node_run cfg x (node_exec cfg before m0))) k = Some h"
    using last_touch_inv [of acts node_shape "node_run cfg" "act_moves_host k" "\<lambda>m. vip_sock_host (node_maps m) k" m0] good assms(1,3)
    by metis
  let ?m = "node_exec cfg before m0"
  obtain c ev where x: "x = (c, Begin ev)" "moves_host k ev" using b(2) by (cases "(k, x)" rule: act_moves_host.cases) auto
  then have "\<not> writes ev" by (cases ev) auto
  then have r: "vip_sock_host (dp_run cfg ev (view c ?m)) k = Some h" using b(4) x(1) by (simp add: begin_other)
  obtain f e ctx where ev: "ev = Connect_Hook f e ctx"
    using moved_by_connect [OF x(2) r] by blast
  then show ?thesis
    using b x r ev by (intro exI [of _ before] exI [of _ c] exI [of _ f] exI [of _ e] exI [of _ ctx] exI [of _ later])
      (auto simp: connect_hook_host simp del: dp_run.simps split: if_splits option.splits)
qed

section \<open>Properties\<close>

text \<open>
  C4: an undisturbed write takes effect in one step. Whatever programs the other CPUs run between the programs of a
  write, and whatever interrupts its own CPU without changing what the write has in its buffers, the last
  program of the write deposits the patches of its placeholders under its process, as they are in the
  data when it began; none of its earlier programs changes a map that decides what leaves the node.
\<close>

theorem write_linearized:
  fixes cfg :: config and m :: node
  assumes "tls_write cfg e ssl a (length d) chain mb (view c m) w" "maps_to (ke_mem e) a d" "a \<noteq> 0" "d \<noteq> []" "length d \<le> SCAN_LIMIT"
    and "scratch_shape (cpu_scratch (node_cpus m c))" "chains_of c m = []"
    and "XOR_MAX_MATCHES \<le> length (filter ((=) (c, Continue)) acts)"
  defines "m1 \<equiv> node_run cfg (c, Begin w) m"
  assumes "undisturbed cfg c acts m1"
  shows "visible (node_maps m1) = visible (node_maps m)
    \<and> (\<exists>before p. write_pending e ssl (length d) chain mb p
        \<and> linearized cfg c m1 acts before (deposit e (patches_of cfg e a (take XOR_MAX_MATCHES (placeholders d))) p))"
proof -
  have "scratch_shape (scratch (view c m))" using assms(6) by simp
  from tls_write_begins [OF assms(1-5) this] obtain s1
    where s1: "begin_event cfg w (view c m) = (Some (e, TAIL_XOR_PATH, MAX_TAIL_CALLS), s1)" "write_scanned ssl a d chain mb (view c m) s1"
    by blast
  have m1: "m1 = leave c ([(e, TAIL_XOR_PATH, MAX_TAIL_CALLS)], s1) m" using s1(1) assms(7) by (simp add: m1_def)
  note f = write_scanned_fields [OF s1(2)]
  have "no_scan s1 = no_scan ((view c m)\<lparr>scratch := write_fields ssl a (length d) chain mb (scratch (view c m))\<rparr>)"
    using s1(2) by (simp add: write_scanned_def)
  from net_part_no_scan [OF this] have "net_part s1 = net_part (node_maps m)"
    using mount_fields(7) [of "node_cpus m c" "node_maps m"] by (simp add: net_part_def)
  then have v: "visible (node_maps m1) = visible (node_maps m)" using f(8) by (simp add: m1 visible_def)
  let ?W = "write_pending e ssl (length d) chain mb"
  have "?W (xor_stage_init e t)" if "scratch t = (scratch s1)\<lparr>sb_xor_current_match := 0\<rparr>" for t
    using xor_stage_init_pending [of t ssl chain mb "length d" e] that f by simp
  moreover have "at_match cfg e ?W (scratch s1) 0 (view c m1)" using f(7,9) by (simp add: m1 at_match_def)
  ultimately show ?thesis
    using v chain_linearizes [of m1 c e MAX_TAIL_CALLS cfg ?W "scratch s1" 0 acts] assms(8,10) f(6,10)
    by (auto simp: m1 MAX_TAIL_CALLS_def XOR_MAX_MATCHES_def)
qed

text \<open>
  C2: containers are kept apart, on a node of any number of CPUs. As long as no action disturbs an unfinished write
  (an egress run that patches a record, or another write, between two programs of a write on its CPU; C26 is
  what that leads to), whatever else the CPUs run, however their programs follow and interrupt each other,
  the patches that wait for the connection of a packet insert secrets that the control plane lets the
  packet's own container redeem (or any, in the audit mode), at their length.
\<close>

theorem node_isolation:
  fixes cfg :: config
  assumes "node_ok cfg cg m0" "(calm_step cfg cg)\<^sup>*\<^sup>* m0 m" "tc_parse_headers skb = Some seg"
    and "q \<in> set (waiting (node_maps m) (ts_key seg))"
  shows "granted cfg (skb_cgroup_id skb) q"
proof -
  have "dp_ok cfg cg (view 0 m)" using calm_runs.inv_run [OF assms(2,1)] by (simp add: node_ok_def)
  from dp_ok_isolation [OF this assms(3)] show ?thesis using assms(4) by simp
qed

text \<open>
  C3: a secret bound to a host waits only for connections to that host, in every run of the CPUs of a node,
  also when programs disturb unfinished writes: a patch of it that waits after the run was staged by a send
  of the connection and has waited since; the socket's last connect before it went to a fake IP of the
  secret's host and was sent to an address recorded for it, no close or other connect of the socket came in
  between, and its handshake named that host (but for the audit mode).
\<close>

theorem node_host_attribution:
  fixes cfg :: config and k :: tc_dest_key
  assumes "node_shape m0" "vip_sock_host (node_maps m0) = (\<lambda>_. None)"
    and "q \<notin> set (waiting (node_maps m0) k)" "q \<in> set (waiting (node_maps (node_exec cfg acts m0)) k)"
    and "secret_map cfg (patch_key q) = Some v" "0 < sv_host_len v" "sv_host_len v < of_nat MAX_HOST_LEN"
  shows "\<exists>b1 c f e' ctx b2 d e sk later real h. acts = b1 @ (c, Begin (Connect_Hook f e' ctx)) # b2 @ (d, Begin (Send e sk)) # later
    \<and> k = bridge_key e sk \<and> sa_cookie ctx = skc_cookie (ke_sock e sk) \<and> (\<forall>x \<in> set b2. \<not> act_moves_host (sa_cookie ctx) x)
    \<and> vip_addr_in_range (vip_config cfg) (dst_of f ctx)
    \<and> vip_target cfg e' (dst_of f ctx) (node_maps (node_exec cfg b1 m0)) = Some (real, h) \<and> hosts_match h (allowed_host v)
    \<and> (sni_is sk (node_maps (node_exec cfg (b1 @ (c, Begin (Connect_Hook f e' ctx)) # b2) m0)) (allowed_host v)
        \<or> sni_check_mode cfg = SNI_CHECK_AUDIT)
    \<and> (\<forall>n \<le> length later. q \<in> set (waiting (node_maps (node_exec cfg
          (b1 @ (c, Begin (Connect_Hook f e' ctx)) # b2 @ (d, Begin (Send e sk)) # take n later) m0)) k))"
proof -
  obtain before d e sk later where b: "acts = before @ (d, Begin (Send e sk)) # later" "k = bridge_key e sk"
      "socket_allows cfg e sk (node_maps (node_exec cfg before m0)) (patch_key q)"
      "\<forall>n \<le> length later. q \<in> set (waiting (node_maps (node_exec cfg (before @ (d, Begin (Send e sk)) # take n later) m0)) k)"
    using waiting_from_send_act [OF assms(1,3,4)] by blast
  let ?k = "skc_cookie (ke_sock e sk)" and ?s = "node_maps (node_exec cfg before m0)"
  obtain h where h: "vip_sock_host ?s ?k = Some h" "hosts_match h (allowed_host v)"
      "sni_is sk ?s (allowed_host v) \<or> sni_check_mode cfg = SNI_CHECK_AUDIT"
    using b(3) assms(5-7) by (auto simp: socket_allows_def vip_socket_check_def split: if_splits option.splits)
  have "vip_sock_host (node_maps m0) ?k = None" using assms(2) by simp
  then obtain b1 c f e' ctx b2 real where c: "before = b1 @ (c, Begin (Connect_Hook f e' ctx)) # b2" "sa_cookie ctx = ?k"
      "\<forall>x \<in> set b2. \<not> act_moves_host ?k x" "vip_addr_in_range (vip_config cfg) (dst_of f ctx)"
      "vip_target cfg e' (dst_of f ctx) (node_maps (node_exec cfg b1 m0)) = Some (real, h)"
    using host_from_connect_act [OF assms(1) _ h(1)] by blast
  show ?thesis
    by (rule exI [of _ b1], rule exI [of _ c], rule exI [of _ f], rule exI [of _ e'], rule exI [of _ ctx], rule exI [of _ b2],
        rule exI [of _ d], rule exI [of _ e], rule exI [of _ sk], rule exI [of _ later], rule exI [of _ real], rule exI [of _ h], intro conjI)
      (use b c h in \<open>simp_all del: node_run.simps dst_of.simps moves_host.simps act_moves_host.simps\<close>)
qed

section \<open>A concrete node\<close>

text \<open>Nodes of idle CPUs: with the maps of \<open>Secret_Delivery\<close>, and of \<open>Data_Plane\<close>.\<close>

definition idle_node :: "kmaps \<Rightarrow> node" where
  "idle_node s = \<lparr>node_maps = s, node_cpus = \<lambda>_. park s []\<rparr>"

lemma idle_node_fields [simp]:
  "node_maps (idle_node s) = s" "chains_of c (idle_node s) = []" "view c (idle_node s) = s"
  "node_cpus (idle_node s) c = park s []"
  by (simp_all add: idle_node_def)

lemma idle_node_shape: "shape_ok s \<Longrightarrow> slots_ok (staged s) \<Longrightarrow> node_shape (idle_node s)"
  by (simp add: node_shape_def buffers_ok_def)

lemma idle_node_ok: "dp_ok cfg cg s \<Longrightarrow> slots_ok (staged s) \<Longrightarrow> node_ok cfg cg (idle_node s)"
  using idle_node_shape [OF dp_ok_shape] by (simp add: node_ok_def chains_ok_def)

text \<open>
  The write of \<open>Secret_Delivery\<close> on CPU 0, while another process sends on CPU 1 and CPU 0 is interrupted, first by the
  packet of a connection with nothing staged.
\<close>

definition busy_actions :: "(nat \<times> action) list" where
  "busy_actions = [(0, Begin (Egress True (delivery_skb [] []))), (1, Begin (Send (write_env 0) 5)), (0, Continue), (0, Begin (Evict (LRU_SNI 5))), (0, Continue),
     (1, Begin (Egress True (delivery_skb [] []))), (0, Continue), (0, Continue)]"

lemma zero_slots: "slots_ok (staged_pending zero_work)"
  by (simp add: slots_ok_def zero_work_def example_tc_def example_maps_def example_work_def XOR_MAX_PATCHES_def)

lemma busy_undisturbed:
  assumes "tc_pending (node_maps m) = (\<lambda>_. None)"
  shows "undisturbed cfg 0 busy_actions m"
proof -
  have "\<not> disturbs cfg (0, Begin (Egress True (delivery_skb [] []))) m" using disturbing_events assms by fastforce
  then show ?thesis by (simp add: busy_actions_def begin_calm disturbs.simps(2) del: disturbs.simps(1) node_run.simps)
qed

theorem write_linearized_witness:
  "\<exists>before p q. write_pending (write_env 120) 4096 17 CHAIN_SSL True p \<and> secret_offset q = 1
    \<and> linearized delivery_config 0 (node_run delivery_config (0, Begin (Ssl_Write (write_env 120) 4096 4096 17)) (idle_node delivery_kmaps))
        busy_actions before (deposit (write_env 120) [q] p)"
proof -
  let ?w = "Ssl_Write (write_env 120) 4096 4096 17" and ?m = "idle_node delivery_kmaps"
  obtain q where q: "patches_of delivery_config (write_env 120) 4096 (take XOR_MAX_MATCHES (placeholders example_plaintext)) = [q]"
      "secret_offset q = 1"
    using delivery_patch by blast
  have w: "tls_write delivery_config (write_env 120) 4096 4096 (length example_plaintext) CHAIN_SSL True (view 0 ?m) ?w"
    using delivery_write by simp
  have m: "maps_to (ke_mem (write_env 120)) 4096 example_plaintext" using delivery_ready(1) by (simp add: maps_to_append)
  have n: "scratch_shape (cpu_scratch (node_cpus ?m 0))" "chains_of 0 ?m = []"
      "XOR_MAX_MATCHES \<le> length (filter ((=) (0, Continue)) busy_actions)"
    using delivery_ready(5) by (simp_all add: busy_actions_def XOR_MAX_MATCHES_def)
  have l: "length example_plaintext = 17" by (simp add: example_plaintext_def)
  have "buffers_ok delivery_kmaps"
    by (simp add: buffers_ok_def shape_ok_def scratch_shape_def zero_slots delivery_kmaps_def example_kmaps_def)
  from begin_keeps(2) [OF this, of ?w delivery_config]
  have "tc_pending (node_maps (node_run delivery_config (0, Begin ?w) ?m)) = (\<lambda>_. None)"
    by (simp add: net_part_def delivery_kmaps_def example_kmaps_def del: begin_event.simps)
  from write_linearized [OF w m delivery_ready(2-4) n busy_undisturbed [OF this]] show ?thesis using q unfolding l by auto
qed

text \<open>The connect of \<open>Data_Plane\<close> on CPU 1, the send on CPU 0.\<close>

definition plane_actions :: "(nat \<times> action) list" where
  "plane_actions = [(1, Begin (Connect_Hook V4 (example_env (\<lambda>_. None)) vip_ctx)), (0, Begin (Send (write_env 0) 5))]"

lemma plane_actions_waiting:
  "waiting (node_maps (node_exec plane_config plane_actions (idle_node plane_start))) (bridge_key (write_env 0) 5) = [bridge_patch]"
proof -
  let ?s1 = "dp_run plane_config (Connect_Hook V4 (example_env (\<lambda>_. None)) vip_ctx) plane_start"
  let ?s = "mount (park plane_start []) ?s1"
  have "socket_allows plane_config (write_env 0) 5 ?s = socket_allows plane_config (write_env 0) 5 ?s1"
    by (intro ext) simp
  then have b: "bridged plane_config (write_env 0) 5 ?s bridge_pending = [bridge_patch]" "xor_pending ?s = [7 \<mapsto> bridge_pending]"
    using plane_connected unfolding bridged_def by simp_all
  have "node_maps (node_exec plane_config plane_actions (idle_node plane_start)) = dp_run plane_config (Send (write_env 0) 5) ?s"
    unfolding plane_actions_def by (simp del: dp_run.simps)
  then show ?thesis using plane_send_waiting [OF b] by simp
qed

lemma plane_actions_calm: "(calm_step plane_config (\<lambda>_. 11))\<^sup>*\<^sup>* m (node_exec plane_config plane_actions m)"
  by (rule calm_exec_reaches) (simp_all add: plane_actions_def write_env_def begin_calm del: disturbs.simps node_run.simps)

lemma plane_start_slots: "slots_ok (staged plane_start)"
  by (simp add: zero_slots plane_start_def vip_kmaps_def example_kmaps_def)

theorem node_isolation_witness:
  "granted plane_config (skb_cgroup_id plane_skb) bridge_patch \<and> skb_cgroup_id plane_skb = 11"
proof -
  obtain seg where seg: "tc_parse_headers plane_skb = Some seg" "ts_key seg = bridge_key (write_env 0) 5" using plane_parse by blast
  have "bridge_patch \<in> set (waiting (node_maps (node_exec plane_config plane_actions (idle_node plane_start))) (ts_key seg))"
    unfolding seg(2) plane_actions_waiting by simp
  from node_isolation [OF idle_node_ok [OF plane_start_ok plane_start_slots] plane_actions_calm seg(1) this]
  show ?thesis by (simp add: plane_skb_def)
qed

theorem node_host_attribution_witness:
  "\<exists>e ctx real. plane_actions = [(1, Begin (Connect_Hook V4 e ctx)), (0, Begin (Send (write_env 0) 5))] \<and> sa_cookie ctx = 9
    \<and> vip_target plane_config e (dst_of V4 ctx) plane_start = Some (real, pad_host [97, 98])"
proof -
  let ?v = "example_secret\<lparr>sv_host_len := 2, allowed_host := pad_host [97, 98]\<rparr>" and ?k = "bridge_key (write_env 0) 5"
  let ?m = "idle_node plane_start"
  have n: "vip_sock_host (node_maps ?m) = (\<lambda>_. None)" "bridge_patch \<notin> set (waiting (node_maps ?m) ?k)"
    by (simp_all add: plane_start_def vip_kmaps_def example_kmaps_def waiting_def)
  have q: "bridge_patch \<in> set (waiting (node_maps (node_exec plane_config plane_actions ?m)) ?k)" unfolding plane_actions_waiting by simp
  have v: "secret_map plane_config (patch_key bridge_patch) = Some ?v" "0 < sv_host_len ?v" "sv_host_len ?v < of_nat MAX_HOST_LEN"
    by (simp_all add: plane_config_def bridge_patch_def MAX_HOST_LEN_def)
  obtain b1 c f e' ctx b2 d e sk later real h where
      r: "plane_actions = b1 @ (c, Begin (Connect_Hook f e' ctx)) # b2 @ (d, Begin (Send e sk)) # later"
      "vip_target plane_config e' (dst_of f ctx) (node_maps (node_exec plane_config b1 ?m)) = Some (real, h)"
    using node_host_attribution [OF idle_node_shape [OF dp_ok_shape [OF plane_start_ok] plane_start_slots] n q v] by blast
  then have l: "b1 = []" "f = V4" "ctx = vip_ctx"
    by (auto simp: plane_actions_def Cons_eq_append_conv append_eq_Cons_conv)
  have "h = pad_host [97, 98]"
    using r(2) by (auto simp: vip_target_def plane_config_def vip_cfg_def split: option.splits if_splits)
  then have t: "vip_target plane_config e' (dst_of V4 ctx) plane_start = Some (real, pad_host [97, 98])"
    using r(2) l(1,2) by (simp del: dst_of.simps)
  have "e' = example_env (\<lambda>_. None)" using r(1) l by (auto simp: plane_actions_def)
  then show ?thesis
    using t l(3) by (intro exI [of _ e'] exI [of _ ctx] exI [of _ real]) (simp add: plane_actions_def vip_ctx_def del: dst_of.simps)
qed

end
