(* ===== verification/Thread_Race.thy ===== *)
theory Thread_Race
  imports Secret_Delivery
begin

text \<open>
  Threads of one process. The patches of a write wait in \<open>xor_pending\<close> under the process, for the next
  \<open>tcp_sendmsg\<close> of any of its threads; the bridge takes that send for the write's own.
\<close>

lemma send_without_write:
  assumes "xor_pending s (cur_tgid e) = None"
  shows "dp_run cfg (Send e sk) s = dbg_inc DBG_KPROBE_BRIDGE_NO_ENTRY s"
  using assms by (simp add: bpf_kprobe_tcp_sendmsg_def)

lemma egress_without_entry:
  assumes "tc_parse_headers skb = Some seg" "tc_tag_pending s (ts_key seg) = None" "tc_pending s (ts_key seg) = None"
  shows "fst (tc_egress_patch tail skb s) = skb"
proof -
  have "tc_tag_pending (dbg_inc i s) = tc_tag_pending s" "tc_pending (dbg_inc i s) = tc_pending s" for i by (simp_all add: dbg_inc_def)
  then show ?thesis
    using assms by (simp add: tc_egress_patch_def Let_def split: option.split del: tc_first_record.simps)
qed

text \<open>A send none of whose patches the socket allows.\<close>

lemma send_refused:
  assumes "xor_pending s (cur_tgid e) = Some p" "bridge_runs e sk p" "bridged cfg e sk s p = []"
  defines "s' \<equiv> dp_run cfg (Send e sk) s"
  shows "xor_pending s' = forget_write e p (xor_pending s)" "tc_pending s' = tc_pending s" "tc_tag_pending s' = tc_tag_pending s"
proof -
  obtain s1 where s1: "no_stage s1 = no_stage s" "s' = bridge_forget e p s1"
    using bridge_filters [OF assms(1,2), of cfg] assms(3) unfolding s'_def by auto
  note n = no_stageD [OF s1(1)]
  show "xor_pending s' = forget_write e p (xor_pending s)" "tc_pending s' = tc_pending s" "tc_tag_pending s' = tc_tag_pending s"
    using n s1(2) by simp_all
qed

section \<open>Property\<close>

text \<open>
  C26: another thread takes the write. Between a write of one thread and its own send, another thread of the process
  sends on any socket: the patches of the secrets that this socket allows are staged for its connection, with the
  length of the first thread's record, and all are forgotten for the process; the first thread's send
  finds nothing, and its packet leaves with the placeholders.
\<close>

theorem thread_takes_write:
  fixes cfg :: config and s :: kmaps
  assumes "tls_write cfg e ssl a (length d) chain False s w" "maps_to (ke_mem e) a d"
    and "a \<noteq> 0" "d \<noteq> []" "length d \<le> SCAN_LIMIT" "scratch_shape (scratch s)" "ke_room e XOR_PENDING"
  defines "ps \<equiv> patches_of cfg e a (take XOR_MAX_MATCHES (placeholders d))"
  assumes "ps \<noteq> []" "cur_tgid other = cur_tgid e" "cur_tgid own = cur_tgid e" "sends_with cfg other sk' ssl chain h nl"
  defines "ks \<equiv> filter (\<lambda>q. socket_allows cfg other sk' (dp_run cfg w s) (patch_key q)) ps"
  assumes "tc_parse_headers skb = Some seg" "ts_key seg = bridge_key own sk" "bridge_key own sk \<noteq> bridge_key other sk'"
    and "tc_tag_pending s (ts_key seg) = None" "tc_pending s (ts_key seg) = None"
  defines "s3 \<equiv> dp_exec cfg [w, Send other sk', Send own sk] s"
  shows "(\<exists>p rest. write_pending e ssl (length d) chain False p \<and> tc_pending s3 =
        (if ks = [] then tc_pending s else (tc_pending s)(bridge_key other sk' \<mapsto> pending_entry other sk' p ks rest)))
    \<and> xor_pending s3 (cur_tgid e) = None \<and> fst (tc_egress_patch tail skb s3) = skb"
proof -
  let ?s1 = "dp_run cfg w s"
  define s2 where "s2 = dp_run cfg (Send other sk') ?s1"
  obtain p where p: "write_pending e ssl (length d) chain False p" "\<not> xp_h_valid p" "held p = ps" "slots_ok p" "xp_patch_count p \<noteq> 0"
      "xor_pending ?s1 (cur_tgid other) = Some p" and fr: "net_part ?s1 = net_part s"
    using written_entry [OF assms(1-7), folded ps_def, OF assms(9)] assms(10) by auto
  have wp: "xp_ssl_ptr p = ssl" "xp_chain_type p = chain" "\<not> xp_memory_bio p" using p(1) by (simp_all add: write_pending_def)
  have runs: "bridge_runs other sk' p" using p(4,5) wp(3) assms(12) by (simp add: bridge_runs_def sends_with_def)
  have cm: "conn_memory cfg other p h nl" using assms(12) wp(1,2) p(2) unfolding sends_with_def by simp
  have br: "bridged cfg other sk' ?s1 p = ks" using p(3) by (simp add: ks_def bridged_def held_def)
  have t: "tc_pending ?s1 = tc_pending s" "tc_tag_pending ?s1 = tc_tag_pending s" using fr by (simp_all add: net_part_def)
  have "\<exists>rest. tc_pending s2 = (if ks = [] then tc_pending s else (tc_pending s)(bridge_key other sk' \<mapsto> pending_entry other sk' p ks rest))
      \<and> xor_pending s2 = forget_write other p (xor_pending ?s1) \<and> tc_tag_pending s2 = tc_tag_pending s"
  proof (cases "ks = []")
    case True
    then show ?thesis using send_refused [OF p(6) runs] br t by (simp add: s2_def)
  next
    case False
    then show ?thesis using send_commits(1,3,5) [OF p(6) runs cm br] t by (auto simp: s2_def)
  qed
  then obtain rest where r: "tc_pending s2 = (if ks = [] then tc_pending s else (tc_pending s)(bridge_key other sk' \<mapsto> pending_entry other sk' p ks rest))"
      "xor_pending s2 (cur_tgid e) = None" "tc_tag_pending s2 = tc_tag_pending s"
    using wp(3) assms(10) by (auto simp: forget_write_def)
  have "s3 = dbg_inc DBG_KPROBE_BRIDGE_NO_ENTRY s2"
    using send_without_write [of s2 own cfg sk] r(2) assms(11) by (simp add: s3_def s2_def del: dp_run.simps)
  then have s3: "tc_pending s3 = tc_pending s2" "tc_tag_pending s3 = tc_tag_pending s2" "xor_pending s3 = xor_pending s2"
    by (simp_all add: dbg_inc_def)
  have "fst (tc_egress_patch tail skb s3) = skb"
    by (rule egress_without_entry [OF assms(14)]) (use s3 r assms(15-18) in auto)
  then show ?thesis using p(1) r s3 by auto
qed

section \<open>A concrete race\<close>

text \<open>
  The write of \<open>Secret_Delivery\<close> through Go's crypto/tls, whose connection is at 4104; the other thread sends
  from port 40001, the writing thread from port 40000.
\<close>

definition go_memory :: bytes where
  "go_memory = [0x10, 0x10, 0, 0, 0, 0, 0, 0, 0x18, 0x10, 0, 0, 0, 0, 0, 0,
     0x20, 0x1E, 0x1C, 0x1A, 0x18, 0x16, 0x14, 0x12, 0x10, 0x0E, 0x0C, 0x0A, 0x08, 0x06, 0x04, 0x02]"

definition other_env :: kenv where
  "other_env = (example_env (mem_block 4104 go_memory))\<lparr>ke_sock := \<lambda>_. example_sock\<lparr>skc_num := 40001\<rparr>\<rparr>"

lemma cur_tgid_sock [simp]: "cur_tgid (e\<lparr>ke_sock := f\<rparr>) = cur_tgid e"
  by (simp add: cur_tgid_def)

lemma other_sends: "sends_with delivery_config other_env 5 4104 CHAIN_GO_TLS example_h 8"
proof -
  have "read_user_ptr other_env 4104 = Some 4112" "read_user_ptr other_env 4112 = Some 4120"
    "word_at other_env 8 4120 (1302690484989992480 :: u64)" "word_at other_env 8 4128 (145247719580765712 :: u64)"
    "gf_double_lanes example_h = (1302690484989992480, 145247719580765712)" "length example_h = 16" "example_h \<noteq> replicate 16 0"
    by code_simp+
  then have "go_context delivery_config other_env 4104 example_h 8"
    unfolding go_context_def by (auto simp: delivery_config_def other_env_def intro!: exI)
  then show ?thesis by (simp add: sends_with_def conn_memory_def \<open>length example_h = 16\<close>)
qed

theorem thread_takes_write_witness:
  "\<exists>p q rest s3. s3 = dp_exec delivery_config [Go_Write (write_env 120) 4104 4096 17, Send other_env 5, Send ossl_env 5] delivery_kmaps
    \<and> tc_pending s3 = [bridge_key other_env 5 \<mapsto> pending_entry other_env 5 p [q] rest] \<and> patch_key q = example_key
    \<and> fst (tc_egress_patch True (delivery_skb (replicate 18 9) (replicate 16 1)) s3) = delivery_skb (replicate 18 9) (replicate 16 1)"
proof -
  let ?ps = "patches_of delivery_config (write_env 120) 4096 (take XOR_MAX_MATCHES (placeholders example_plaintext))"
  let ?w = "Go_Write (write_env 120) 4104 4096 17"
  obtain q where q: "?ps = [q]" "patch_key q = example_key" using delivery_patch by blast
  have "maps_to (ke_mem (write_env 120)) 4096 example_plaintext" using delivery_ready(1) by (simp add: maps_to_append)
  moreover have "tls_write delivery_config (write_env 120) 4104 4096 (length example_plaintext) CHAIN_GO_TLS False delivery_kmaps ?w"
    by (simp add: tls_write_def example_plaintext_def)
  moreover have "bswap16 40000 \<noteq> bswap16 40001" by code_simp
  then have "cur_tgid other_env = cur_tgid (write_env 120)" "cur_tgid ossl_env = cur_tgid (write_env 120)"
      "bridge_key ossl_env 5 \<noteq> bridge_key other_env 5"
    by (simp_all add: other_env_def ossl_env_def write_env_def bridge_key_def example_sock_def)
  moreover have "socket_allows delivery_config other_env 5 (dp_run delivery_config ?w delivery_kmaps) (patch_key q)"
    using q by (simp add: socket_allows_def delivery_config_def secret_config_def example_secret_def vip_socket_check_def del: dp_run.simps)
  moreover have "tc_tag_pending delivery_kmaps = (\<lambda>_. None)" "tc_pending delivery_kmaps = (\<lambda>_. None)"
    by (simp_all add: delivery_kmaps_def example_kmaps_def)
  ultimately show ?thesis
    using thread_takes_write [of delivery_config "write_env 120" 4104 4096 example_plaintext CHAIN_GO_TLS delivery_kmaps ?w other_env ossl_env 5
        example_h 8 "delivery_skb (replicate 18 9) (replicate 16 1)" _ 5 True, OF _ _ delivery_ready(2-6) _ _ _ other_sends delivery_parse] q
    by auto
qed

end
