(* ===== verification/Egress_Limits.thy ===== *)
theory Egress_Limits
  imports Data_Events
begin

text \<open>
  What the egress program may write, and where its promise ends: it keeps a packet's length and headers,
  unless a deferred tag lies across the wrap of the sequence numbers; and it patches a segment only once.
\<close>

section \<open>Stores behind the headers\<close>

text \<open>Two packets of the same length with the same fields and the same first \<open>n\<close> bytes.\<close>

definition payload_only :: "nat \<Rightarrow> sk_buff \<Rightarrow> sk_buff \<Rightarrow> bool" where
  "payload_only n skb skb' \<longleftrightarrow> length (skb_data skb') = length (skb_data skb)
     \<and> take n (skb_data skb') = take n (skb_data skb) \<and> skb' = skb\<lparr>skb_data := skb_data skb'\<rparr>"

lemma payload_only_refl [simp]: "payload_only n skb skb"
  by (simp add: payload_only_def)

lemma payload_only_store:
  assumes "payload_only n skb skb'" "n \<le> unat off"
  shows "payload_only n skb (skb_store_bytes off bs skb')"
proof -
  have "take n (put_at (unat off) bs d) = take n d" if "unat off + length bs \<le> length d" for d
    using that assms(2) by (simp add: put_at_def min_def)
  moreover have "skb_store_bytes off bs skb' = skb\<lparr>skb_data := skb_data (skb_store_bytes off bs skb')\<rparr>"
    using assms(1) by (cases skb; cases skb') (simp add: payload_only_def skb_store_bytes_def)
  ultimately show ?thesis
    using assms(1) length_skb_store_bytes [of off bs skb']
    by (simp add: payload_only_def) (simp add: skb_store_bytes_def)
qed

lemma skb_load_inside: "skb_load_bytes skb off n = Some bs \<Longrightarrow> unat off + n \<le> length (skb_data skb)"
  by (simp add: skb_load_bytes_def split: if_splits)

lemma u8_less: "unat (x :: u8) < 256"
  using unsigned_less [of x] by simp

text \<open>The program finds the payload within the first 134 bytes.\<close>

lemma tc_payload_off_bound:
  assumes "tc_parse_headers skb = Some seg"
  shows "unat (ts_payload_off seg) \<le> 134"
proof -
  obtain l3 ih l4 dst where h: "tc_l3_off skb = Some l3" "tc_ip_header skb l3 = Some (ih, l4, dst)"
    using assms by (auto simp: tc_parse_headers_def split: option.splits)
  let ?d = "drop (l3 + ih) (skb_data skb)"
  have "unat (x :: u8) div 16 < 16" for x using u8_less [of x] by (simp add: less_mult_imp_div_less)
  then have th: "unat (drop_bit 4 (?d ! 12)) < 16" by (simp add: drop_bit_eq_div unat_div)
  have "x AND 0xF \<le> 0xF" for x :: u8 by (rule word_and_le1)
  then have "unat (x AND 0xF) \<le> 15" for x :: u8 by (simp add: word_le_nat_alt)
  then have "unat (x AND 0xF) * 4 \<le> 60" for x :: u8 using mult_le_mono1 [of _ 15 4] by simp
  then have "l3 \<le> 14" "ih \<le> 60"
    using h by (auto simp: tc_l3_off_def tc_ip_header_def Let_def split: if_splits)
  then obtain m where m: "m = l3 + ih + unat (drop_bit 4 (?d ! 12)) * 4" "m \<le> 134" using th by simp
  have "ts_payload_off seg = of_nat m"
    using assms h unfolding m(1) by (auto simp: tc_parse_headers_def Let_def split: if_splits)
  then show ?thesis using unat_of_nat_u32 [of m] m(2) by simp
qed

section \<open>The record lies in the packet\<close>

lemma tc_first_record_inside:
  assumes "tc_first_record n skb off r = Some (off', rlen)" "length (skb_data skb) < 2 ^ 30"
  shows "unat off \<le> unat off' \<and> unat off' + 5 \<le> length (skb_data skb) \<and> rlen \<le> 18432"
  using assms(1)
proof (induction n arbitrary: off r)
  case (Suc n)
  obtain hdr where h: "skb_load_bytes skb off 5 = Some hdr" using Suc.prems by (auto split: option.splits)
  have o5: "unat off + 5 \<le> length (skb_data skb)" using skb_load_inside [OF h] .
  obtain k l where kl: "tls_record_hdr_kind hdr r = (k, l)" by force
  show ?case
  proof (cases k)
    case TLS_REC_SKIPPABLE
    then have l: "l \<le> 18432" "tc_first_record n skb (off + (5 + l)) l = Some (off', rlen)"
      using tls_hdr_skippableD [of hdr r l] kl Suc.prems h by simp_all
    have "unat (off + (5 + l)) = unat off + (5 + unat l)"
      using l(1) o5 assms(2) unat_plus_noof [of 5 l] unat_plus_noof [of off "5 + l"] by (simp add: word_le_nat_alt)
    then show ?thesis using Suc.IH [OF l(2)] by simp
  next
    case TLS_REC_APPDATA
    then show ?thesis using tls_hdr_appdataD [of hdr r l] kl Suc.prems h o5 by simp
  qed (use kl Suc.prems h in simp)
qed simp

lemma tc_scan_records_inside:
  assumes "tc_scan_records n skb off pt nl = Some (off', rlen, nonce)" "length (skb_data skb) < 2 ^ 30"
  shows "unat off \<le> unat off' \<and> unat off' + 5 \<le> length (skb_data skb) \<and> rlen \<le> 18432 \<and> nonce \<le> 255"
  using assms(1)
proof (induction n arbitrary: off)
  case (Suc n)
  obtain hdr where h: "skb_load_bytes skb off 5 = Some hdr" using Suc.prems by (auto split: option.splits)
  have o5: "unat off + 5 \<le> length (skb_data skb)" using skb_load_inside [OF h] .
  obtain k l where kl: "tls_record_hdr_kind hdr 0 = (k, l)" by force
  obtain m mn where m: "tls_appdata_reclen_match l pt nl 0 = (m, mn)" by force
  have nk: "k \<noteq> TLS_REC_INVALID" using Suc.prems h kl by auto
  then have l: "l \<le> 18432"
    using kl tls_hdr_skippableD(5) [of hdr 0 l] tls_hdr_appdataD(6) [of hdr 0 l] by (cases k) auto
  show ?case
  proof (cases "k = TLS_REC_APPDATA \<and> m")
    case True
    moreover have "mn \<le> 255" using m by (auto simp: tls_appdata_reclen_match_def split: if_splits)
    ultimately show ?thesis using Suc.prems h kl m l o5 by simp
  next
    case False
    then have "tc_scan_records n skb (off + (5 + l)) pt nl = Some (off', rlen, nonce)"
      using Suc.prems h kl m nk by auto
    moreover have "unat (off + (5 + l)) = unat off + (5 + unat l)"
      using l o5 assms(2) unat_plus_noof [of 5 l] unat_plus_noof [of off "5 + l"] by (simp add: word_le_nat_alt)
    ultimately show ?thesis using Suc.IH by fastforce
  qed
qed simp

lemma tc_nonce_len_byte: "tc_nonce_len v s \<le> 255"
proof -
  have "(ucast (x :: u8) :: u32) \<le> 255" for x
    using u8_less [of x] by (simp add: word_le_nat_alt unsigned_ucast_eq take_bit_nat_eq_self_iff)
  then show ?thesis by (simp add: tc_nonce_len_def TLS_NONCE_UNKNOWN_def split: option.split)
qed

lemma tc_select_record_inside:
  assumes "tc_select_record skb off rlen pt nl = (off', rlen', nonce)" "length (skb_data skb) < 2 ^ 30"
    and "unat off + 5 \<le> length (skb_data skb)" "rlen \<le> 18432" "nl \<le> 255"
  shows "unat off \<le> unat off' \<and> unat off' + 5 \<le> length (skb_data skb) \<and> rlen' \<le> 18432 \<and> nonce \<le> 255"
proof -
  obtain m mn where m: "tls_appdata_reclen_match rlen pt nl 0 = (m, mn)" by force
  have mn: "mn \<le> 255" using m by (auto simp: tls_appdata_reclen_match_def split: if_splits)
  have "unat (off + 5 + rlen) = unat off + 5 + unat rlen"
    using assms(2-4) unat_plus_noof [of off 5] unat_plus_noof [of "off + 5" rlen] by (simp add: word_le_nat_alt)
  then have le: "unat off \<le> unat (off + 5 + rlen)" by simp
  have "unat off \<le> unat o2 \<and> unat o2 + 5 \<le> length (skb_data skb) \<and> r2 \<le> 18432 \<and> n2 \<le> 255"
    if "tc_scan_records TC_MAX_SCAN_RECORDS skb (off + 5 + rlen) pt nl = Some (o2, r2, n2)" for o2 r2 n2
    using tc_scan_records_inside [OF that assms(2)] le by linarith
  then show ?thesis
    using assms(1,3-5) m mn unfolding tc_select_record_def Let_def
    by (auto split: if_splits option.splits)
qed

section \<open>The patches lie in the payload\<close>

text \<open>The fields of the buffer that the tag's offset is computed from.\<close>

definition record_at :: "'a ghash_cpu_scheme \<Rightarrow> u32 \<times> u32 \<times> u32" where
  "record_at s = (let w = ghash_scratch s in (ghash_payload_off w, ghash_nonce_len w, ghash_ct_len w))"

lemma record_at_upd [simp]:
  "(\<And>w. (ghash_payload_off (f w), ghash_nonce_len (f w), ghash_ct_len (f w))
      = (ghash_payload_off w, ghash_nonce_len w, ghash_ct_len w)) \<Longrightarrow> record_at (upd_work f s) = record_at s"
  "record_at (dbg_inc i s) = record_at s" "record_at (s\<lparr>h_power_entries := es\<rparr>) = record_at s"
  by (simp_all add: record_at_def upd_work_def dbg_inc_def Let_def)

lemma record_at_mul_loop [simp]: "record_at (gf128_mul_loop a v s) = record_at s"
  by (rule gf128_mul_loop_eq [of a v s]) simp

lemma record_at_copy: "record_at (bpf_loop n copy_h_power_step s) = record_at s"
  by (rule bpf_loop_keeps) (auto simp: copy_h_power_step_def Let_def split: option.split)

text \<open>The first \<open>pc\<close> staged patches start less than 2 GiB into the ciphertext.\<close>

definition offsets_small :: "nat \<Rightarrow> 'a ghash_cpu_scheme \<Rightarrow> bool" where
  "offsets_small pc s \<longleftrightarrow> (\<forall>p < pc. unat (secret_offset (xp_patches (staged_pending (ghash_scratch s)) ! p)) < 2 ^ 31)"

lemma record_at_upd_patch [simp]: "record_at (upd_patch p f s) = record_at s"
  by (simp add: upd_patch_def)

lemma secret_offset_zeroed: "secret_offset (xs[p := (xs ! p)\<lparr>secret_len := 0\<rparr>] ! j) = secret_offset (xs ! j)"
  by (cases "p < length xs"; cases "p = j") (simp_all add: list_update_beyond)

lemma offsets_small_zeroed:
  "offsets_small pc s \<Longrightarrow> offsets_small pc (upd_patch p (\<lambda>q. q\<lparr>secret_len := 0\<rparr>) s)"
  by (simp add: offsets_small_def upd_patch_def secret_offset_zeroed)

lemma offsets_small_cong [simp]:
  "(\<And>w. staged_pending (f w) = staged_pending w) \<Longrightarrow> offsets_small pc (upd_work f s) = offsets_small pc s"
  "offsets_small pc (dbg_inc i s) = offsets_small pc s"
  by (simp_all add: offsets_small_def)

lemma tc_apply_patch_inside:
  fixes rlen :: u32
  assumes "p < pc" "payload_only n skb0 (fst st)" "offsets_small pc (fst (snd st))" "n \<le> unat off" "unat off < 2 ^ 30"
    and "nonce \<le> 255"
  defines "st' \<equiv> tc_apply_patch off rlen nonce p st"
  shows "payload_only n skb0 (fst st') \<and> offsets_small pc (fst (snd st')) \<and> record_at (fst (snd st')) = record_at (fst (snd st))"
proof -
  obtain skb s k where st: "st = (skb, s, k)" by (cases st)
  let ?q = "xp_patches (staged_pending (ghash_scratch s)) ! p"
  have "unat (secret_offset ?q) < 2 ^ 31" using assms(1,3) st by (simp add: offsets_small_def)
  then have "unat (off + 5 + nonce + secret_offset ?q) = unat off + 5 + unat nonce + unat (secret_offset ?q)"
    using assms(5,6) unat_plus_noof [of off 5] unat_plus_noof [of "off + 5" nonce]
      unat_plus_noof [of "off + 5 + nonce" "secret_offset ?q"] by (simp add: word_le_nat_alt)
  then have "n \<le> unat (off + 5 + nonce + secret_offset ?q)" using assms(4) by simp
  then show ?thesis
    using assms(2,3) unfolding st'_def st tc_apply_patch_def Let_def
    by (auto simp: payload_only_store offsets_small_zeroed split: option.split)
qed

lemma tc_apply_patches_inside:
  fixes s :: "'a tc_maps_scheme"
  assumes "offsets_small pc s" "n \<le> unat off" "unat off < 2 ^ 30" "nonce \<le> 255"
    and "tc_apply_patches off rlen nonce pc skb s = (skb', s', k)"
  shows "payload_only n skb skb' \<and> record_at s' = record_at s"
proof -
  let ?I = "\<lambda>st. payload_only n skb (fst st) \<and> offsets_small pc (fst (snd st)) \<and> record_at (fst (snd st)) = record_at s"
  have "?I (fold (tc_apply_patch off rlen nonce) [0..<pc] (skb, s, 0))"
  proof (rule fold_invariant [where Q = "\<lambda>p. p < pc" and P = ?I])
    fix p and st :: "sk_buff \<times> 'a tc_maps_scheme \<times> nat"
    assume "p < pc" "?I st"
    then show "?I (tc_apply_patch off rlen nonce p st)"
      using tc_apply_patch_inside [of p pc n skb st off nonce rlen] assms(2-4) by simp
  qed (use assms(1) in simp_all)
  then show ?thesis using assms(5) by (simp add: tc_apply_patches_def)
qed

lemma tc_ghash_update_inside:
  fixes s :: "'a tc_maps_scheme"
  assumes "record_at s = (off, nonce, ct_len)" "n \<le> unat off" "unat off < 2 ^ 30" "nonce \<le> 255" "ct_len \<le> 18432"
    and "payload_only n skb0 skb"
  shows "payload_only n skb0 (fst (tc_ghash_update skb s))"
proof -
  have "record_at (bpf_loop 11 copy_h_power_step (upd_work (\<lambda>w. w\<lparr>ghash_active := False\<rparr>) s)) = (off, nonce, ct_len)"
    unfolding record_at_copy using assms(1) by simp
  moreover have "unat (off + 5 + nonce + ct_len) = unat off + 5 + unat nonce + unat ct_len"
    using assms(3-5) unat_plus_noof [of off 5] unat_plus_noof [of "off + 5" nonce]
      unat_plus_noof [of "off + 5 + nonce" ct_len] by (simp add: word_le_nat_alt)
  then have "payload_only n skb0 (fst (tc_ghash_tag skb (off + 5 + nonce + ct_len) t))" for t :: "'a tc_maps_scheme"
    using assms(2,6) by (auto simp: tc_ghash_tag_def Let_def payload_only_store split: option.split)
  ultimately show ?thesis
    using assms(6) by (simp add: tc_ghash_update_def Let_def record_at_def)
qed

lemma tc_patch_record_inside:
  assumes "length (tp_patches v) = XOR_MAX_PATCHES" "\<forall>q \<in> set (tp_patches v). unat (secret_offset q) < 2 ^ 31"
    and "n \<le> unat off" "unat off < 2 ^ 30" "rlen \<le> 18432" "nonce \<le> 255"
  shows "payload_only n skb (fst (tc_patch_record tail skb seg v off rlen nonce s))"
proof (cases "rlen < 16 + nonce")
  case False
  let ?s1 = "tc_stage seg v off rlen nonce s"
  define pc where "pc = unat (xp_patch_count (staged_pending (ghash_scratch ?s1)))"
  have pc: "pc \<le> 4" "take pc (xp_patches (staged_pending (ghash_scratch ?s1))) = take pc (tp_patches v)"
    using assms(1) by (auto simp: pc_def tc_stage_def Let_def XOR_MAX_PATCHES_def word_less_nat_alt not_less)
  have "offsets_small pc ?s1"
    unfolding offsets_small_def
  proof (intro allI impI)
    fix p assume p: "p < pc"
    then have "xp_patches (staged_pending (ghash_scratch ?s1)) ! p = tp_patches v ! p"
      using arg_cong [OF pc(2), of "\<lambda>l. l ! p"] by simp
    then show "unat (secret_offset (xp_patches (staged_pending (ghash_scratch ?s1)) ! p)) < 2 ^ 31"
      using assms(1,2) p pc(1) by (simp add: XOR_MAX_PATCHES_def)
  qed
  moreover obtain skb1 s2 k where a: "tc_apply_patches off rlen nonce pc skb ?s1 = (skb1, s2, k)" by (metis prod_cases3)
  moreover have "record_at ?s1 = (off, nonce, rlen - 16 - nonce)" by (simp add: record_at_def tc_stage_def Let_def)
  ultimately have r: "payload_only n skb skb1" "record_at s2 = (off, nonce, rlen - 16 - nonce)"
    using tc_apply_patches_inside [OF _ assms(3,4,6) a] by auto
  have n16: "unat (16 + nonce) = 16 + unat nonce" using assms(6) unat_plus_noof [of 16 nonce] by (simp add: word_le_nat_alt)
  have "16 + nonce \<le> rlen" using False by simp
  then have "unat (rlen - (16 + nonce)) \<le> unat rlen" by (simp add: unat_minus_noof)
  then have "rlen - 16 - nonce \<le> 18432" using assms(5) by (simp add: word_le_nat_alt diff_diff_eq)
  then have "payload_only n skb (fst (tc_ghash_update skb1 (s2\<lparr>tc_pending := m\<rparr>)))" for m
    using tc_ghash_update_inside [of "s2\<lparr>tc_pending := m\<rparr>" off nonce _ n skb skb1] r assms(3,4,6)
    by (simp add: record_at_def)
  then show ?thesis
    using False a r(1) by (simp add: tc_patch_record_def Let_def pc_def [symmetric])
qed (simp add: tc_patch_record_def)

lemma tc_deferred_tag_inside:
  assumes "unat (ts_payload_off seg) \<le> 134" "unat (ts_payload_len seg) < 2 ^ 31" "unat (tv_tag_tcp_seq t) + 16 < 2 ^ 32"
  shows "payload_only (unat (ts_payload_off seg)) skb (fst (tc_deferred_tag skb seg t s))"
proof (cases "ts_pkt_seq seg \<le> tv_tag_tcp_seq t \<and> tv_tag_tcp_seq t + 16 \<le> ts_pkt_seq seg + ts_payload_len seg")
  case True
  let ?p = "ts_pkt_seq seg" and ?t = "tv_tag_tcp_seq t" and ?l = "ts_payload_len seg"
  have "unat (?t + 16) = unat ?t + 16" using assms(3) unat_plus_noof [of ?t 16] by simp
  moreover have "unat (?p + ?l) \<le> unat ?p + unat ?l" by (simp add: unat_word_ariths)
  ultimately have "unat (?t - ?p) \<le> unat ?l" using True by (auto simp: word_le_nat_alt unat_minus_noof)
  then have "unat (ts_payload_off seg) \<le> unat (ts_payload_off seg + (?t - ?p))"
    using assms(1,2) unat_plus_noof [of "ts_payload_off seg" "?t - ?p"] by simp
  then show ?thesis
    by (auto simp: tc_deferred_tag_def Let_def payload_only_store split: option.split)
qed (auto simp: tc_deferred_tag_def Let_def)

section \<open>The segments of a connection\<close>

text \<open>
  The packets carry the stream of one connection from position \<open>p\<close> on, each the bytes after those of the
  one before it, without reaching the wrap of the sequence numbers.
\<close>

fun carries :: "tc_dest_key \<Rightarrow> nat \<Rightarrow> sk_buff list \<Rightarrow> bool" where
  "carries k p [] = (p < 2 ^ 32)"
| "carries k p (skb # skbs) =
     (case tc_parse_headers skb of None \<Rightarrow> False
      | Some seg \<Rightarrow> ts_key seg = k \<and> unat (ts_pkt_seq seg) = p \<and> carries k (p + unat (ts_payload_len seg)) skbs)"

fun stream_length :: "sk_buff list \<Rightarrow> nat" where
  "stream_length [] = 0"
| "stream_length (skb # skbs) =
     (case tc_parse_headers skb of None \<Rightarrow> 0 | Some seg \<Rightarrow> unat (ts_payload_len seg)) + stream_length skbs"

text \<open>The egress program on one packet after the other; \<open>tail\<close> as for one.\<close>

fun egress_all :: "bool \<Rightarrow> sk_buff list \<Rightarrow> 'a tc_maps_scheme \<Rightarrow> sk_buff list \<times> 'a tc_maps_scheme" where
  "egress_all tail [] s = ([], s)"
| "egress_all tail (skb # skbs) s =
     (let (skb', s') = tc_egress_patch tail skb s; (skbs', s'') = egress_all tail skbs s' in (skb' # skbs', s''))"

lemma carries_end: "carries k p skbs \<Longrightarrow> p + stream_length skbs < 2 ^ 32"
  by (induction k p skbs rule: carries.induct) (auto simp: add.assoc split: option.splits)

lemma carries_append: "carries k p (xs @ ys) \<Longrightarrow> carries k p xs \<and> carries k (p + stream_length xs) ys"
proof (induction k p xs rule: carries.induct)
  case (1 k p)
  then show ?case using carries_end by fastforce
next
  case (2 k p skb skbs)
  then show ?case by (auto simp: add.assoc split: option.splits)
qed

lemma egress_all_append:
  "egress_all tail (xs @ ys) s = (let (xs', s') = egress_all tail xs s; (ys', s'') = egress_all tail ys s' in (xs' @ ys', s''))"
  by (induction xs arbitrary: s) (simp_all add: split_beta Let_def)

text \<open>Segments all before the end of the tag, or all after its start, pass.\<close>

lemma egress_all_passes:
  fixes s :: "'a tc_maps_scheme"
  assumes "carries k p skbs" "tc_tag_pending s k = Some t" "unat (tv_tag_tcp_seq t) + 16 < 2 ^ 32"
    and "p + stream_length skbs < unat (tv_tag_tcp_seq t) + 16 \<or> unat (tv_tag_tcp_seq t) < p"
  shows "\<exists>s'. egress_all tail skbs s = (skbs, s') \<and> tc_tag_pending s' = tc_tag_pending s \<and> tc_pending s' = tc_pending s"
  using assms
proof (induction skbs arbitrary: p s)
  case (Cons skb skbs)
  obtain seg where seg: "tc_parse_headers skb = Some seg" "ts_key seg = k" "unat (ts_pkt_seq seg) = p"
      "carries k (p + unat (ts_payload_len seg)) skbs"
    using Cons.prems(1) by (auto split: option.splits)
  let ?t = "tv_tag_tcp_seq t" and ?l = "unat (ts_payload_len seg)" and ?s1 = "dbg_inc DBG_TC_ENTRY s"
  have e: "unat (ts_pkt_seq seg + ts_payload_len seg) = p + ?l" "unat (?t + 16) = unat ?t + 16"
    using carries_end [OF seg(4)] seg(3) Cons.prems(3) unat_plus_noof [of "ts_pkt_seq seg" "ts_payload_len seg"] unat_plus_noof [of ?t 16]
    by simp_all
  then have "?t < ts_pkt_seq seg \<or> ts_pkt_seq seg + ts_payload_len seg < ?t + 16"
    using Cons.prems(4) seg(1,3) by (auto simp: word_less_nat_alt)
  from tc_deferred_tag_blocks [OF seg(1) _ this] have one: "tc_egress_patch tail skb s = (skb, ?s1)"
    using Cons.prems(2) seg(2) by simp
  have s1: "tc_tag_pending ?s1 = tc_tag_pending s" "tc_pending ?s1 = tc_pending s" by (simp_all add: dbg_inc_def)
  have "p + ?l + stream_length skbs < unat ?t + 16 \<or> unat ?t < p + ?l" using Cons.prems(4) seg(1) by auto
  then obtain s' where "egress_all tail skbs ?s1 = (skbs, s')" "tc_tag_pending s' = tc_tag_pending ?s1" "tc_pending s' = tc_pending ?s1"
    using Cons.IH [OF seg(4), of ?s1] Cons.prems(2,3) s1 by auto
  then show ?case using one s1 by auto
qed auto

section \<open>Properties\<close>

text \<open>
  C24: the egress program writes behind the headers only. Whatever its maps hold for the connection, a
  packet keeps its length, its Ethernet, IP and TCP headers and every field, so its ports, sequence
  numbers and addresses stay. The hypotheses: the packet has less than 1 GiB, its IP length is no shorter
  than its headers (so the payload's length did not wrap), each of the four staged patches starts less than
  2 GiB into the ciphertext, and a deferred tag does not lie across the wrap of the sequence numbers.
\<close>

theorem egress_keeps_headers:
  fixes s :: "'a tc_maps_scheme"
  assumes "tc_parse_headers skb = Some seg" "length (skb_data skb) < 2 ^ 30" "unat (ts_payload_len seg) < 2 ^ 31"
    and "\<And>t. tc_tag_pending s (ts_key seg) = Some t \<Longrightarrow> unat (tv_tag_tcp_seq t) + 16 < 2 ^ 32"
    and "\<And>v. tc_pending s (ts_key seg) = Some v \<Longrightarrow> length (tp_patches v) = XOR_MAX_PATCHES
           \<and> (\<forall>q \<in> set (tp_patches v). unat (secret_offset q) < 2 ^ 31)"
  shows "payload_only (unat (ts_payload_off seg)) skb (fst (tc_egress_patch tail skb s))"
proof -
  let ?n = "unat (ts_payload_off seg)"
  have n: "?n \<le> 134" using tc_payload_off_bound [OF assms(1)] .
  have rec: "payload_only ?n skb (fst (tc_patch_record tail skb seg v off' rlen' nonce t))"
    if "tc_first_record (TC_MAX_LEADING_RECORDS + 1) skb (ts_payload_off seg) 0 = Some (off, rlen)"
      and "tc_pending s (ts_key seg) = Some v"
      and "tc_select_record skb off rlen (tp_plaintext_len v) (tc_nonce_len v t) = (off', rlen', nonce)"
    for off rlen v off' rlen' nonce and t :: "'a tc_maps_scheme"
  proof -
    have f: "?n \<le> unat off" "unat off + 5 \<le> length (skb_data skb)" "rlen \<le> 18432"
      using tc_first_record_inside [OF that(1) assms(2)] by simp_all
    have g: "unat off \<le> unat off'" "unat off' + 5 \<le> length (skb_data skb)" "rlen' \<le> 18432" "nonce \<le> 255"
      using tc_select_record_inside [OF that(3) assms(2) f(2,3) tc_nonce_len_byte] by simp_all
    show ?thesis
      using tc_patch_record_inside [of v ?n off' rlen' nonce skb tail seg t] assms(2) assms(5) [OF that(2)] f(1) g by simp
  qed
  have tag: "payload_only ?n skb (fst (tc_deferred_tag skb seg t s'))" if "tc_tag_pending s (ts_key seg) = Some t" for t and s' :: "'a tc_maps_scheme"
    using tc_deferred_tag_inside [OF n assms(3) assms(4) [OF that]] .
  show ?thesis
    using assms(1) rec tag
    by (auto simp: tc_egress_patch_def Let_def simp del: tc_first_record.simps split: option.split prod.split)
qed

text \<open>
  C30: a deferred tag across the wrap of the sequence numbers damages the headers. The tag begins
  \<open>k\<close> bytes before the wrap and the segment starts \<open>j\<close> bytes behind it, inside the tag: the
  16-byte end of the tag wraps, so the segment passes the check, and the delta is applied to the 16
  bytes that start \<open>k + j\<close> bytes before the payload, in the TCP header. The entry is used up.
\<close>

theorem wrapped_tag_hits_header:
  assumes "tc_parse_headers skb = Some seg" "tc_tag_pending s (ts_key seg) = Some t"
    and "unat (tv_tag_tcp_seq t) + k = 2 ^ 32" "0 < k" "unat (ts_pkt_seq seg) = j" "k + j < 16"
    and "16 \<le> k + j + unat (ts_payload_len seg)" "unat (ts_payload_len seg) < 2 ^ 31"
    and "skb_data skb = a @ x @ b" "length a + (k + j) = unat (ts_payload_off seg)" "length x = 16"
    and "skb_writable skb" "length (skb_data skb) < 2 ^ 31" "length (tv_tag_delta t) = 16"
  shows "\<exists>s'. tc_egress_patch tail skb s = (skb\<lparr>skb_data := a @ xor_bytes x (tv_tag_delta t) @ b\<rparr>, s')
    \<and> tc_tag_pending s' = map_del (ts_key seg) (tc_tag_pending s)"
proof -
  let ?p = "ts_pkt_seq seg" and ?t = "tv_tag_tcp_seq t" and ?l = "ts_payload_len seg" and ?o = "ts_payload_off seg"
  have le: "?p \<le> ?t" using assms(3,5,6) by (simp add: word_le_nat_alt)
  have "unat ?t + 16 = 2 ^ 32 + (16 - k)" using assms(3,6) by simp
  then have "unat (?t + 16) = 16 - k" using assms(4) by (simp add: unat_word_ariths)
  moreover have "unat (?p + ?l) = j + unat ?l"
    using assms(5,6,8) unat_plus_noof [of ?p ?l] by simp
  ultimately have fits: "?t + 16 \<le> ?p + ?l" using assms(7) by (simp add: word_le_nat_alt)
  have "unat (?t - ?p) = 2 ^ 32 - (k + j)" using le assms(3,5) by (simp add: unat_minus_noof)
  then have "unat ?o + unat (?t - ?p) = 2 ^ 32 + length a" using assms(6,10) by simp
  then have off: "unat (?o + (?t - ?p)) = length a" using assms(9,13) by (simp add: unat_word_ariths)
  have small: "\<not> ?o + (?t - ?p) > 0x7fffffff" unfolding word_less_nat_alt off using assms(9,13) by simp
  have "skb_load_bytes skb (?o + (?t - ?p)) 16 = Some x"
    using small assms(9,11) unfolding skb_load_bytes_def off by simp
  moreover have "skb_store_bytes (?o + (?t - ?p)) (xor_bytes x (tv_tag_delta t)) skb
      = skb\<lparr>skb_data := a @ xor_bytes x (tv_tag_delta t) @ b\<rparr>"
    using small assms(9,11,12,14) unfolding skb_store_bytes_def off by (simp add: put_at_def)
  ultimately show ?thesis
    using assms(1,2) le fits by (simp add: tc_egress_patch_def tc_deferred_tag_def Let_def)
qed

text \<open>
  C28: a tag that lies across two segments stops the connection. A deferred correction waits for the 16 bytes of
  a tag; when the stream of the connection is cut within them, as the segments leave one after the other, none of
  them is changed, neither the two that hold the tag, so the record keeps its wrong tag, nor any later one,
  whatever has been staged for the connection; and the entry still waits after the last.
\<close>

theorem straddled_tag_blocks:
  assumes "carries k p (xs @ ys)" "tc_tag_pending s k = Some t"
    and "unat (tv_tag_tcp_seq t) < p + stream_length xs" "p + stream_length xs < unat (tv_tag_tcp_seq t) + 16"
    and "unat (tv_tag_tcp_seq t) + 16 < 2 ^ 32"
  shows "\<exists>s'. egress_all tail (xs @ ys) s = (xs @ ys, s') \<and> tc_tag_pending s' k = Some t \<and> tc_pending s' = tc_pending s"
proof -
  note c = carries_append [OF assms(1)]
  obtain s1 where s1: "egress_all tail xs s = (xs, s1)" "tc_tag_pending s1 = tc_tag_pending s" "tc_pending s1 = tc_pending s"
    using egress_all_passes [OF _ assms(2,5), of p xs tail] c assms(4) by auto
  obtain s2 where "egress_all tail ys s1 = (ys, s2)" "tc_tag_pending s2 = tc_tag_pending s1" "tc_pending s2 = tc_pending s1"
    using egress_all_passes [of k "p + stream_length xs" ys s1 t tail] c assms(2,3,5) s1(2) by auto
  then show ?thesis using s1 assms(2) by (simp add: egress_all_append)
qed

text \<open>
  C27: a retransmitted segment leaves unpatched. TCP keeps its own copy of the bytes it sent, which the
  program's stores do not reach; when the patched segment of a staged write is lost, the same bytes go
  through the program again, and they leave as they are: the entry was used up by the first pass, so the
  record goes out with its placeholders, under a tag that is valid for them.
\<close>

theorem retransmission_unpatched:
  assumes "tc_parse_headers skb = Some seg" "unat (ts_payload_off seg) = length a"
    and "skb_data skb = a @ recs_bytes (skips @ mids) @ rec_bytes (0x17, minor, nonce @ ct @ tag) @ b"
    and "skb_writable skb" "length (skb_data skb) < 2 ^ 31"
    and "staged_for s seg v h (length ct)"
    and "segment_ok skips mids (0x17, minor, nonce @ ct @ tag) (tp_plaintext_len v) (tc_nonce_len v s)
           (of_nat (length nonce))"
    and "valid_tag h aad lens ek ct tag"
  shows "\<exists>tag' s'. tc_egress_patch True skb s = (skb\<lparr>skb_data := a @ recs_bytes (skips @ mids)
        @ rec_bytes (0x17, minor, nonce @ apply_patches (pending_patches v) ct @ tag') @ b\<rparr>, s')
    \<and> tc_egress_patch tail skb s' = (skb, dbg_inc DBG_TC_ENTRY s')"
proof -
  obtain tag' s' where r: "tc_egress_patch True skb s = (skb\<lparr>skb_data := a @ recs_bytes (skips @ mids)
        @ rec_bytes (0x17, minor, nonce @ apply_patches (pending_patches v) ct @ tag') @ b\<rparr>, s')"
      "tc_pending s' (ts_key seg) = Some (v\<lparr>tp_active := False\<rparr>)" "tc_tag_pending s' (ts_key seg) = None"
    using tc_egress_patch_record [OF assms] assms(6) by (metis fun_upd_same staged_for_def)
  then have "tc_egress_patch tail skb s' = (skb, dbg_inc DBG_TC_ENTRY s')"
    using assms(1) by (intro tc_egress_patch_unstaged) simp
  with r(1) show ?thesis by blast
qed

section \<open>Concrete segments\<close>

text \<open>The segment of \<open>tc_egress_patch_correct_witness\<close>.\<close>

definition staged_payload :: bytes where
  "staged_payload = recs_bytes [(0x14, 3, [1]), (0x17, 3, replicate 32 9 @ replicate 16 1)]"

lemma staged_payload:
  "length staged_payload = 59"
  "tc_parse_headers (example_segment staged_payload) = Some (example_seg 59)"
  "skb_data (example_segment staged_payload) = example_ip 99 @ recs_bytes ([(0x14, 3, [1])] @ [])
      @ rec_bytes (0x17, 3, [] @ replicate 32 9 @ replicate 16 1) @ []"
  "length (example_ip 99) = 54" "length (skb_data (example_segment staged_payload)) = 113"
proof -
  show l: "length staged_payload = 59" by (simp add: staged_payload_def recs_bytes_def rec_bytes_def tls_hdr_def)
  show "tc_parse_headers (example_segment staged_payload) = Some (example_seg 59)"
    using example_parse [of staged_payload] unfolding l by simp
  show "skb_data (example_segment staged_payload) = example_ip 99 @ recs_bytes ([(0x14, 3, [1])] @ [])
      @ rec_bytes (0x17, 3, [] @ replicate 32 9 @ replicate 16 1) @ []"
    unfolding example_segment_def l by (simp add: staged_payload_def recs_bytes_def)
  show n: "length (example_ip 99) = 54" by (simp add: example_ip_def)
  show "length (skb_data (example_segment staged_payload)) = 113" using l n by (simp add: example_segment_def)
qed

theorem egress_keeps_headers_witness:
  "payload_only 54 (example_segment staged_payload)
     (fst (tc_egress_patch True (example_segment staged_payload) example_tc))"
proof -
  have "payload_only (unat (ts_payload_off (example_seg 59))) (example_segment staged_payload)
      (fst (tc_egress_patch True (example_segment staged_payload) example_tc))"
    by (rule egress_keeps_headers [OF staged_payload(2)])
      (simp_all add: staged_payload(5) example_seg_def example_tc_def example_maps_def example_pending_def
        XOR_MAX_PATCHES_def example_patch_def no_patch_def split: if_splits)
  then show ?thesis by (simp add: example_seg_def)
qed

text \<open>A segment three bytes behind the wrap, and a tag that begins five bytes before it.\<close>

definition wrapped_segment :: sk_buff where
  "wrapped_segment = (example_segment (replicate 20 4))\<lparr>skb_data :=
     put_at 38 [0, 0, 0, 3] (skb_data (example_segment (replicate 20 4)))\<rparr>"

definition wrapped_maps :: tc_maps where
  "wrapped_maps = example_maps\<lparr>tc_tag_pending := [ts_key (example_seg 0) \<mapsto>
     \<lparr>tv_tag_delta = replicate 16 5, tv_tag_tcp_seq = 0xFFFFFFFB\<rparr>]\<rparr>"

lemma wrapped_parse: "tc_parse_headers wrapped_segment = Some ((example_seg 20)\<lparr>ts_pkt_seq := 3\<rparr>)"
  by code_simp

theorem wrapped_tag_hits_header_witness:
  "\<exists>s'. tc_egress_patch True wrapped_segment wrapped_maps
     = (wrapped_segment\<lparr>skb_data := put_at 46 ([0x55, 5, 5, 5, 5, 5, 5, 5] @ replicate 8 1) (skb_data wrapped_segment)\<rparr>, s')"
proof -
  let ?t = "\<lparr>tv_tag_delta = replicate 16 5, tv_tag_tcp_seq = 0xFFFFFFFB\<rparr>"
  let ?a = "take 46 (skb_data wrapped_segment)" and ?x = "[0x50, 0, 0, 0, 0, 0, 0, 0] @ replicate 8 4 :: bytes"
  have d: "skb_data wrapped_segment = ?a @ ?x @ replicate 12 4" "length ?a = 46" "length (skb_data wrapped_segment) = 74" "skb_writable wrapped_segment"
    by code_simp+
  have x: "xor_bytes ?x (replicate 16 5) = [0x55, 5, 5, 5, 5, 5, 5, 5] @ replicate 8 1" by code_simp
  have "drop 62 (skb_data wrapped_segment) = replicate 12 4" by code_simp
  then have p: "put_at 46 ys (skb_data wrapped_segment) = ?a @ ys @ replicate 12 4" if "length ys = 16" for ys
    using that by (simp add: put_at_def)
  obtain s' where "tc_egress_patch True wrapped_segment wrapped_maps
      = (wrapped_segment\<lparr>skb_data := ?a @ xor_bytes ?x (tv_tag_delta ?t) @ replicate 12 4\<rparr>, s')"
    using wrapped_tag_hits_header [OF wrapped_parse _ _ _ _ _ _ _ d(1) _ _ d(4), of wrapped_maps ?t 5 3 True] d(2,3)
    by (auto simp: wrapped_maps_def example_seg_def)
  then show ?thesis using p x by auto
qed

text \<open>A tag at position 1010, with segments up to 1020 and from there; the second has a staged record.\<close>

definition cut_segment :: "bytes \<Rightarrow> sk_buff" where
  "cut_segment payload = (example_segment payload)\<lparr>skb_data := put_at 38 [0, 0, 3, 252] (skb_data (example_segment payload))\<rparr>"

definition cut_maps :: tc_maps where
  "cut_maps = example_tag_maps\<lparr>tc_pending := tc_pending example_tc\<rparr>"

theorem straddled_tag_blocks_witness:
  "\<exists>s' v. egress_all True [example_segment (replicate 20 4), cut_segment (replicate 40 5)] cut_maps
      = ([example_segment (replicate 20 4), cut_segment (replicate 40 5)], s')
    \<and> tc_pending s' (ts_key (example_seg 0)) = Some v \<and> tp_active v"
proof -
  let ?t = "\<lparr>tv_tag_delta = replicate 16 5, tv_tag_tcp_seq = 1010\<rparr>" and ?k = "ts_key (example_seg 0)"
  have p: "tc_parse_headers (example_segment (replicate 20 4)) = Some (example_seg 20)"
    using example_parse [of "replicate 20 4"] by simp
  have q: "tc_parse_headers (cut_segment (replicate 40 5)) = Some ((example_seg 40)\<lparr>ts_pkt_seq := 1020\<rparr>)" by code_simp
  have c: "carries ?k 1000 ([example_segment (replicate 20 4)] @ [cut_segment (replicate 40 5)])"
    using p q by (simp add: example_seg_def)
  have n: "stream_length [example_segment (replicate 20 4)] = 20" using p by (simp add: example_seg_def)
  show ?thesis
    using straddled_tag_blocks [OF c, of cut_maps ?t True] n
    by (auto simp: cut_maps_def example_tag_maps_def example_tc_def example_pending_def)
qed

theorem retransmission_unpatched_witness:
  "\<exists>skb' s'. tc_egress_patch True (example_segment staged_payload) example_tc = (skb', s')
    \<and> tc_egress_patch False (example_segment staged_payload) s' = (example_segment staged_payload, dbg_inc DBG_TC_ENTRY s')"
proof -
  define ek where "ek = gf_of (replicate 16 1) - tag_hash gf_of 1 [5] (replicate 32 9) (replicate 16 2)"
  have v: "valid_tag 1 [5] (replicate 16 2) ek (replicate 32 9) (replicate 16 1)"
    by (simp add: valid_tag_def ek_def)
  show ?thesis
    using retransmission_unpatched [OF staged_payload(2) _ staged_payload(3), of example_tc example_pending 1 "[5]"
        "replicate 16 2" ek False]
      example_staged example_records [of "replicate 32 9 @ replicate 16 1"] v staged_payload(1,4)
    by (auto simp: example_segment_def example_seg_def tc_nonce_len_def example_tc_def example_maps_def
      example_pending_def TLS_NONCE_UNKNOWN_def)
qed

end
