(* ===== verification/Unmapped_Tail.thy ===== *)
theory Unmapped_Tail
  imports Secret_Delivery
begin

text \<open>
  A placeholder close to the end of mapped memory: \<open>bpf_xor_path\<close> reads 128 bytes from the placeholder on
  without a look at the result of the read.
\<close>

section \<open>A patch made of zeros\<close>

text \<open>What the patch of a placeholder does when the 128 bytes are not all mapped.\<close>

lemma unmapped_patch:
  assumes "m \<in> set (take XOR_MAX_MATCHES (placeholders d))" "length d \<le> SCAN_LIMIT"
    and "secret_map cfg (xm_key m) = Some v" "secret_ok v" "sv_len v \<noteq> 0" "unat (sv_len v) \<le> SECRET_MAX_LEN" "may_redeem cfg e (xm_key m)"
    and "\<not> fst (probe_read_user (ke_mem e) SECRET_MAX_LEN (a + ucast (xm_pos m)))"
    and "length ks = length d" "unat (xm_pos m) + unat (sv_len v) \<le> min (length d) 16384"
  defines "o' \<equiv> unat (xm_pos m)" and "n \<equiv> unat (sv_len v)"
  shows "\<exists>q \<in> set (patches_of cfg e a (take XOR_MAX_MATCHES (placeholders d))). patch_key q = xm_key m \<and> secret_offset q = xm_pos m
    \<and> xor_bytes (apply_patch q (xor_bytes d ks)) ks = put_at o' (xor_bytes (bytes_at d o' n) (take n (real_secret v))) d"
proof -
  define q where "q = \<lparr>secret_offset = xm_pos m, secret_len = sv_len v,
      xor_delta = xor_delta_of (snd (probe_read_user (ke_mem e) SECRET_MAX_LEN (a + ucast (xm_pos m)))) v, patch_key = xm_key m\<rparr>"
  have "patch_of cfg e a m = [q]" using assms(3,5-7) by (simp add: patch_of_def q_def)
  then have q: "q \<in> set (patches_of cfg e a (take XOR_MAX_MATCHES (placeholders d)))" using assms(1) by (force simp: patches_of_def)
  have z: "snd (probe_read_user (ke_mem e) SECRET_MAX_LEN (a + ucast (xm_pos m))) = replicate SECRET_MAX_LEN 0"
    using assms(8) by (auto simp: probe_read_user_def split: if_splits)
  have l: "length (take n (real_secret v)) = n" "length (bytes_at d o' n) = n"
    using assms(4,6,10) by (auto simp: secret_ok_def bytes_at_def o'_def n_def)
  have "take n (xor_delta q) = xor_bytes (replicate n 0) (take n (real_secret v))"
    using take_xor_delta [OF assms(5,6,4)] assms(6) z by (simp add: q_def n_def min_def)
  also have "\<dots> = xor_bytes (bytes_at d o' n) (xor_bytes (bytes_at d o' n) (take n (real_secret v)))"
    using l by (intro nth_equalityI) (auto simp flip: xor.assoc)
  finally have "xor_bytes (apply_patch q (xor_bytes d ks)) ks = put_at o' (xor_bytes (bytes_at d o' n) (take n (real_secret v))) d"
    using apply_patch_plain [OF patch_of_valid [OF q, of "length d"] assms(9), of "xor_bytes (bytes_at d o' n) (take n (real_secret v))"]
      assms(10) l by (simp add: q_def o'_def n_def)
  then show ?thesis using q by (intro bexI [of _ q]) (simp_all add: q_def)
qed

section \<open>Property\<close>

text \<open>
  C29: a placeholder near the end of mapped memory garbles the record. A process writes data with a placeholder of
  a secret it may redeem, and one of the 128 bytes from the placeholder on is not mapped, so that the
  unchecked read of \<open>bpf_xor_path\<close> fails. The write is staged all the same, with a patch of this placeholder
  computed from zeros: the record decrypts to the exclusive or of placeholder and secret, a value that is neither.
\<close>

theorem unmapped_tail_garbles_secret:
  fixes cfg :: config and s :: kmaps
  assumes "tls_write cfg e ssl a (length d) chain mb s w" "maps_to (ke_mem e) a d" "a \<noteq> 0" "d \<noteq> []" "length d \<le> SCAN_LIMIT"
    and "scratch_shape (scratch s)" "ke_room e XOR_PENDING"
    and "m \<in> set (take XOR_MAX_MATCHES (placeholders d))" "secret_map cfg (xm_key m) = Some v" "secret_ok v" "sv_len v \<noteq> 0"
      "unat (sv_len v) \<le> SECRET_MAX_LEN" "may_redeem cfg e (xm_key m)"
    and "\<not> fst (probe_read_user (ke_mem e) SECRET_MAX_LEN (a + ucast (xm_pos m)))"
    and "length ks = length d" "unat (xm_pos m) + unat (sv_len v) \<le> min (length d) 16384"
  defines "o' \<equiv> unat (xm_pos m)" and "n \<equiv> unat (sv_len v)"
  shows "\<exists>p q. xor_pending (dp_run cfg w s) (cur_tgid e) = Some p \<and> q \<in> set (held p)
    \<and> patch_key q = xm_key m \<and> secret_offset q = xm_pos m
    \<and> xor_bytes (apply_patch q (xor_bytes d ks)) ks = put_at o' (xor_bytes (bytes_at d o' n) (take n (real_secret v))) d"
proof -
  obtain q where q: "q \<in> set (patches_of cfg e a (take XOR_MAX_MATCHES (placeholders d)))" "patch_key q = xm_key m" "secret_offset q = xm_pos m"
      "xor_bytes (apply_patch q (xor_bytes d ks)) ks = put_at o' (xor_bytes (bytes_at d o' n) (take n (real_secret v))) d"
    using unmapped_patch [OF assms(8,5,9-16)] unfolding o'_def n_def by blast
  then have "patches_of cfg e a (take XOR_MAX_MATCHES (placeholders d)) \<noteq> []" by auto
  from written_entry [OF assms(1-7) this] obtain p where "held p = patches_of cfg e a (take XOR_MAX_MATCHES (placeholders d))"
      "xor_pending (dp_run cfg w s) (cur_tgid e) = Some p" by blast
  then show ?thesis using q by (intro exI [of _ p] exI [of _ q]) (simp del: dp_run.simps)
qed

text \<open>The write of \<open>Secret_Delivery\<close> with nothing mapped after its 17 bytes.\<close>

theorem unmapped_tail_garbles_secret_witness:
  "\<exists>p q. xor_pending (dp_run delivery_config (Ssl_Write (write_env 0) 4096 4096 17) delivery_kmaps) 7 = Some p \<and> q \<in> set (held p)
    \<and> xor_bytes (apply_patch q (xor_bytes example_plaintext (replicate 17 9))) (replicate 17 9)
      = put_at 1 [0x6B XOR 0x77, 0x6C XOR 0x78, 0x3A XOR 0x79, 0x3A XOR 0x7A] example_plaintext"
proof -
  let ?d = example_plaintext and ?e = "write_env 0"
  have l: "length ?d = 17" by (simp add: example_plaintext_def)
  have w: "tls_write delivery_config ?e 4096 4096 (length ?d) CHAIN_SSL True delivery_kmaps (Ssl_Write ?e 4096 4096 17)"
  proof -
    have "ssl_read_fd delivery_config ?e 4096 = 0" by code_simp
    then show ?thesis unfolding tls_write_def l by (simp add: delivery_kmaps_def delivery_config_def ossl_config_def write_env_def)
  qed
  define m where "m = \<lparr>xm_pos = 1, xm_key = example_key\<rparr>"
  have m: "m \<in> set (take XOR_MAX_MATCHES (placeholders ?d))" "xm_key m = example_key" "xm_pos m = 1"
    by (simp_all add: m_def example_placeholders XOR_MAX_MATCHES_def example_key_def)
  have mem: "maps_to (ke_mem ?e) 4096 ?d" "ke_room ?e XOR_PENDING" "cur_tgid ?e = 7"
    using write_env_memory [of 0] by (simp_all add: write_env_def)
  have v: "secret_map delivery_config (xm_key m) = Some example_secret" "secret_ok example_secret" "sv_len example_secret \<noteq> 0"
      "unat (sv_len example_secret) \<le> SECRET_MAX_LEN" "may_redeem delivery_config ?e (xm_key m)"
    using m(2) by (simp_all add: delivery_config_def secret_config_def secret_ok_def example_secret_def SECRET_MAX_LEN_def
      may_redeem_def write_env_def)
  have "ke_mem ?e (4097 + of_nat 100) = None" by (simp add: write_env_def mem_block_def example_plaintext_def)
  then have u: "\<not> fst (probe_read_user (ke_mem ?e) SECRET_MAX_LEN (4096 + ucast (xm_pos m)))"
    using m(3) by (auto simp: probe_read_user_def SECRET_MAX_LEN_def list_all_iff intro!: bexI [of _ 100])
  have "put_at (unat (xm_pos m)) (xor_bytes (bytes_at ?d (unat (xm_pos m)) (unat (sv_len example_secret)))
        (take (unat (sv_len example_secret)) (real_secret example_secret))) ?d
      = put_at 1 [0x6B XOR 0x77, 0x6C XOR 0x78, 0x3A XOR 0x79, 0x3A XOR 0x7A] ?d"
    using m(3) by (simp add: example_secret_def bytes_at_def example_plaintext_def xor_bytes_def)
  then show ?thesis
    using unmapped_tail_garbles_secret [OF w mem(1) delivery_ready(2-5) mem(2) m(1) v u, of "replicate 17 9"] l m(3) mem(3)
    by (auto simp: example_secret_def simp del: dp_run.simps)
qed

end
