(* ===== verification/Spec2Isabelle.thy ===== *)
theory Spec2Isabelle
  imports GF128 Text_Match TLS_Record SNI_Hello Vip_Address Dns_Parse Aes Tc_Egress Process_Track Key_Extract Xor_Path
    Sni_State Send_Bridge Vip_Connect Dns_Rewrite Secret_Delivery Interrupts Node_Runs Thread_Race Egress_Limits
    Unmapped_Tail
begin

text \<open>
  Verification of the eBPF data plane of kloak, \<open>src/pkg/ebpf/bpf/helpers.h\<close> and
  \<open>src/pkg/ebpf/bpf/tls_uprobe.c\<close>.

  The program. A pod holds placeholders (\<open>kl::\<close> and a key) instead of secrets. When it writes one into a
  TLS connection, the data plane exclusive-ors the ciphertext of the record that leaves the node so that
  it decrypts to the secret, and corrects the GHASH tag of the record; no process ever sees the secret.
  A secret goes only where it may: to containers it is bound to, over sockets that came to the secret's
  host (through a virtual IP that only trusted DNS answers hand out), to its address and port, and
  after a handshake that names the host.

  The parts, in the order of a write, and their theories:
    \<^item> \<open>Process_Track\<close>: the exec, exit, connect and close tracepoints and \<open>secret_binding_allows\<close>.
    \<^item> \<open>Write_Scan\<close>: the entry probes of SSL_write and of Go's Write, and the scan of the plaintext
      (\<open>prescan_chunk\<close> under \<open>bpf_loop\<close>), which leave the placeholders in the per-CPU \<open>scratch\<close>.
    \<^item> \<open>Key_Extract\<close>, \<open>Aes\<close>: the GHASH subkey H of the connection, from the memory of OpenSSL, BoringSSL
      (by \<open>aes_recover_h\<close>) and Go, at key setup, SSL_write or tcp_sendmsg.
    \<^item> \<open>Xor_Path\<close>: \<open>bpf_xor_path\<close> and the tail calls of a write; placeholder xor secret becomes a patch, the
      patches of a write an entry of \<open>xor_pending\<close>.
    \<^item> \<open>TLS_Record\<close>, \<open>SNI_Parse\<close>, \<open>SNI_Hello\<close>, \<open>Sni_State\<close>: record framing, the ClientHello parser
      \<open>tls_parse_sni\<close>, and the verdict on a connection that \<open>bpf_kprobe_tcp_sendmsg_sni\<close> keeps in \<open>sni_state\<close>.
    \<^item> \<open>Text_Match\<close>, \<open>Vip_Address\<close>, \<open>Vip_Connect\<close>: hosts and addresses, the upstream table of a fake IP, the
      cgroup connect and getpeername programs, which keep the host of a socket in \<open>vip_sock_host\<close>.
    \<^item> \<open>Dns_Parse\<close>, \<open>Dns_Rewrite\<close>: the parser of DNS answers and \<open>tc_dns_rewrite\<close>, which puts fake IPs into
      answers and records the real addresses in \<open>vip_upstream\<close>.
    \<^item> \<open>Send_Bridge\<close>: \<open>bpf_kprobe_tcp_sendmsg\<close>, which checks the patches of \<open>xor_pending\<close> against the socket
      and stages those allowed in \<open>tc_pending\<close>, keyed by destination, source port and container.
    \<^item> \<open>GF128\<close>, \<open>Ghash_Spec\<close>, \<open>Ghash_Update\<close>, \<open>Tc_Egress\<close>: arithmetic in GF(2^128), \<open>tc_egress_patch\<close>, which
      finds the record of the staged write and patches it, and \<open>tc_ghash_update\<close>, which corrects its tag or
      defers the correction to a later segment (\<open>tc_tag_pending\<close>).
    \<^item> \<open>Data_Events\<close>, \<open>Data_Plane\<close>: all of these programs as events on the shared maps, and what every run keeps.
    \<^item> \<open>Secret_Delivery\<close>: a write, its send and its packet composed.
    \<^item> \<open>Node\<close>, \<open>Node_Runs\<close>: several CPUs, each with its own buffers (\<open>cpu\<close>), whose programs interleave: an action
      begins an event, also on a CPU with an unfinished write, or continues with the next tail-called program of
      the CPU's last chain (\<open>node_run\<close>). \<open>disturbs\<close> tells the actions that change what an unfinished write
      has in its CPU's buffers: other writes, and egress runs that patch a record (\<open>disturbing_events\<close>).
    \<^item> \<open>Interrupts\<close>: an egress run between two programs of a write. \<open>Thread_Race\<close>: the send of another
      thread between a write and its own send. \<open>Egress_Limits\<close>: what \<open>tc_egress_patch\<close> may write, a segment
      sent twice, a tag cut in two. \<open>Unmapped_Tail\<close>: a placeholder at the end of mapped memory.
  \<open>Prelude\<close> has words and buffers, \<open>Bpf\<close> the kernel's helpers, \<open>State\<close> the structs and maps, \<open>Transition\<close> the
  interface of the state machines.

  State and operations. A BPF program is a function of its environment \<open>kenv\<close> (task, user memory, clocks,
  sockets, room in maps), the tables the control plane writes (\<open>config\<close>), its context arguments and the
  maps it changes (\<open>kmaps\<close>, an extension of the records of the smaller programs); it returns the maps and its
  result. The per-CPU arrays are fields of \<open>kmaps\<close> for the CPU that runs; \<open>Node\<close> keeps those of every CPU
  and mounts them. Definitions have the names of the functions of the code. A lookup that may fail is an option, a
  failed read of user memory leaves zeros, an update of a full hash map leaves it as it is, and the entry an
  LRU map may drop at any time is the event \<open>Evict\<close>. A tail call is a returned flag; \<open>run_write\<close> and
  \<open>tc_patch_record\<close> make it. C buffers are lists of bytes; \<open>__u32\<close> values that may wrap are words, offsets whose
  bound the code checks are natural numbers.

  What the lemmas show.
    \<^item> Helpers against references: \<open>gf128_mul\<close> is the product of the ring GF(2^128) (an instance of
      \<open>comm_ring_1\<close>), \<open>aes_block_encrypt\<close> is the cipher of FIPS-197, \<open>tls_parse_sni\<close> and the DNS walks invert encoders
      of their formats, the tag correction is GHASH of the delta (locale \<open>ghash_buffers\<close>, interpreted on the code's
      arithmetic).
    \<^item> Programs: for each, what it does on every branch (the \<open>_spec\<close>, \<open>_exact\<close> and \<open>_correct\<close> facts) and what it
      leaves alone (the \<open>_frame\<close> and \<open>_keeps\<close> facts: a projection such as \<open>no_path\<close> or \<open>net_part\<close> is equal before
      and after).
    \<^item> State machines: locales \<open>step_invariant\<close> and \<open>step_order\<close>, interpreted on the verdicts of connections, the steps
      of the data plane and the actions of a node; locale \<open>upstream_store\<close>, interpreted on the upstream table;
      \<open>last_touch\<close> and \<open>last_flip\<close> give the event that a state goes back to.
    \<^item> The whole: a write of placeholders leaves the node as a record of the secrets with a valid tag
      (\<open>placeholders_delivered\<close>, from the plaintext in memory to the one the peer decrypts); what waits for a
      packet has the shape \<open>tc_egress_patch_correct\<close> assumes (\<open>staged_entry_typed\<close>).
    \<^item> Concurrency. In every run of a node the arrays keep their shapes (\<open>node_shape\<close>), and a patch of a host-bound
      secret waits only after a connect to that host (\<open>node_host_attribution\<close>). In the calm runs, whose actions
      disturb no unfinished write (\<open>calm_step\<close>, \<open>undisturbed\<close>), the patches that wait for a packet are granted to
      its container (\<open>node_isolation\<close>), and a write among the programs of all CPUs takes effect in one step
      (\<open>write_linearized\<close>). The code does not keep its runs calm: \<open>egress_interrupts_write\<close> is what an egress run
      between two programs of a write leads to, \<open>thread_takes_write\<close> what two threads of a process do to each
      other's writes. One CPU that finishes each chain performs the events of \<open>Data_Events\<close> (\<open>node_sequential\<close>).
    \<^item> Limits of the egress program: it never writes before the payload (\<open>egress_keeps_headers\<close>) unless a deferred
      tag lies across the wrap of the sequence numbers (\<open>wrapped_tag_hits_header\<close>), and a retransmitted segment
      leaves with its placeholders (\<open>retransmission_unpatched\<close>); a tag that two segments share is never
      corrected and stops the connection's patches (\<open>straddled_tag_blocks\<close>). A placeholder at the end of mapped
      memory is replaced by garbage (\<open>unmapped_tail_garbles_secret\<close>).

  Bounds. \<open>bpf_loop\<close> runs at most 2^23 rounds (\<open>BPF_MAX_LOOPS\<close>), so a write is scanned up to \<open>SCAN_LIMIT\<close> = 2^23 * 249
  bytes; a chain has at most 33 tail calls (\<open>MAX_TAIL_CALLS\<close>), more than the four runs of \<open>bpf_xor_path\<close>; the loops
  with a constant number of rounds in the code have that number as their fuel (32 extensions, 4 leading and
  4 scanned records, 65 bytes of a question, 64 steps of an answer section, 13 rounds of AES, 11 powers of H), and
  the properties show that it is enough or say what happens when it is not.

  Not modelled: the control plane (Go), whose writes are the record \<open>config\<close> and whose deletions of maps are
  left out; the generated kernel headers; tests, examples and the offset finders; the output of
  \<open>KLOAK_DEBUG\<close> builds and the branches of other architectures (the model is x86); padding of structs;
  per-CPU lookups that return NULL, which an array lookup with a valid index does not; changes of user memory
  between the programs of a write or within one; other programs within one program, which interrupt it or
  change the shared maps; a chain that goes on before one that interrupted it has ended; packets with a partial
  checksum (CHECKSUM_PARTIAL), whose checksum field the kernel treats differently.
  The checksum helper of the kernel is a parameter with its documented law as a
  hypothesis.
\<close>

end
